(* ===== verification/Prelude.thy ===== *)
theory Prelude
  imports Main "HOL-Library.Word"
begin

text \<open>
  Shared vocabulary of the development: machine integers and octet strings, C++ exceptions
  as values, big-endian integer encodings as the sources compute them, C memory blocks, and
  the list lemmas that the component theories use.
\<close>

unbundle bit_operations_syntax

section \<open>Types and errors\<close>

type_synonym byte = "8 word"
type_synonym bytes = "8 word list"
type_synonym u16 = "16 word"
type_synonym u32 = "32 word"
type_synonym u64 = "64 word"

text \<open>
  \<open>OutOfRange\<close> is \<^verbatim>\<open>std::out_of_range\<close>, \<open>LengthError\<close> is \<^verbatim>\<open>std::length_error\<close>,
  \<open>InvalidArg\<close> is \<^verbatim>\<open>std::invalid_argument\<close> and \<open>RuntimeError\<close> is
  \<^verbatim>\<open>std::runtime_error\<close>. \<open>MemFault\<close> is no exception of the program: it is the value of
  an access outside a C array, which the language leaves undefined; \<open>BadShift\<close> likewise is the
  value of a shift by the width of its operand or more.
\<close>

datatype exn = OutOfRange | LengthError | InvalidArg | RuntimeError | MemFault | BadShift

type_synonym 'a res = "exn + 'a"

fun ebind :: "'e + 'a \<Rightarrow> ('a \<Rightarrow> 'e + 'b) \<Rightarrow> 'e + 'b" where
  "ebind (Inl e) f = Inl e"
| "ebind (Inr x) f = f x"

lemma ebind_Inr_iff: "ebind m f = Inr y \<longleftrightarrow> (\<exists>x. m = Inr x \<and> f x = Inr y)"
  by (cases m) auto

lemma ebind_Inl_iff: "ebind m f = Inl e \<longleftrightarrow> m = Inl e \<or> (\<exists>x. m = Inr x \<and> f x = Inl e)"
  by (cases m) auto

lemma ebind_assoc: "ebind (ebind m f) g = ebind m (\<lambda>x. ebind (f x) g)"
  by (cases m) auto

text \<open>Running a list of steps, stopping at the first error.\<close>

fun efold :: "('a \<Rightarrow> 's \<Rightarrow> 'e + 's) \<Rightarrow> 'a list \<Rightarrow> 's \<Rightarrow> 'e + 's" where
  "efold f [] s = Inr s"
| "efold f (x # xs) s = ebind (f x s) (efold f xs)"

lemma efold_append: "efold f (xs @ ys) s = ebind (efold f xs s) (efold f ys)"
proof (induction xs arbitrary: s)
  case (Cons x xs)
  then have "efold f (xs @ ys) = (\<lambda>s. ebind (efold f xs s) (efold f ys))"
    by (simp add: fun_eq_iff)
  then show ?case by (simp add: ebind_assoc)
qed simp

text \<open>An invariant that every step keeps holds after the whole list.\<close>

lemma efold_invariant:
  assumes "\<And>x s s'. x \<in> set xs \<Longrightarrow> P s \<Longrightarrow> f x s = Inr s' \<Longrightarrow> P s'"
    and "P s" and "efold f xs s = Inr s'"
  shows "P s'"
  using assms
proof (induction xs arbitrary: s)
  case (Cons x xs)
  from Cons.prems(3) obtain t where t: "f x s = Inr t" "efold f xs t = Inr s'"
    by (auto simp: ebind_Inr_iff)
  from Cons.prems(1) [of x s t] Cons.prems(2) t(1) have "P t" by simp
  show ?case
  proof (rule Cons.IH [OF _ \<open>P t\<close> t(2)])
    fix y a b assume "y \<in> set xs" "P a" "f y a = Inr b"
    then show "P b" by (intro Cons.prems(1) [of y a b]) simp_all
  qed
qed simp

section \<open>32-bit unsigned arithmetic\<close>

text \<open>
  The sources keep sizes as \<^verbatim>\<open>unsigned int\<close>. They are natural numbers here, with the
  wrap-around of \<^verbatim>\<open>unsigned int\<close> addition and subtraction written out where the code
  computes in that type.
\<close>

definition u32_add :: "nat \<Rightarrow> nat \<Rightarrow> nat" where
  "u32_add a b = (a + b) mod 2 ^ 32"

definition u32_sub :: "nat \<Rightarrow> nat \<Rightarrow> nat" where
  "u32_sub a b = nat ((int a - int b) mod 2 ^ 32)"

lemma u32_add_exact: "a + b < 2 ^ 32 \<Longrightarrow> u32_add a b = a + b"
  by (simp add: u32_add_def)

lemma u32_sub_exact: "b \<le> a \<Longrightarrow> a < 2 ^ 32 \<Longrightarrow> u32_sub a b = a - b"
  by (simp add: u32_sub_def flip: of_nat_diff)

lemma u32_sub_wraps:
  assumes "a < b" and "b \<le> 2 ^ 32"
  shows "u32_sub a b = 2 ^ 32 + a - b"
proof -
  have "(int a - int b) mod 2 ^ 32 = (int a - int b + 2 ^ 32) mod 2 ^ 32" by simp
  also have "\<dots> = int a - int b + 2 ^ 32" using assms by (intro mod_pos_pos_trivial) auto
  finally show ?thesis using assms by (simp add: u32_sub_def)
qed

lemma u32_add_wraps: "a < 2 ^ 32 \<Longrightarrow> b < 2 ^ 32 \<Longrightarrow> 2 ^ 32 \<le> a + b \<Longrightarrow>
  u32_add a b = a + b - 2 ^ 32"
  by (simp add: u32_add_def le_mod_geq)

section \<open>C memory blocks\<close>

text \<open>\<open>sub i n m\<close> is the block of \<open>n\<close> bytes at offset \<open>i\<close>; \<open>mem_write i xs m\<close> overwrites it.\<close>

definition sub :: "nat \<Rightarrow> nat \<Rightarrow> 'a list \<Rightarrow> 'a list" where
  "sub i n m = take n (drop i m)"

definition mem_write :: "nat \<Rightarrow> 'a list \<Rightarrow> 'a list \<Rightarrow> 'a list" where
  "mem_write i xs m = take i m @ xs @ drop (i + length xs) m"

named_theorems mem_simps \<open>reads of memory blocks after writes\<close>

lemma length_sub [simp]: "length (sub i n m) = min n (length m - i)"
  by (simp add: sub_def)

lemma sub_0 [simp]: "sub i 0 m = []"
  by (simp add: sub_def)

lemma sub_all: "n = length m \<Longrightarrow> sub 0 n m = m"
  by (simp add: sub_def)

lemma nth_sub: "k < n \<Longrightarrow> i + n \<le> length m \<Longrightarrow> sub i n m ! k = m ! (i + k)"
  by (simp add: sub_def)

lemma sub_append_left [mem_simps]: "i + n \<le> length xs \<Longrightarrow> sub i n (xs @ ys) = sub i n xs"
  by (simp add: sub_def)

lemma sub_append_right [mem_simps]: "length xs \<le> i \<Longrightarrow> sub i n (xs @ ys) = sub (i - length xs) n ys"
  by (simp add: sub_def)

lemma length_mem_write [simp]:
  "i + length xs \<le> length m \<Longrightarrow> length (mem_write i xs m) = length m"
  by (simp add: mem_write_def)

lemma mem_write_Nil [simp]: "mem_write i [] m = m"
  by (simp add: mem_write_def)

lemma take_mem_write [mem_simps]:
  "i + length xs \<le> length m \<Longrightarrow> take (i + length xs) (mem_write i xs m) = take i m @ xs"
  by (simp add: mem_write_def)

lemma take_mem_write_before [mem_simps]:
  "k \<le> i \<Longrightarrow> i \<le> length m \<Longrightarrow> take k (mem_write i xs m) = take k m"
  by (simp add: mem_write_def min_def)

lemma sub_mem_write_same [mem_simps]:
  "i + length xs \<le> length m \<Longrightarrow> sub i (length xs) (mem_write i xs m) = xs"
  by (simp add: mem_write_def sub_def)

lemma sub_mem_write_before [mem_simps]:
  "j + n \<le> i \<Longrightarrow> i \<le> length m \<Longrightarrow> sub j n (mem_write i xs m) = sub j n m"
proof -
  assume "j + n \<le> i" "i \<le> length m"
  then have "sub j n (take i m @ xs @ drop (i + length xs) m) = sub j n (take i m)"
    by (intro sub_append_left) simp
  also have "\<dots> = sub j n m"
    using \<open>j + n \<le> i\<close> by (simp add: sub_def drop_take min_absorb1)
  finally show ?thesis by (simp add: mem_write_def)
qed

lemma sub_mem_write_after [mem_simps]:
  "i + length xs \<le> j \<Longrightarrow> i + length xs \<le> length m \<Longrightarrow> sub j n (mem_write i xs m) = sub j n m"
  by (simp add: mem_write_def sub_def)

lemma mem_write_twice:
  "i + length xs \<le> length m \<Longrightarrow> length ys = length xs \<Longrightarrow>
   mem_write i ys (mem_write i xs m) = mem_write i ys m"
  by (simp add: mem_write_def)

section \<open>Big-endian integers\<close>

text \<open>
  \<open>be_enc n v\<close> is the loop \<^verbatim>\<open>for(x=1;x<=n;++x) *(p++) = (uint8_t)(v >> (8 * (n - x)))\<close> and
  \<open>be_dec\<close> the loop \<^verbatim>\<open>v <<= 8; v |= *(p++)\<close> of \<^verbatim>\<open>Buffer\<close>.
\<close>

fun be_enc :: "nat \<Rightarrow> 'a::len word \<Rightarrow> bytes" where
  "be_enc 0 v = []"
| "be_enc (Suc n) v = ucast (drop_bit (8 * n) v) # be_enc n v"

fun be_fold :: "'a::len word \<Rightarrow> bytes \<Rightarrow> 'a word" where
  "be_fold v [] = v"
| "be_fold v (b # bs) = be_fold (push_bit 8 v OR ucast b) bs"

definition be_dec :: "bytes \<Rightarrow> 'a::len word" where
  "be_dec bs = be_fold 0 bs"

lemma be_enc_numeral [simp]:
  "be_enc (numeral k) v = ucast (drop_bit (8 * pred_numeral k) v) # be_enc (pred_numeral k) v"
  by (simp add: numeral_eq_Suc)

lemma length_be_enc [simp]: "length (be_enc n v) = n"
  by (induction n) auto

lemma be_fold_enc:
  fixes v w :: "'a::len word"
  shows "be_fold v (be_enc n w) = push_bit (8 * n) v OR take_bit (8 * n) w"
proof (induction n arbitrary: v)
  case 0
  then show ?case by simp
next
  case (Suc n)
  let ?b = "ucast (ucast (drop_bit (8 * n) w) :: byte) :: 'a word"
  have "push_bit (8 * n) (push_bit 8 v OR ?b) OR take_bit (8 * n) w
      = push_bit (8 * Suc n) v OR take_bit (8 * Suc n) w"
  proof (rule bit_word_eqI)
    fix k assume k: "k < LENGTH('a)"
    consider "k < 8 * n" | "8 * n \<le> k" "k < 8 * n + 8" | "8 * n + 8 \<le> k"
      by linarith
    then show "bit (push_bit (8 * n) (push_bit 8 v OR ?b) OR take_bit (8 * n) w) k
        = bit (push_bit (8 * Suc n) v OR take_bit (8 * Suc n) w) k"
      by cases (use k in \<open>auto simp: bit_simps add.commute\<close>)
  qed
  with Suc show ?case by simp
qed

lemma be_dec_enc: "be_dec (be_enc n v) = take_bit (8 * n) v"
  by (simp add: be_dec_def be_fold_enc)

lemma be_dec_enc_id: "LENGTH('a) \<le> 8 * n \<Longrightarrow> be_dec (be_enc n v) = (v :: 'a::len word)"
  by (simp add: be_dec_enc take_bit_word_eq_self)

lemma be_enc_low_bits:
  fixes v w :: "'a::len word"
  assumes "take_bit (8 * n) v = take_bit (8 * n) w"
  shows "be_enc n v = be_enc n w"
  using assms
proof (induction n)
  case (Suc n)
  have "take_bit (8 * n) (take_bit (8 * Suc n) v) = take_bit (8 * n) (take_bit (8 * Suc n) w)"
    using Suc.prems by simp
  then have low: "take_bit (8 * n) v = take_bit (8 * n) w"
    by simp
  have "(ucast (drop_bit (8 * n) v) :: byte) = ucast (drop_bit (8 * n) w)"
  proof (rule bit_word_eqI)
    fix k :: nat assume k: "k < LENGTH(8)"
    have "bit (take_bit (8 * Suc n) v) (8 * n + k) = bit (take_bit (8 * Suc n) w) (8 * n + k)"
      using Suc.prems by simp
    with k show "bit (ucast (drop_bit (8 * n) v) :: byte) k = bit (ucast (drop_bit (8 * n) w) :: byte) k"
      by (auto simp: bit_simps)
  qed
  with low Suc.IH show ?case by simp
qed simp

lemma be_fold_split:
  fixes v :: "'a::len word"
  shows "be_fold v bs = push_bit (8 * length bs) v OR be_fold 0 bs"
proof (induction bs arbitrary: v)
  case (Cons b bs)
  have "be_fold v (b # bs) = push_bit (8 * length bs) (push_bit 8 v OR ucast b) OR be_fold 0 bs"
    using Cons.IH [of "push_bit 8 v OR ucast b"] by simp
  moreover have "be_fold (0 :: 'a word) (b # bs) = push_bit (8 * length bs) (ucast b) OR be_fold 0 bs"
    using Cons.IH [of "ucast b"] by simp
  moreover have "push_bit (8 * length bs) (push_bit 8 v OR ucast b)
      = push_bit (8 * length (b # bs)) v OR push_bit (8 * length bs) (ucast b)"
    by (simp add: push_bit_or add.commute)
  ultimately show ?case by (simp add: or.assoc add.commute)
qed simp

lemma be_dec_Cons:
  "be_dec (b # bs) = (push_bit (8 * length bs) (ucast b) OR be_dec bs :: 'a::len word)"
  using be_fold_split [of "ucast b :: 'a word" bs] by (simp add: be_dec_def)

lemma take_bit_be_dec:
  "take_bit (8 * length bs) (be_dec bs) = (be_dec bs :: 'a::len word)"
proof (induction bs)
  case Nil
  then show ?case by (simp add: be_dec_def)
next
  case (Cons b bs)
  have hi: "\<not> bit (be_dec bs :: 'a word) k" if "8 * length bs \<le> k" for k
  proof -
    have "bit (be_dec bs :: 'a word) k \<longleftrightarrow> bit (take_bit (8 * length bs) (be_dec bs) :: 'a word) k"
      by (simp add: Cons.IH)
    with that show ?thesis by (simp add: bit_simps)
  qed
  have b: "\<not> bit b k" if "8 \<le> k" for k
    using that bit_imp_le_length [of b k] by auto
  show ?case
  proof (rule bit_word_eqI)
    fix k assume k: "k < LENGTH('a)"
    have "k < 8 * length (b # bs) \<or> 8 \<le> k - 8 * length bs \<and> 8 * length bs \<le> k"
      by auto
    with k hi [of k] b [of "k - 8 * length bs"]
    show "bit (take_bit (8 * length (b # bs)) (be_dec (b # bs) :: 'a word)) k
        = bit (be_dec (b # bs) :: 'a word) k"
      by (auto simp: be_dec_Cons bit_simps)
  qed
qed

lemma bit_be_dec_high:
  "8 * length bs \<le> k \<Longrightarrow> \<not> bit (be_dec bs :: 'a::len word) k"
proof
  assume k: "8 * length bs \<le> k" and b: "bit (be_dec bs :: 'a word) k"
  from b have "bit (take_bit (8 * length bs) (be_dec bs :: 'a word)) k"
    by (simp add: take_bit_be_dec)
  with k show False by (simp add: bit_simps)
qed

lemma be_enc_dec:
  assumes "8 * length bs \<le> LENGTH('a::len)"
  shows "be_enc (length bs) (be_dec bs :: 'a word) = bs"
  using assms
proof (induction bs)
  case (Cons b bs)
  let ?v = "be_dec (b # bs) :: 'a word"
  have hd: "ucast (drop_bit (8 * length bs) ?v) = b"
    by (rule bit_word_eqI)
      (use Cons.prems in \<open>auto simp: be_dec_Cons bit_simps bit_be_dec_high\<close>)
  have "take_bit (8 * length bs) ?v = take_bit (8 * length bs) (be_dec bs :: 'a word)"
    by (rule bit_word_eqI) (auto simp: be_dec_Cons bit_simps)
  then have "be_enc (length bs) ?v = be_enc (length bs) (be_dec bs :: 'a word)"
    by (rule be_enc_low_bits)
  also have "\<dots> = bs" using Cons.prems by (intro Cons.IH) simp
  finally show ?case by (simp only: be_enc.simps length_Cons hd)
qed simp

text \<open>Encodings of the same width are equal only for values that agree on those bits.\<close>

lemma be_enc_inject:
  "LENGTH('a::len) \<le> 8 * n \<Longrightarrow> be_enc n v = be_enc n (w :: 'a word) \<longleftrightarrow> v = w"
proof
  assume n: "LENGTH('a) \<le> 8 * n" and eq: "be_enc n v = be_enc n w"
  have "v = be_dec (be_enc n v)" using n by (rule be_dec_enc_id [symmetric])
  also have "\<dots> = w" unfolding eq using n by (rule be_dec_enc_id)
  finally show "v = w" .
qed simp

section \<open>Words and bounds\<close>

lemma unat_and_mask_less: "unat (x AND mask n :: 'a::len word) < 2 ^ n"
proof -
  have "unat (take_bit n x) = take_bit n (unat x)"
    by (rule unsigned_take_bit_eq)
  moreover have "take_bit n (unat x) < 2 ^ n"
    by (rule take_bit_nat_less_exp)
  ultimately show ?thesis by (simp only: take_bit_eq_mask)
qed

end
