(* ===== verification/Buffer.thy ===== *)
theory Buffer
  imports Prelude
begin

text \<open>
  The bounds-checked byte buffer of \<^verbatim>\<open>zto/node/Buffer.hpp\<close>, on which packets, fragments and
  serialized objects are built. The model keeps the whole array \<^verbatim>\<open>_b[C]\<close>, also the stale bytes
  behind the size \<^verbatim>\<open>_l\<close>, since \<^verbatim>\<open>setSize()\<close> and \<^verbatim>\<open>addSize()\<close> expose them. Sizes are
  \<^verbatim>\<open>unsigned int\<close>: \<open>u32_add\<close> marks each addition that the code computes in 32 bits. Additions
  with \<^verbatim>\<open>sizeof(T)\<close> are computed in \<^verbatim>\<open>size_t\<close> and do not wrap.
  The locale \<open>byte_sink\<close> is the contract that serializers rely on.
\<close>

section \<open>State\<close>

record buffer =
  buf_cap :: nat
  buf_len :: nat
  buf_mem :: bytes

definition buf_ok :: "buffer \<Rightarrow> bool" where
  "buf_ok b \<longleftrightarrow> length (buf_mem b) = buf_cap b \<and> buf_len b \<le> buf_cap b \<and> buf_cap b < 2 ^ 32"

text \<open>The bytes a client of the buffer sees.\<close>

definition data :: "buffer \<Rightarrow> bytes" where
  "data b = take (buf_len b) (buf_mem b)"

section \<open>Operations\<close>

text \<open>
  Every access to the array goes through \<open>peek\<close> (reading \<open>n\<close> bytes at \<^verbatim>\<open>_b + i\<close>) and \<open>poke\<close>
  (writing \<open>xs\<close> there). Both fault when the access leaves the array, whatever the operation has
  checked before.
\<close>

definition peek :: "buffer \<Rightarrow> nat \<Rightarrow> nat \<Rightarrow> bytes res" where
  "peek b i n =
     (if i + n > length (buf_mem b) then Inl MemFault else Inr (sub i n (buf_mem b)))"

definition poke :: "buffer \<Rightarrow> nat \<Rightarrow> bytes \<Rightarrow> buffer res" where
  "poke b i xs =
     (if i + length xs > length (buf_mem b) then Inl MemFault
      else Inr (b\<lparr>buf_mem := mem_write i xs (buf_mem b)\<rparr>))"

definition buf_new :: "nat \<Rightarrow> bytes \<Rightarrow> buffer" where
  "buf_new C raw = \<lparr>buf_cap = C, buf_len = 0, buf_mem = raw\<rparr>"

definition buf_sized :: "nat \<Rightarrow> bytes \<Rightarrow> nat \<Rightarrow> buffer res" where
  "buf_sized C raw l =
     (if l > C then Inl OutOfRange else Inr \<lparr>buf_cap = C, buf_len = l, buf_mem = raw\<rparr>)"

definition buf_assign :: "buffer \<Rightarrow> buffer \<Rightarrow> buffer res" where
  "buf_assign b src =
     (if buf_len src > buf_cap b then Inl OutOfRange
      else ebind (peek src 0 (buf_len src)) (poke (b\<lparr>buf_len := buf_len src\<rparr>) 0))"

definition copyFrom :: "buffer \<Rightarrow> bytes \<Rightarrow> buffer res" where
  "copyFrom b xs =
     (if length xs > buf_cap b then Inl OutOfRange
      else poke (b\<lparr>buf_len := length xs\<rparr>) 0 xs)"

definition buf_get :: "buffer \<Rightarrow> nat \<Rightarrow> byte res" where
  "buf_get b i =
     (if i \<ge> buf_len b then Inl OutOfRange else ebind (peek b i 1) (\<lambda>xs. Inr (hd xs)))"

definition buf_put :: "buffer \<Rightarrow> nat \<Rightarrow> byte \<Rightarrow> buffer res" where
  "buf_put b i v =
     (if i \<ge> buf_len b then Inl OutOfRange else poke b i [v])"

text \<open>\<^verbatim>\<open>field(i,l)\<close>: the value is the block of \<open>l\<close> bytes behind the returned pointer.\<close>

definition field :: "buffer \<Rightarrow> nat \<Rightarrow> nat \<Rightarrow> bytes res" where
  "field b i l =
     (if u32_add i l > buf_len b then Inl OutOfRange else peek b i l)"

definition sizeof :: "'a::len word itself \<Rightarrow> nat" where
  "sizeof t = LENGTH('a) div 8"

definition setAt :: "buffer \<Rightarrow> nat \<Rightarrow> 'a::len word \<Rightarrow> buffer res" where
  "setAt b i v =
     (if i + sizeof TYPE('a word) > buf_len b then Inl OutOfRange
      else poke b i (be_enc (sizeof TYPE('a word)) v))"

definition at :: "buffer \<Rightarrow> nat \<Rightarrow> 'a::len word res" where
  "at b i =
     (if i + sizeof TYPE('a word) > buf_len b then Inl OutOfRange
      else ebind (peek b i (sizeof TYPE('a word))) (\<lambda>xs. Inr (be_dec xs)))"

definition append_word :: "buffer \<Rightarrow> 'a::len word \<Rightarrow> buffer res" where
  "append_word b v =
     (if buf_len b + sizeof TYPE('a word) > buf_cap b then Inl OutOfRange
      else ebind (poke b (buf_len b) (be_enc (sizeof TYPE('a word)) v))
             (\<lambda>b'. Inr (b'\<lparr>buf_len := buf_len b + sizeof TYPE('a word)\<rparr>)))"

primrec append_run_loop :: "nat \<Rightarrow> byte \<Rightarrow> buffer \<Rightarrow> buffer res" where
  "append_run_loop 0 c b = Inr b"
| "append_run_loop (Suc n) c b =
     ebind (poke b (buf_len b) [c])
       (\<lambda>b'. append_run_loop n c (b'\<lparr>buf_len := u32_add (buf_len b) 1\<rparr>))"

definition append_run :: "buffer \<Rightarrow> byte \<Rightarrow> nat \<Rightarrow> buffer res" where
  "append_run b c n =
     (if u32_add (buf_len b) n > buf_cap b then Inl OutOfRange else append_run_loop n c b)"

definition append_bytes :: "buffer \<Rightarrow> bytes \<Rightarrow> buffer res" where
  "append_bytes b xs =
     (if u32_add (buf_len b) (length xs) > buf_cap b then Inl OutOfRange
      else ebind (poke b (buf_len b) xs)
             (\<lambda>b'. Inr (b'\<lparr>buf_len := u32_add (buf_len b) (length xs)\<rparr>)))"

definition append_buffer :: "buffer \<Rightarrow> buffer \<Rightarrow> buffer res" where
  "append_buffer b src = ebind (peek src 0 (buf_len src)) (append_bytes b)"

text \<open>
  \<^verbatim>\<open>appendCString\<close> writes byte by byte and throws in the middle when the buffer is full: the
  bytes written so far stay, so the result carries the buffer on both ways out. The argument
  is the C string without its terminating zero.
\<close>

definition append_char :: "buffer \<Rightarrow> byte \<Rightarrow> buffer res" where
  "append_char b c =
     (if buf_len b \<ge> buf_cap b then Inl OutOfRange
      else ebind (poke b (buf_len b) [c]) (\<lambda>b'. Inr (b'\<lparr>buf_len := buf_len b + 1\<rparr>)))"

fun appendCString :: "buffer \<Rightarrow> bytes \<Rightarrow> exn option \<times> buffer" where
  "appendCString b [] =
     (case append_char b 0 of Inl e \<Rightarrow> (Some e, b) | Inr b' \<Rightarrow> (None, b'))"
| "appendCString b (c # s) =
     (case append_char b c of Inl e \<Rightarrow> (Some e, b)
      | Inr b' \<Rightarrow> if c = 0 then (None, b') else appendCString b' s)"

text \<open>The pointer that \<^verbatim>\<open>appendField\<close> returns is the offset of the new field.\<close>

definition appendField :: "buffer \<Rightarrow> nat \<Rightarrow> (nat \<times> buffer) res" where
  "appendField b l =
     (if u32_add (buf_len b) l > buf_cap b then Inl OutOfRange
      else Inr (buf_len b, b\<lparr>buf_len := u32_add (buf_len b) l\<rparr>))"

definition addSize :: "buffer \<Rightarrow> nat \<Rightarrow> buffer res" where
  "addSize b i =
     (if u32_add i (buf_len b) > buf_cap b then Inl OutOfRange
      else Inr (b\<lparr>buf_len := u32_add (buf_len b) i\<rparr>))"

definition setSize :: "buffer \<Rightarrow> nat \<Rightarrow> buffer res" where
  "setSize b i = (if i > buf_cap b then Inl OutOfRange else Inr (b\<lparr>buf_len := i\<rparr>))"

definition behead :: "buffer \<Rightarrow> nat \<Rightarrow> buffer res" where
  "behead b pos =
     (if pos = 0 then Inr b
      else if pos > buf_len b then Inl OutOfRange
      else (let l = u32_sub (buf_len b) pos in
            ebind (peek b pos l) (poke (b\<lparr>buf_len := l\<rparr>) 0)))"

definition erase :: "buffer \<Rightarrow> nat \<Rightarrow> nat \<Rightarrow> buffer res" where
  "erase b pos n =
     (let endr = u32_add pos n in
      if endr > buf_len b then Inl OutOfRange
      else ebind (peek b endr (u32_sub (buf_len b) endr)) (\<lambda>xs.
           ebind (poke b pos xs) (\<lambda>b'.
           Inr (b'\<lparr>buf_len := u32_sub (buf_len b) n\<rparr>))))"

definition clear :: "buffer \<Rightarrow> buffer" where
  "clear b = b\<lparr>buf_len := 0\<rparr>"

definition zero_buf :: "buffer \<Rightarrow> buffer res" where
  "zero_buf b = poke b 0 (replicate (buf_len b) 0)"

definition zeroUnused :: "buffer \<Rightarrow> buffer res" where
  "zeroUnused b = poke b (buf_len b) (replicate (u32_sub (buf_cap b) (buf_len b)) 0)"

definition burn :: "buffer \<Rightarrow> buffer res" where
  "burn b = poke b 0 (replicate (buf_cap b) 0)"

text \<open>\<^verbatim>\<open>memcmp\<close> compares as unsigned bytes; \<^verbatim>\<open>operator<\<close> looks at the common prefix only.\<close>

fun memcmp_less :: "bytes \<Rightarrow> bytes \<Rightarrow> bool" where
  "memcmp_less (x # xs) (y # ys) = (x < y \<or> x = y \<and> memcmp_less xs ys)"
| "memcmp_less _ _ = False"

definition buf_eq :: "buffer \<Rightarrow> buffer \<Rightarrow> bool" where
  "buf_eq a b \<longleftrightarrow> buf_len a = buf_len b \<and> take (buf_len a) (buf_mem a) = take (buf_len a) (buf_mem b)"

definition buf_less :: "buffer \<Rightarrow> buffer \<Rightarrow> bool" where
  "buf_less a b =
     memcmp_less (take (min (buf_len a) (buf_len b)) (buf_mem a))
                 (take (min (buf_len a) (buf_len b)) (buf_mem b))"


section \<open>Refinement to byte strings\<close>

lemmas buf_defs = buf_ok_def data_def poke_def

lemma peek_ok [simp]: "i + n \<le> length (buf_mem b) \<Longrightarrow> peek b i n = Inr (sub i n (buf_mem b))"
  by (simp add: peek_def)

lemma poke_ok [simp]:
  "i + length xs \<le> length (buf_mem b) \<Longrightarrow> poke b i xs = Inr (b\<lparr>buf_mem := mem_write i xs (buf_mem b)\<rparr>)"
  by (simp add: poke_def)

lemma length_data [simp]: "buf_ok b \<Longrightarrow> length (data b) = buf_len b"
  by (simp add: buf_defs)

lemma data_le_cap: "buf_ok b \<Longrightarrow> length (data b) \<le> buf_cap b"
  by (simp add: buf_ok_def data_def)

lemma buf_ok_new [simp]: "length raw = C \<Longrightarrow> C < 2 ^ 32 \<Longrightarrow> buf_ok (buf_new C raw)"
  by (simp add: buf_ok_def buf_new_def)

lemma data_new [simp]: "data (buf_new C raw) = []"
  by (simp add: data_def buf_new_def)

lemma u32_add_len: "buf_ok b \<Longrightarrow> buf_len b + n < 2 ^ 32 \<Longrightarrow> u32_add (buf_len b) n = buf_len b + n"
  by (rule u32_add_exact)

lemma append_bytes_fits:
  assumes "buf_ok b" and "buf_len b + length xs \<le> buf_cap b"
  shows "\<exists>b'. append_bytes b xs = Inr b' \<and> buf_ok b' \<and> data b' = data b @ xs \<and> buf_cap b' = buf_cap b"
proof -
  have u: "u32_add (buf_len b) (length xs) = buf_len b + length xs"
    using assms by (intro u32_add_exact) (simp add: buf_ok_def)
  let ?b' = "b\<lparr>buf_mem := mem_write (buf_len b) xs (buf_mem b), buf_len := buf_len b + length xs\<rparr>"
  have "append_bytes b xs = Inr ?b'"
    using assms u by (simp add: append_bytes_def poke_def buf_ok_def)
  moreover have "buf_ok ?b'" "data ?b' = data b @ xs"
    using assms by (simp_all add: buf_ok_def data_def take_mem_write)
  ultimately show ?thesis by simp
qed

lemma append_bytes_full:
  assumes "buf_ok b" and "buf_cap b < buf_len b + length xs" and "buf_len b + length xs < 2 ^ 32"
  shows "append_bytes b xs = Inl OutOfRange"
  using assms by (simp add: append_bytes_def u32_add_exact)

text \<open>A serializer's view of a bounded output: what it appends is there, in order, or it throws.\<close>

locale byte_sink =
  fixes put :: "'s \<Rightarrow> bytes \<Rightarrow> 's res"
    and contents :: "'s \<Rightarrow> bytes"
    and capacity :: "'s \<Rightarrow> nat"
    and invar :: "'s \<Rightarrow> bool"
  assumes contents_le: "invar s \<Longrightarrow> length (contents s) \<le> capacity s"
    and put_fits: "invar s \<Longrightarrow> length (contents s) + length xs \<le> capacity s \<Longrightarrow>
      \<exists>s'. put s xs = Inr s' \<and> invar s' \<and> contents s' = contents s @ xs \<and> capacity s' = capacity s"
    and put_full: "invar s \<Longrightarrow> capacity s < length (contents s) + length xs \<Longrightarrow>
      length (contents s) + length xs < 2 ^ 32 \<Longrightarrow> put s xs = Inl OutOfRange"
begin

lemma put_all_fits:
  assumes "invar s" and "length (contents s) + length (concat xss) \<le> capacity s"
  shows "\<exists>s'. efold (\<lambda>xs s. put s xs) xss s = Inr s' \<and> invar s' \<and>
    contents s' = contents s @ concat xss \<and> capacity s' = capacity s"
  using assms
proof (induction xss arbitrary: s)
  case (Cons xs xss)
  from Cons.prems obtain t where t: "put s xs = Inr t" "invar t"
    "contents t = contents s @ xs" "capacity t = capacity s"
    using put_fits [of s xs] by auto
  with Cons.prems Cons.IH [of t] show ?case by auto
qed simp

lemma put_all_full:
  assumes "invar s" and "capacity s < length (contents s) + length (concat xss)"
    and "length (contents s) + length (concat xss) < 2 ^ 32"
  shows "efold (\<lambda>xs s. put s xs) xss s = Inl OutOfRange"
  using assms
proof (induction xss arbitrary: s)
  case (Cons xs xss)
  show ?case
  proof (cases "length (contents s) + length xs \<le> capacity s")
    case True
    with Cons.prems obtain t where t: "put s xs = Inr t" "invar t"
      "contents t = contents s @ xs" "capacity t = capacity s"
      using put_fits [of s xs] by auto
    with Cons.prems Cons.IH [of t] show ?thesis by simp
  next
    case False
    with Cons.prems show ?thesis by (simp add: put_full)
  qed
next
  case Nil
  then show ?case using contents_le [of s] by simp
qed

text \<open>Cutting a payload into pieces and appending them one by one is appending it whole.\<close>

lemma put_all_contents:
  assumes "invar s" and "efold (\<lambda>xs s. put s xs) xss s = Inr s'"
    and "length (contents s) + length (concat xss) < 2 ^ 32"
  shows "contents s' = contents s @ concat xss" and "invar s'"
    and "length (contents s) + length (concat xss) \<le> capacity s"
proof -
  show fits: "length (contents s) + length (concat xss) \<le> capacity s"
    using put_all_full [OF assms(1) _ assms(3)] assms(2) by (force simp: not_le)
  show "contents s' = contents s @ concat xss" "invar s'"
    using put_all_fits [OF assms(1) fits] assms(2) by auto
qed

end

interpretation buf: byte_sink append_bytes data buf_cap buf_ok
proof unfold_locales
  fix s xs
  assume ok: "buf_ok s"
  show "length (data s) \<le> buf_cap s"
    by (rule data_le_cap [OF ok])
  show "\<exists>s'. append_bytes s xs = Inr s' \<and> buf_ok s' \<and> data s' = data s @ xs \<and> buf_cap s' = buf_cap s"
    if "length (data s) + length xs \<le> buf_cap s"
    using append_bytes_fits [OF ok] that ok by simp
  show "append_bytes s xs = Inl OutOfRange"
    if "buf_cap s < length (data s) + length xs" "length (data s) + length xs < 2 ^ 32"
    using append_bytes_full [OF ok] that ok by simp
qed

text \<open>\<^verbatim>\<open>append(const T)\<close> appends the big-endian bytes of the value.\<close>

lemma append_word_eq_bytes:
  assumes "buf_ok b" and "buf_len b + sizeof TYPE('a::len word) < 2 ^ 32"
  shows "append_word b (v :: 'a word) = append_bytes b (be_enc (sizeof TYPE('a word)) v)"
  using assms by (simp add: append_word_def append_bytes_def u32_add_exact)

lemma at_data:
  assumes "buf_ok b" and "i + sizeof TYPE('a::len word) \<le> buf_len b"
  shows "at b i = Inr (be_dec (sub i (sizeof TYPE('a word)) (data b)) :: 'a word)"
proof -
  have "sub i (sizeof TYPE('a word)) (data b) = sub i (sizeof TYPE('a word)) (buf_mem b)"
    using assms by (simp add: data_def sub_def drop_take min_absorb1)
  with assms show ?thesis by (simp add: at_def buf_ok_def)
qed

lemma field_data:
  assumes "buf_ok b" and "i + l < 2 ^ 32"
  shows "field b i l = (if i + l \<le> buf_len b then Inr (sub i l (data b)) else Inl OutOfRange)"
proof (cases "i + l \<le> buf_len b")
  case True
  then have "sub i l (data b) = sub i l (buf_mem b)"
    by (simp add: data_def sub_def drop_take min_absorb1)
  with True assms show ?thesis by (simp add: field_def u32_add_exact buf_ok_def)
next
  case False
  with assms show ?thesis by (simp add: field_def u32_add_exact)
qed

lemma copyFrom_data:
  assumes "buf_ok b" and "length xs \<le> buf_cap b"
  shows "\<exists>b'. copyFrom b xs = Inr b' \<and> buf_ok b' \<and> data b' = xs \<and> buf_cap b' = buf_cap b"
  using assms take_mem_write [of 0 xs "buf_mem b"] by (simp add: copyFrom_def buf_ok_def data_def)

lemma behead_data:
  assumes "buf_ok b" and "pos \<le> buf_len b"
  shows "\<exists>b'. behead b pos = Inr b' \<and> buf_ok b' \<and> data b' = drop pos (data b) \<and> buf_cap b' = buf_cap b"
proof (cases "pos = 0")
  case False
  let ?xs = "sub pos (buf_len b - pos) (buf_mem b)"
  have len: "length ?xs = buf_len b - pos"
    using assms by (auto simp: buf_ok_def)
  have "take (buf_len b - pos) (mem_write 0 ?xs (buf_mem b)) = ?xs"
    using take_mem_write [of 0 ?xs "buf_mem b"] len assms by (simp add: buf_ok_def)
  also have "?xs = drop pos (data b)"
    by (simp add: sub_def data_def drop_take)
  finally have d: "take (buf_len b - pos) (mem_write 0 ?xs (buf_mem b)) = drop pos (data b)" .
  have u: "u32_sub (buf_len b) pos = buf_len b - pos"
    using assms by (intro u32_sub_exact) (auto simp: buf_ok_def)
  let ?b' = "b\<lparr>buf_len := buf_len b - pos, buf_mem := mem_write 0 ?xs (buf_mem b)\<rparr>"
  have "behead b pos = Inr ?b'"
    using assms False len by (simp add: behead_def u Let_def buf_ok_def)
  moreover have "buf_ok ?b'" "data ?b' = drop pos (data b)"
    using assms len d by (simp_all add: buf_ok_def data_def)
  ultimately show ?thesis by simp
qed (simp add: behead_def assms)

lemma erase_data:
  assumes "buf_ok b" and "pos + n \<le> buf_len b"
  shows "\<exists>b'. erase b pos n = Inr b' \<and> buf_ok b' \<and> data b' = take pos (data b) @ drop (pos + n) (data b)
    \<and> buf_cap b' = buf_cap b"
proof -
  let ?xs = "sub (pos + n) (buf_len b - (pos + n)) (buf_mem b)"
  have u: "u32_add pos n = pos + n" and v: "u32_sub (buf_len b) n = buf_len b - n"
    and w: "u32_sub (buf_len b) (pos + n) = buf_len b - (pos + n)"
    using assms by (auto simp: buf_ok_def intro!: u32_add_exact u32_sub_exact)
  have len: "length ?xs = buf_len b - (pos + n)"
    using assms by (auto simp: buf_ok_def)
  let ?b' = "b\<lparr>buf_mem := mem_write pos ?xs (buf_mem b), buf_len := buf_len b - n\<rparr>"
  have room: "pos + length ?xs \<le> length (buf_mem b)" and total: "pos + length ?xs = buf_len b - n"
    using assms by (auto simp: len buf_ok_def simp del: length_sub)
  have "erase b pos n = Inr ?b'"
    using assms room by (simp add: erase_def Let_def u v w len buf_ok_def del: length_sub)
  moreover have "buf_ok ?b'"
    using assms room by (auto simp: buf_ok_def simp del: length_sub)
  moreover have "data ?b' = take pos (buf_mem b) @ ?xs"
    using take_mem_write [OF room] by (simp add: data_def total del: length_sub)
  moreover have "take pos (buf_mem b) = take pos (data b)"
    using assms by (simp add: data_def min_absorb1)
  moreover have "?xs = drop (pos + n) (data b)"
    by (simp add: sub_def data_def drop_take)
  ultimately show ?thesis by auto
qed

section \<open>Memory safety\<close>

text \<open>
  Every operation, with its arguments; the reading ones leave the buffer as it is. \<open>no_wrap\<close> says
  that the sum which the bounds check of the operation computes in \<^verbatim>\<open>unsigned int\<close> does not wrap, and
  that a buffer passed as the argument is well formed.
\<close>

datatype buf_op =
    OpAssign buffer | OpCopyFrom bytes | OpGet nat | OpPut nat byte | OpField nat nat
  | OpSetAt8 nat byte | OpSetAt16 nat u16 | OpSetAt32 nat u32 | OpSetAt64 nat u64
  | OpAt8 nat | OpAt16 nat | OpAt32 nat | OpAt64 nat
  | OpAppend8 byte | OpAppend16 u16 | OpAppend32 u32 | OpAppend64 u64
  | OpAppendRun byte nat | OpAppendBytes bytes | OpAppendBuffer buffer | OpAppendCString bytes
  | OpAppendField nat | OpAddSize nat | OpSetSize nat | OpBehead nat | OpErase nat nat
  | OpClear | OpZero | OpZeroUnused | OpBurn

fun no_wrap :: "buf_op \<Rightarrow> buffer \<Rightarrow> bool" where
  "no_wrap (OpAssign src) b = buf_ok src"
| "no_wrap (OpField i l) b = (i + l < 2 ^ 32)"
| "no_wrap (OpAppendRun c n) b = (buf_len b + n < 2 ^ 32)"
| "no_wrap (OpAppendBytes xs) b = (buf_len b + length xs < 2 ^ 32)"
| "no_wrap (OpAppendBuffer src) b = (buf_ok src \<and> buf_len b + buf_len src < 2 ^ 32)"
| "no_wrap (OpAppendField n) b = (buf_len b + n < 2 ^ 32)"
| "no_wrap (OpAddSize n) b = (buf_len b + n < 2 ^ 32)"
| "no_wrap (OpErase pos n) b = (pos + n < 2 ^ 32)"
| "no_wrap _ b = True"

definition reading :: "'a res \<Rightarrow> buffer \<Rightarrow> buffer res" where
  "reading r b = ebind r (\<lambda>_. Inr b)"

fun buf_exec :: "buf_op \<Rightarrow> buffer \<Rightarrow> buffer res" where
  "buf_exec (OpAssign src) b = buf_assign b src"
| "buf_exec (OpCopyFrom xs) b = copyFrom b xs"
| "buf_exec (OpGet i) b = reading (buf_get b i) b"
| "buf_exec (OpPut i v) b = buf_put b i v"
| "buf_exec (OpField i l) b = reading (field b i l) b"
| "buf_exec (OpSetAt8 i v) b = setAt b i v"
| "buf_exec (OpSetAt16 i v) b = setAt b i v"
| "buf_exec (OpSetAt32 i v) b = setAt b i v"
| "buf_exec (OpSetAt64 i v) b = setAt b i v"
| "buf_exec (OpAt8 i) b = reading (at b i :: byte res) b"
| "buf_exec (OpAt16 i) b = reading (at b i :: u16 res) b"
| "buf_exec (OpAt32 i) b = reading (at b i :: u32 res) b"
| "buf_exec (OpAt64 i) b = reading (at b i :: u64 res) b"
| "buf_exec (OpAppend8 v) b = append_word b v"
| "buf_exec (OpAppend16 v) b = append_word b v"
| "buf_exec (OpAppend32 v) b = append_word b v"
| "buf_exec (OpAppend64 v) b = append_word b v"
| "buf_exec (OpAppendRun c n) b = append_run b c n"
| "buf_exec (OpAppendBytes xs) b = append_bytes b xs"
| "buf_exec (OpAppendBuffer src) b = append_buffer b src"
| "buf_exec (OpAppendCString s) b =
     (case appendCString b s of (None, b') \<Rightarrow> Inr b' | (Some e, _) \<Rightarrow> Inl e)"
| "buf_exec (OpAppendField n) b = ebind (appendField b n) (\<lambda>(_, b'). Inr b')"
| "buf_exec (OpAddSize n) b = addSize b n"
| "buf_exec (OpSetSize n) b = setSize b n"
| "buf_exec (OpBehead n) b = behead b n"
| "buf_exec (OpErase i n) b = erase b i n"
| "buf_exec OpClear b = Inr (clear b)"
| "buf_exec OpZero b = zero_buf b"
| "buf_exec OpZeroUnused b = zeroUnused b"
| "buf_exec OpBurn b = burn b"

text \<open>A result that is a well-formed buffer of the same capacity, or a thrown exception.\<close>

definition safe_res :: "nat \<Rightarrow> buffer res \<Rightarrow> bool" where
  "safe_res C r \<longleftrightarrow> (case r of Inl e \<Rightarrow> e = OutOfRange | Inr b \<Rightarrow> buf_ok b \<and> buf_cap b = C)"

lemma safe_append_bytes:
  "buf_ok b \<Longrightarrow> buf_len b + length xs < 2 ^ 32 \<Longrightarrow> safe_res (buf_cap b) (append_bytes b xs)"
  using append_bytes_fits [of b xs] append_bytes_full [of b xs]
  by (cases "buf_len b + length xs \<le> buf_cap b") (auto simp: safe_res_def)

lemma safe_append_word: "buf_ok b \<Longrightarrow> safe_res (buf_cap b) (append_word b (v :: 'a::len word))"
  by (auto simp: append_word_def safe_res_def buf_ok_def)

lemma append_run_loop_safe:
  "buf_ok b \<Longrightarrow> buf_len b + n \<le> buf_cap b \<Longrightarrow>
   \<exists>b'. append_run_loop n c b = Inr b' \<and> buf_ok b' \<and> buf_cap b' = buf_cap b \<and>
     data b' = data b @ replicate n c"
proof (induction n arbitrary: b)
  case (Suc n)
  let ?b = "b\<lparr>buf_mem := mem_write (buf_len b) [c] (buf_mem b), buf_len := buf_len b + 1\<rparr>"
  have u: "u32_add (buf_len b) 1 = buf_len b + 1"
    using Suc.prems by (intro u32_add_exact) (simp add: buf_ok_def)
  have room: "buf_len b + length [c] \<le> length (buf_mem b)"
    using Suc.prems by (simp add: buf_ok_def)
  have "buf_ok ?b" "data ?b = data b @ [c]"
    using Suc.prems room take_mem_write [OF room] by (auto simp: buf_ok_def data_def)
  moreover have "buf_len ?b + n \<le> buf_cap ?b" using Suc.prems by simp
  ultimately obtain b' where "append_run_loop n c ?b = Inr b'" "buf_ok b'"
    "buf_cap b' = buf_cap b" "data b' = data b @ c # replicate n c"
    using Suc.IH [of ?b] by auto
  then show ?case using u room by simp
qed simp

lemma safe_append_char: "buf_ok b \<Longrightarrow> safe_res (buf_cap b) (append_char b c)"
  by (auto simp: append_char_def safe_res_def buf_ok_def)

lemma appendCString_safe:
  "buf_ok b \<Longrightarrow> buf_ok (snd (appendCString b s)) \<and> buf_cap (snd (appendCString b s)) = buf_cap b \<and>
     fst (appendCString b s) \<in> {None, Some OutOfRange}"
proof (induction s arbitrary: b)
  case Nil
  with safe_append_char [of b 0] show ?case
    by (cases "append_char b 0") (simp_all add: safe_res_def)
next
  case (Cons c s)
  show ?case
  proof (cases "append_char b c")
    case (Inl e)
    with Cons.prems safe_append_char [of b c] show ?thesis by (simp add: safe_res_def)
  next
    case (Inr b')
    with Cons.prems safe_append_char [of b c] have "buf_ok b'" "buf_cap b' = buf_cap b"
      by (simp_all add: safe_res_def)
    with Inr Cons.IH [of b'] show ?thesis by simp
  qed
qed

lemma safe_setAt:
  "buf_ok b \<Longrightarrow> safe_res (buf_cap b) (setAt b i (v :: 'a::len word))"
  by (auto simp: setAt_def safe_res_def buf_ok_def)

lemma safe_at: "buf_ok b \<Longrightarrow> safe_res (buf_cap b) (reading (at b i :: 'a::len word res) b)"
  by (auto simp: at_def reading_def safe_res_def buf_ok_def)

lemma safe_access:
  assumes "buf_ok b"
  shows "buf_ok src \<Longrightarrow> safe_res (buf_cap b) (buf_assign b src)"
    and "safe_res (buf_cap b) (copyFrom b xs)"
    and "safe_res (buf_cap b) (reading (buf_get b i) b)"
    and "safe_res (buf_cap b) (buf_put b i v)"
    and "i + l < 2 ^ 32 \<Longrightarrow> safe_res (buf_cap b) (reading (field b i l) b)"
  using assms
  by (simp_all add: buf_assign_def copyFrom_def buf_get_def buf_put_def field_def u32_add_exact
      reading_def safe_res_def buf_ok_def)

lemma safe_sizes:
  assumes "buf_ok b"
  shows "buf_len b + n < 2 ^ 32 \<Longrightarrow> safe_res (buf_cap b) (ebind (appendField b n) (\<lambda>(_, b'). Inr b'))"
    and "buf_len b + n < 2 ^ 32 \<Longrightarrow> safe_res (buf_cap b) (addSize b n)"
    and "safe_res (buf_cap b) (setSize b n)"
    and "safe_res (buf_cap b) (Inr (clear b))"
    and "safe_res (buf_cap b) (zero_buf b)"
    and "safe_res (buf_cap b) (zeroUnused b)"
    and "safe_res (buf_cap b) (burn b)"
  using assms
  by (simp_all add: appendField_def addSize_def setSize_def clear_def zero_buf_def zeroUnused_def burn_def
      safe_res_def buf_ok_def u32_add_exact u32_sub_exact add.commute)

text \<open>
  The sum in the bounds check of \<^verbatim>\<open>field()\<close> is computed in \<^verbatim>\<open>unsigned int\<close> and wraps: an offset
  near the top of the 32-bit range with a small length passes the check and yields a pointer
  outside the array.
\<close>

lemma field_check_wraps:
  assumes "buf_ok b" and "1 \<le> buf_len b"
  shows "field b (2 ^ 32 - 1) 2 = Inl MemFault"
  using assms by (simp add: field_def peek_def u32_add_def buf_ok_def)



text \<open>
  C23. Integers survive the buffer: what \<^verbatim>\<open>append<T>\<close> stored, \<^verbatim>\<open>at<T>\<close> reads back at the offset it
  was stored at, and everything that was in the buffer before stays readable.
\<close>

theorem append_word_at:
  assumes "buf_ok b" and "sizeof TYPE('a::len word) * 8 = LENGTH('a)"
    and "append_word b (v :: 'a word) = Inr b'"
  shows "at b' (buf_len b) = Inr v \<and> data b' = data b @ be_enc (sizeof TYPE('a word)) v \<and> buf_ok b'"
proof -
  let ?n = "sizeof TYPE('a word)"
  have fits: "buf_len b + ?n \<le> buf_cap b"
    using assms(3) by (auto simp: append_word_def split: if_splits)
  with assms(1) have "buf_len b + ?n < 2 ^ 32" by (simp add: buf_ok_def)
  with assms(1,3) have "append_bytes b (be_enc ?n v) = Inr b'"
    by (simp add: append_word_eq_bytes)
  with append_bytes_fits [OF assms(1), of "be_enc ?n v"] fits
  have d: "data b' = data b @ be_enc ?n v" and ok: "buf_ok b'"
    by auto
  have len: "buf_len b' = buf_len b + ?n"
    using arg_cong [OF d, of length] assms(1) ok by simp
  have "at b' (buf_len b) = Inr (be_dec (sub (buf_len b) ?n (data b')) :: 'a word)"
    using ok len by (intro at_data) simp_all
  also have "sub (buf_len b) ?n (data b') = be_enc ?n v"
    using d assms(1) by (simp add: sub_append_right sub_def)
  finally have "at b' (buf_len b) = Inr v"
    using assms(2) by (simp add: be_dec_enc_id)
  with d ok show ?thesis by simp
qed

theorem append_word_at_witness:
  "at \<lparr>buf_cap = 4, buf_len = 3, buf_mem = [7, 0x12, 0x34, 0]\<rparr> 1 = Inr (0x1234 :: u16)"
proof -
  let ?b = "\<lparr>buf_cap = 4, buf_len = 1, buf_mem = [7, 0, 0, 0]\<rparr>"
  have ok: "buf_ok ?b"
    by (simp add: buf_ok_def)
  have sz: "sizeof TYPE(u16) * 8 = LENGTH(16)"
    by (simp add: sizeof_def)
  have ap: "append_word ?b (0x1234 :: u16)
      = Inr \<lparr>buf_cap = 4, buf_len = 3, buf_mem = [7, 0x12, 0x34, 0]\<rparr>"
  proof -
    have "be_enc 2 (0x1234 :: u16) = [0x12, 0x34]"
      by simp
    then show ?thesis by (simp add: append_word_def poke_def sizeof_def mem_write_def)
  qed
  show ?thesis
    using append_word_at [OF ok sz ap] by simp
qed

end
