(* ===== verification/ByteView.thy ===== *)
theory ByteView
  imports Buffer
begin

text \<open>
  The abstract specification of \<^verbatim>\<open>Buffer<C>\<close>: a byte string of at most \<open>C\<close> bytes. The packet
  and serialization theories are written over these operations; \<open>buffer_refines_bytes\<close> shows
  that each concrete operation of theory \<open>Buffer\<close> computes the abstract one on \<open>data\<close>, with the
  same exceptions. Offsets and lengths are far below \<open>2 ^ 32\<close> in every caller, so the abstract
  operations add without wrap-around.
\<close>

section \<open>Operations on byte strings\<close>

definition bs_get :: "bytes \<Rightarrow> nat \<Rightarrow> byte res" where
  "bs_get p i = (if i \<ge> length p then Inl OutOfRange else Inr (p ! i))"

definition bs_put :: "bytes \<Rightarrow> nat \<Rightarrow> byte \<Rightarrow> bytes res" where
  "bs_put p i v = (if i \<ge> length p then Inl OutOfRange else Inr (p[i := v]))"

definition bs_field :: "bytes \<Rightarrow> nat \<Rightarrow> nat \<Rightarrow> bytes res" where
  "bs_field p i l = (if i + l > length p then Inl OutOfRange else Inr (sub i l p))"

text \<open>\<^verbatim>\<open>memcpy(field(i,l),xs,l)\<close>.\<close>

definition bs_write :: "bytes \<Rightarrow> nat \<Rightarrow> bytes \<Rightarrow> bytes res" where
  "bs_write p i xs = (if i + length xs > length p then Inl OutOfRange else Inr (mem_write i xs p))"

definition bs_at :: "bytes \<Rightarrow> nat \<Rightarrow> 'a::len word res" where
  "bs_at p i =
     (if i + sizeof TYPE('a word) > length p then Inl OutOfRange
      else Inr (be_dec (sub i (sizeof TYPE('a word)) p)))"

definition bs_setAt :: "bytes \<Rightarrow> nat \<Rightarrow> 'a::len word \<Rightarrow> bytes res" where
  "bs_setAt p i v = bs_write p i (be_enc (sizeof TYPE('a word)) v)"

definition bs_append :: "nat \<Rightarrow> bytes \<Rightarrow> bytes \<Rightarrow> bytes res" where
  "bs_append C p xs = (if length p + length xs > C then Inl OutOfRange else Inr (p @ xs))"

definition bs_copy :: "nat \<Rightarrow> bytes \<Rightarrow> bytes res" where
  "bs_copy C xs = (if length xs > C then Inl OutOfRange else Inr xs)"

section \<open>Refinement\<close>

abbreviation data_res :: "buffer res \<Rightarrow> bytes res" where
  "data_res \<equiv> map_sum id data"

lemma sizeof_simps [simp]:
  "sizeof TYPE(8 word) = 1" "sizeof TYPE(16 word) = 2" "sizeof TYPE(32 word) = 4"
  "sizeof TYPE(64 word) = 8"
  by (simp_all add: sizeof_def)

lemma data_nth: "buf_ok b \<Longrightarrow> i < buf_len b \<Longrightarrow> data b ! i = buf_mem b ! i"
  by (simp add: data_def)

lemma data_mem_write:
  assumes "buf_ok b" and "i + length xs \<le> buf_len b"
  shows "data (b\<lparr>buf_mem := mem_write i xs (buf_mem b)\<rparr>) = mem_write i xs (data b)"
proof -
  have "i + length xs \<le> length (buf_mem b)" "min (buf_len b) i = i"
    using assms by (auto simp: buf_ok_def)
  with assms show ?thesis
    by (auto simp: buf_ok_def data_def mem_write_def min_absorb1 drop_take add.commute)
qed

lemma mem_write_single: "i < length m \<Longrightarrow> mem_write i [v] m = m[i := v]"
  by (simp add: mem_write_def upd_conv_take_nth_drop)

lemma view_get: "buf_ok b \<Longrightarrow> buf_get b i = bs_get (data b) i"
  by (simp add: buf_get_def bs_get_def data_nth not_le buf_ok_def sub_def hd_drop_conv_nth)

lemma view_put: "buf_ok b \<Longrightarrow> data_res (buf_put b i v) = bs_put (data b) i v"
  by (simp add: buf_put_def bs_put_def data_def buf_ok_def mem_write_single take_update_swap)

lemma view_field: "buf_ok b \<Longrightarrow> i + l < 2 ^ 32 \<Longrightarrow> field b i l = bs_field (data b) i l"
  by (auto simp: field_data bs_field_def)

lemma view_at: "buf_ok b \<Longrightarrow> (at b i :: 'a::len word res) = bs_at (data b) i"
proof (cases "i + sizeof TYPE('a word) \<le> buf_len b")
  case True
  moreover assume "buf_ok b"
  ultimately show ?thesis by (simp add: at_data bs_at_def)
qed (simp add: at_def bs_at_def)

lemma view_setAt:
  assumes ok: "buf_ok b"
  shows "data_res (setAt b i (v :: 'a::len word)) = bs_setAt (data b) i v"
proof (cases "i + sizeof TYPE('a word) \<le> buf_len b")
  case True
  with ok have "setAt b i v = Inr (b\<lparr>buf_mem := mem_write i (be_enc (sizeof TYPE('a word)) v) (buf_mem b)\<rparr>)"
    by (simp add: setAt_def poke_def buf_ok_def)
  with True ok show ?thesis
    by (simp add: bs_setAt_def bs_write_def data_mem_write)
qed (use ok in \<open>simp add: setAt_def bs_setAt_def bs_write_def\<close>)

lemma view_append:
  assumes ok: "buf_ok b" and "buf_len b + length xs < 2 ^ 32"
  shows "data_res (append_bytes b xs) = bs_append (buf_cap b) (data b) xs"
proof (cases "buf_len b + length xs \<le> buf_cap b")
  case True
  with append_bytes_fits [OF ok] obtain b' where "append_bytes b xs = Inr b'" "data b' = data b @ xs"
    by blast
  with True ok show ?thesis by (simp add: bs_append_def)
next
  case False
  with assms show ?thesis by (simp add: append_bytes_full bs_append_def)
qed

lemma view_copy: "buf_ok b \<Longrightarrow> data_res (copyFrom b xs) = bs_copy (buf_cap b) xs"
  by (auto simp: copyFrom_def bs_copy_def data_def buf_ok_def mem_write_def)

lemma view_append_word:
  assumes ok: "buf_ok b"
  shows "data_res (append_word b (v :: 'a::len word)) = bs_append (buf_cap b) (data b) (be_enc (sizeof TYPE('a word)) v)"
proof (cases "buf_len b + sizeof TYPE('a word) \<le> buf_cap b")
  case True
  with ok have "buf_len b + sizeof TYPE('a word) < 2 ^ 32" by (simp add: buf_ok_def)
  with ok show ?thesis by (simp add: append_word_eq_bytes view_append)
next
  case False
  with ok show ?thesis by (simp add: append_word_def bs_append_def)
qed

lemma view_append_run:
  assumes "buf_ok b" and "buf_len b + n < 2 ^ 32"
  shows "data_res (append_run b c n) = bs_append (buf_cap b) (data b) (replicate n c)"
  using assms append_run_loop_safe [of b n c]
  by (cases "buf_len b + n \<le> buf_cap b") (auto simp: append_run_def bs_append_def u32_add_exact)

lemma view_behead:
  assumes "buf_ok b"
  shows "data_res (behead b i) = (if i \<le> length (data b) then Inr (drop i (data b)) else Inl OutOfRange)"
  using assms behead_data [of b i] by (cases "i \<le> buf_len b") (auto simp: behead_def)

lemma view_erase:
  assumes "buf_ok b" and "i + l < 2 ^ 32"
  shows "data_res (erase b i l) = (if i + l \<le> length (data b)
    then Inr (take i (data b) @ drop (i + l) (data b)) else Inl OutOfRange)"
  using assms erase_data [of b i l]
  by (cases "i + l \<le> buf_len b") (auto simp: erase_def Let_def u32_add_exact)

lemmas view_simps = view_append_word view_append_run view_behead view_erase view_get view_put view_field view_at view_setAt view_append view_copy

text \<open>
  C24. Refinement of the byte buffer: on a well-formed buffer, reading (\<^verbatim>\<open>operator[]\<close>, \<^verbatim>\<open>field\<close>,
  \<^verbatim>\<open>at<T>\<close>), writing in place (\<^verbatim>\<open>operator[]\<close>, \<^verbatim>\<open>setAt<T>\<close>), appending (bytes, integers, a run
  of equal bytes), replacing (\<^verbatim>\<open>copyFrom\<close>) and cutting (\<^verbatim>\<open>behead\<close>, \<^verbatim>\<open>erase\<close>) through the array
  with its stale tail compute, on the visible bytes, exactly the byte-string operation, exceptions
  included. The sums that the code computes in 32 bits, offset plus length for \<^verbatim>\<open>field\<close> and
  \<^verbatim>\<open>erase\<close> and size plus length for the appending operations, must not wrap. The operations that
  uncover stale bytes (\<^verbatim>\<open>setSize\<close>, \<^verbatim>\<open>addSize\<close>, \<^verbatim>\<open>appendField\<close>) are no byte-string operations.
\<close>

theorem buffer_refines_bytes:
  assumes ok: "buf_ok b" and small: "i + l < 2 ^ 32" "buf_len b + length xs < 2 ^ 32"
    "buf_len b + n < 2 ^ 32"
  shows "buf_get b i = bs_get (data b) i
    \<and> data_res (buf_put b i v) = bs_put (data b) i v
    \<and> field b i l = bs_field (data b) i l
    \<and> at b i = (bs_at (data b) i :: 'a::len word res)
    \<and> data_res (setAt b i (w :: 'a word)) = bs_setAt (data b) i w
    \<and> data_res (append_bytes b xs) = bs_append (buf_cap b) (data b) xs
    \<and> data_res (append_word b w) = bs_append (buf_cap b) (data b) (be_enc (sizeof TYPE('a word)) w)
    \<and> data_res (append_run b v n) = bs_append (buf_cap b) (data b) (replicate n v)
    \<and> data_res (copyFrom b xs) = bs_copy (buf_cap b) xs
    \<and> data_res (behead b i) = (if i \<le> length (data b) then Inr (drop i (data b)) else Inl OutOfRange)
    \<and> data_res (erase b i l) = (if i + l \<le> length (data b)
        then Inr (take i (data b) @ drop (i + l) (data b)) else Inl OutOfRange)"
  using assms by (simp only: view_simps simp_thms)

theorem buffer_refines_bytes_witness:
  "data_res (append_bytes \<lparr>buf_cap = 4, buf_len = 1, buf_mem = [7, 8, 9, 10]\<rparr> [1, 2])
    = bs_append 4 [7] [1, 2]
   \<and> data_res (setAt \<lparr>buf_cap = 4, buf_len = 2, buf_mem = [7, 8, 9, 10]\<rparr> 0 (0x0102 :: u16))
    = bs_setAt [7, 8] 0 (0x0102 :: u16)
   \<and> data_res (erase \<lparr>buf_cap = 4, buf_len = 2, buf_mem = [7, 8, 9, 10]\<rparr> 0 1) = Inr [8]"
  using buffer_refines_bytes [of "\<lparr>buf_cap = 4, buf_len = 1, buf_mem = [7, 8, 9, 10]\<rparr>" 0 0 "[1, 2]"
      0 0 "0 :: u16"]
    buffer_refines_bytes [of "\<lparr>buf_cap = 4, buf_len = 2, buf_mem = [7, 8, 9, 10]\<rparr>" 0 1 "[]"
      0 0 "0x0102 :: u16"]
  by (simp add: buf_ok_def data_def)

section \<open>Reading and writing the same place\<close>

lemma bs_field_write_same:
  "bs_write p i xs = Inr q \<Longrightarrow> bs_field q i (length xs) = Inr xs"
  by (auto simp: bs_write_def bs_field_def mem_simps split: if_splits)

lemma length_bs_write: "bs_write p i xs = Inr q \<Longrightarrow> length q = length p"
  by (auto simp: bs_write_def split: if_splits)

lemma bs_get_ok [simp]: "i < length p \<Longrightarrow> bs_get p i = Inr (p ! i)"
  by (simp add: bs_get_def)

lemma bs_put_ok [simp]: "i < length p \<Longrightarrow> bs_put p i v = Inr (p[i := v])"
  by (simp add: bs_put_def)

lemma bs_field_ok: "i + l \<le> length p \<Longrightarrow> bs_field p i l = Inr (sub i l p)"
  by (simp add: bs_field_def)

lemma bs_append_ok: "length p + length xs \<le> C \<Longrightarrow> bs_append C p xs = Inr (p @ xs)"
  by (simp add: bs_append_def)

end
