(* ===== verification/Utils.thy ===== *)
theory Utils
  imports ByteView
begin

text \<open>
  The helper functions of \<^verbatim>\<open>zto/node/Utils.hpp\<close> and \<^verbatim>\<open>Utils.cpp\<close>: constant-time comparison,
  hexadecimal conversion, bounded C string copy, bit counting and version comparison. A C string
  is the block of memory behind its pointer; reading past the block is \<open>MemFault\<close>.
\<close>

section \<open>Definitions\<close>

definition secureEq :: "bytes \<Rightarrow> bytes \<Rightarrow> nat \<Rightarrow> bool" where
  "secureEq a b len = (fold (\<lambda>i diff. diff OR (a ! i XOR b ! i)) [0..<len] (0 :: byte) = 0)"

definition HEXCHARS :: bytes where
  "HEXCHARS = [48, 49, 50, 51, 52, 53, 54, 55, 56, 57, 97, 98, 99, 100, 101, 102]"

fun hex :: "bytes \<Rightarrow> bytes" where
  "hex [] = []"
| "hex (d # ds) =
     HEXCHARS ! unat (drop_bit 4 (d AND 0xf0)) # HEXCHARS ! unat (d AND 0x0f) # hex ds"

text \<open>The three character ranges that both versions of \<^verbatim>\<open>unhex\<close> test, in their order.\<close>

definition nibble :: "byte \<Rightarrow> byte option" where
  "nibble c =
     (if c \<ge> 48 \<and> c \<le> 57 then Some (c - 48)
      else if c \<ge> 65 \<and> c \<le> 70 then Some (c - (65 - 10))
      else if c \<ge> 97 \<and> c \<le> 102 then Some (c - (97 - 10))
      else None)"

text \<open>
  The loop of \<^verbatim>\<open>unhex(hex,maxlen)\<close>: \<open>n\<close> is the flag toggled by \<^verbatim>\<open>n ^= 1\<close>, \<open>b\<close> the pending
  high nibble, \<open>k\<close> the distance to \<^verbatim>\<open>eof\<close>, \<open>r\<close> the string built so far.
\<close>

fun unhex_loop :: "bool \<Rightarrow> byte \<Rightarrow> nat \<Rightarrow> bytes \<Rightarrow> bytes \<Rightarrow> bytes res" where
  "unhex_loop n b k [] r = Inl MemFault"
| "unhex_loop n b k (c # s) r =
     (if c = 0 then Inr r
      else (let (n', b', r') =
                  (case nibble c of
                     None \<Rightarrow> (n, b, r)
                   | Some v \<Rightarrow> if \<not> n then (True, b, r @ [b OR v]) else (False, push_bit 4 v, r))
            in if k = 1 then Inr r' else unhex_loop n' b' (k - 1) s r'))"

definition unhex :: "bytes \<Rightarrow> nat \<Rightarrow> bytes res" where
  "unhex s maxlen = (if maxlen = 0 then Inr [] else unhex_loop True 0 maxlen s [])"

text \<open>The loop of \<^verbatim>\<open>unhex(hex,maxlen,buf,len)\<close>; the result is the count and the filled buffer.\<close>

fun unhex_buf_loop :: "bool \<Rightarrow> byte \<Rightarrow> nat \<Rightarrow> bytes \<Rightarrow> nat \<Rightarrow> nat \<Rightarrow> bytes \<Rightarrow> (nat \<times> bytes) res" where
  "unhex_buf_loop n b k [] l len buf = Inl MemFault"
| "unhex_buf_loop n b k (c # s) l len buf =
     (if c = 0 then Inr (l, buf)
      else (case nibble c of
              None \<Rightarrow> if k = 1 then Inr (l, buf) else unhex_buf_loop n b (k - 1) s l len buf
            | Some v \<Rightarrow>
                if \<not> n then
                  (if l \<ge> len then Inr (l, buf)
                   else if l \<ge> length buf then Inl MemFault
                   else if k = 1 then Inr (l + 1, buf[l := b OR v])
                   else unhex_buf_loop True b (k - 1) s (l + 1) len (buf[l := b OR v]))
                else if k = 1 then Inr (l, buf)
                else unhex_buf_loop False (push_bit 4 v) (k - 1) s l len buf))"

definition unhex_buf :: "bytes \<Rightarrow> nat \<Rightarrow> bytes \<Rightarrow> nat \<Rightarrow> (nat \<times> bytes) res" where
  "unhex_buf s maxlen buf len =
     (if maxlen = 0 then Inr (0, buf) else unhex_buf_loop True 0 maxlen s 0 len buf)"

fun scopy_loop :: "nat \<Rightarrow> nat \<Rightarrow> bytes \<Rightarrow> bytes \<Rightarrow> (bool \<times> bytes) res" where
  "scopy_loop i len dest [] = Inl MemFault"
| "scopy_loop i len dest (c # src) =
     (if i \<ge> length dest then Inl MemFault
      else if c = 0 then Inr (True, dest[i := c])
      else if i + 1 = len then Inr (False, dest[i := 0])
      else scopy_loop (i + 1) len (dest[i := c]) src)"

definition scopy :: "bytes \<Rightarrow> nat \<Rightarrow> bytes option \<Rightarrow> (bool \<times> bytes) res" where
  "scopy dest len src =
     (if len = 0 then Inr (False, dest)
      else case src of
        None \<Rightarrow> (if dest = [] then Inl MemFault else Inr (True, dest[0 := 0]))
      | Some s \<Rightarrow> scopy_loop 0 len dest s)"

definition countBits :: "u32 \<Rightarrow> u32" where
  "countBits v =
     (let v = v - (drop_bit 1 v AND 0x55555555);
          v = (v AND 0x33333333) + (drop_bit 2 v AND 0x33333333)
      in drop_bit 24 (((v + drop_bit 4 v) AND 0xF0F0F0F) * 0x1010101))"

fun isZero :: "bytes \<Rightarrow> bool" where
  "isZero [] = True"
| "isZero (p # ps) = (if p \<noteq> 0 then False else isZero ps)"

definition compareVersion ::
  "nat \<Rightarrow> nat \<Rightarrow> nat \<Rightarrow> nat \<Rightarrow> nat \<Rightarrow> nat \<Rightarrow> nat \<Rightarrow> nat \<Rightarrow> int" where
  "compareVersion maj1 min1 rev1 b1 maj2 min2 rev2 b2 =
     (if maj1 > maj2 then 1
      else if maj1 < maj2 then -1
      else if min1 > min2 then 1
      else if min1 < min2 then -1
      else if rev1 > rev2 then 1
      else if rev1 < rev2 then -1
      else if b1 > b2 then 1
      else if b1 < b2 then -1
      else 0)"

section \<open>Constant-time comparison\<close>

lemma fold_or_zero:
  "fold (\<lambda>i diff. diff OR f i) is (d :: byte) = 0 \<longleftrightarrow> d = 0 \<and> (\<forall>i\<in>set is. f i = 0)"
  by (induction "is" arbitrary: d) (auto simp: or_eq_0_iff)

lemma xor_eq_0_iff: "x XOR y = 0 \<longleftrightarrow> x = (y :: 'a::len word)"
proof
  assume "x XOR y = 0"
  then have "(x XOR y) XOR y = 0 XOR y" by simp
  then show "x = y" by (simp add: xor.assoc)
qed simp

lemma secureEq_iff:
  assumes "len \<le> length a" and "len \<le> length b"
  shows "secureEq a b len \<longleftrightarrow> take len a = take len b"
  using assms by (auto simp: secureEq_def fold_or_zero xor_eq_0_iff list_eq_iff_nth_eq)

section \<open>Hexadecimal\<close>

lemma nibble_HEXCHARS:
  assumes "i < 16"
  shows "nibble (HEXCHARS ! i) = Some (of_nat i) \<and> HEXCHARS ! i \<noteq> 0"
proof -
  have "list_all (\<lambda>i. nibble (HEXCHARS ! i) = Some (of_nat i) \<and> HEXCHARS ! i \<noteq> 0) [0..<16]"
    by code_simp
  with assms show ?thesis by (simp add: list_all_iff)
qed

lemma byte_hi_nibble: "drop_bit 4 (d AND 0xf0) = (drop_bit 4 d :: byte)"
proof (rule bit_word_eqI)
  fix n assume "n < LENGTH(8)"
  have m: "(0xf :: byte) = mask 4" by (simp add: mask_eq_exp_minus_1)
  have "bit d (4 + n) \<Longrightarrow> n < 4" using bit_imp_le_length [of d "4 + n"] by simp
  then show "bit (drop_bit 4 (d AND 0xf0)) n = bit (drop_bit 4 d) n"
    by (auto simp: bit_simps m)
qed

lemma byte_lo_nibble: "d AND 0x0f = (take_bit 4 d :: byte)"
  by (simp add: take_bit_eq_mask mask_eq_exp_minus_1)

lemma byte_halves: "push_bit 4 (drop_bit 4 d) OR take_bit 4 d = (d :: byte)"
  by (auto intro!: bit_word_eqI simp: bit_simps)

lemma unat_hi_less: "unat (drop_bit 4 d :: byte) < 16"
proof -
  have "unat d < 2 ^ 8" using unsigned_less [of d] by simp
  then have "unat d div 16 < 16" by simp
  then show ?thesis by (simp add: drop_bit_eq_div unat_div)
qed

lemma unat_lo_less: "unat (take_bit 4 d :: byte) < 16"
  using take_bit_nat_less_exp [of 4 "unat d"] by (simp add: unsigned_take_bit_eq)

lemma hex_Cons:
  "hex (d # ds) = HEXCHARS ! unat (drop_bit 4 d) # HEXCHARS ! unat (take_bit 4 d) # hex ds"
  by (simp only: hex.simps byte_hi_nibble byte_lo_nibble)

lemma length_hex [simp]: "length (hex ds) = 2 * length ds"
  by (induction ds) auto

lemmas nibble_hi = nibble_HEXCHARS [OF unat_hi_less, simplified]
lemmas nibble_lo = nibble_HEXCHARS [OF unat_lo_less, simplified]

lemma unhex_loop_hex:
  assumes "2 * length ds \<le> k" and "0 < length ds"
  shows "unhex_loop True b k (hex ds @ 0 # rest) r = Inr (r @ ds)"
  using assms
proof (induction ds arbitrary: b k r)
  case (Cons d ds)
  have k: "k \<noteq> 1" "k - Suc 0 = 1 \<longleftrightarrow> k = 2" "k \<noteq> 0" "2 * length ds \<le> k - 2"
    using Cons.prems by auto
  show ?case
  proof (cases "k = 2")
    case True
    then have "ds = []" using Cons.prems by simp
    with True show ?thesis
      by (simp add: hex_Cons nibble_hi nibble_lo byte_halves del: hex.simps(2))
  next
    case False
    show ?thesis
    proof (cases "ds = []")
      case True
      with k False show ?thesis
        by (simp add: hex_Cons nibble_hi nibble_lo byte_halves del: hex.simps(2))
    next
      case False
      with Cons.IH [of "k - 2" "push_bit 4 (drop_bit 4 d)" "r @ [d]"] k \<open>k \<noteq> 2\<close> show ?thesis
        by (simp add: hex_Cons nibble_hi nibble_lo byte_halves numeral_2_eq_2 del: hex.simps(2))
    qed
  qed
qed simp

text \<open>
  C37. Hexadecimal round trip: decoding the text that \<^verbatim>\<open>hex\<close> produces, terminated or bounded by
  its length, gives the original bytes.
\<close>

theorem unhex_hex:
  assumes "2 * length ds \<le> maxlen"
  shows "unhex (hex ds @ 0 # rest) maxlen = Inr ds"
proof (cases "ds = []")
  case False
  then have "0 < length ds" by simp
  with assms have "maxlen \<noteq> 0" by linarith
  with \<open>0 < length ds\<close> assms unhex_loop_hex [of ds maxlen 0 rest "[]"] show ?thesis by (simp add: unhex_def)
qed (simp add: unhex_def)

theorem unhex_hex_witness:
  "unhex (hex [0xde, 0xad] @ 0 # [7]) 4 = Inr [0xde, 0xad]"
  using unhex_hex [of "[0xde, 0xad]" 4 "[7]"] by simp

lemma unhex_loop_prefix:
  "unhex_loop n b k s r = Inr R \<Longrightarrow> take (length r) R = r \<and> length r \<le> length R"
proof (induction n b k s r rule: unhex_loop.induct)
  case (2 n b k c s r)
  show ?case
  proof (cases "c = 0")
    case False
    define t where "t = (case nibble c of
                     None \<Rightarrow> (n, b, r)
                   | Some v \<Rightarrow> if \<not> n then (True, b, r @ [b OR v]) else (False, push_bit 4 v, r))"
    obtain n' b' r' where t: "t = (n', b', r')" by (cases t)
    have r': "take (length r) r' = r" "length r \<le> length r'"
      using t by (auto simp: t_def split: option.splits if_splits)
    show ?thesis
    proof (cases "k = 1")
      case True
      with 2 False t r' show ?thesis by (simp add: t_def)
    next
      case k: False
      with 2 False t have "take (length r') R = r'" "length r' \<le> length R"
        by (simp_all add: t_def)
      then have "take (length r) R = take (length r) r'"
        using r' by (metis min.absorb1 take_take)
      with r' \<open>length r' \<le> length R\<close> show ?thesis by simp
    qed
  qed (use 2 in simp)
qed simp

lemma mem_write_snoc:
  "length r < length buf \<Longrightarrow> (mem_write 0 r buf)[length r := v] = mem_write 0 (r @ [v]) buf"
  by (simp add: mem_write_def list_update_append Cons_nth_drop_Suc [symmetric])

lemma unhex_buf_loop_eq:
  assumes "unhex_loop n b k s r = Inr R" and "length r \<le> len" and "len \<le> length buf"
  shows "unhex_buf_loop n b k s (length r) len (mem_write 0 r buf)
    = Inr (min len (length R), mem_write 0 (take len R) buf)"
  using assms
proof (induction s arbitrary: n b k r)
  case (Cons c s)
  note pre = unhex_loop_prefix [OF Cons.prems(1)]
  show ?case
  proof (cases "c = 0 \<or> nibble c = None \<or> n")
    case True
    with Cons show ?thesis by (auto split: option.splits if_splits simp: min_def)
  next
    case False
    then obtain v where v: "nibble c = Some v" "\<not> n" "c \<noteq> 0" by auto
    show ?thesis
    proof (cases "len \<le> length r")
      case True
      with Cons.prems pre v show ?thesis by (auto simp: min_def)
    next
      case l: False
      with Cons.prems have "length r < length buf" by simp
      with Cons.prems Cons.IH [of True b "k - 1" "r @ [b OR v]"] l v show ?thesis
        by (auto simp: mem_write_snoc split: if_splits)
    qed
  qed
qed simp

text \<open>
  C38. The buffer version of \<^verbatim>\<open>unhex\<close> writes the first \<open>len\<close> bytes of what the string version
  returns, leaves the rest of the buffer alone, and reports how many it wrote.
\<close>

theorem unhex_buf_eq_unhex:
  assumes "unhex s maxlen = Inr r" and "len \<le> length buf"
  shows "unhex_buf s maxlen buf len = Inr (min len (length r), mem_write 0 (take len r) buf)"
  using assms unhex_buf_loop_eq [of True 0 maxlen s "[]" r len buf]
  by (auto simp: unhex_def unhex_buf_def)

theorem unhex_buf_eq_unhex_witness:
  "unhex_buf (hex [1, 2, 3] @ [0]) 6 [9, 9, 9, 9] 2 = Inr (2, [1, 2, 9, 9])"
proof -
  have "unhex (hex [1, 2, 3] @ [0]) 6 = Inr [1, 2, 3]" by code_simp
  from unhex_buf_eq_unhex [OF this, of 2 "[9, 9, 9, 9]"] show ?thesis
    by (simp add: mem_write_def)
qed

section \<open>Bounded string copy\<close>

lemma scopy_loop_spec:
  assumes "0 \<notin> set s" and "length r < len" and "len \<le> length dest"
  shows "scopy_loop (length r) len (mem_write 0 r dest) (s @ 0 # rest)
    = Inr (length r + length s < len, mem_write 0 (take (len - 1) (r @ s) @ [0]) dest)"
  using assms
proof (induction s arbitrary: r)
  case Nil
  then show ?case by (simp add: mem_write_snoc min_def)
next
  case (Cons c s)
  show ?case
  proof (cases "length r + 1 = len")
    case True
    then have "len - 1 = length r" by simp
    with Cons True show ?thesis by (simp add: mem_write_snoc)
  next
    case False
    with Cons Cons.IH [of "r @ [c]"] show ?thesis by (simp add: mem_write_snoc)
  qed
qed

text \<open>
  C39. \<^verbatim>\<open>scopy\<close> always terminates the destination: for every C string \<open>s\<close> it stores the longest
  prefix that fits with its zero byte, touches nothing behind it, stays inside the \<open>len\<close> bytes it
  was given, and returns true exactly when the whole string fitted.
\<close>

theorem scopy_spec:
  assumes "0 < len" and "len \<le> length dest" and "0 \<notin> set s"
  shows "scopy dest len (Some (s @ 0 # rest))
    = Inr (length s < len, mem_write 0 (take (len - 1) s @ [0]) dest)"
  using assms scopy_loop_spec [of s "[]" len dest rest] by (simp add: scopy_def)

theorem scopy_spec_witness:
  "scopy [9, 9, 9, 9] 3 (Some [5, 6, 7, 0]) = Inr (False, [5, 6, 0, 9])"
  using scopy_spec [of 3 "[9, 9, 9, 9]" "[5, 6, 7]" "[]"] by (simp add: mem_write_def)

section \<open>Bits, zero blocks, versions\<close>

lemma countBits_small:
  assumes "v < 16"
  shows "countBits v = of_nat (length (filter (bit v) [0..<4]))"
proof -
  have "list_all (\<lambda>i. countBits (of_nat i) = of_nat (length (filter (bit (of_nat i :: u32)) [0..<4]))) [0..<16]"
    by code_simp
  moreover have "unat v < 16" using assms by (simp add: word_less_nat_alt)
  ultimately have "countBits (of_nat (unat v)) = of_nat (length (filter (bit (of_nat (unat v) :: u32)) [0..<4]))"
    unfolding list_all_iff by (elim ballE [where x = "unat v"]) (simp_all only: atLeastLessThan_iff set_upt le0 not_True_eq_False simp_thms)
  then show ?thesis by simp
qed

lemma isZero_iff: "isZero ps \<longleftrightarrow> ps = replicate (length ps) 0"
  by (induction ps) auto

lemma compareVersion_antisym:
  "compareVersion a2 b2 c2 d2 a1 b1 c1 d1 = - compareVersion a1 b1 c1 d1 a2 b2 c2 d2"
  by (simp add: compareVersion_def)

lemma compareVersion_trans:
  "compareVersion a1 b1 c1 d1 a2 b2 c2 d2 \<le> 0 \<Longrightarrow> compareVersion a2 b2 c2 d2 a3 b3 c3 d3 \<le> 0 \<Longrightarrow>
   compareVersion a1 b1 c1 d1 a3 b3 c3 d3 \<le> 0"
  by (auto simp: compareVersion_def split: if_splits)

end
