(* ===== verification/Addressing.thy ===== *)
theory Addressing
  imports Utils
begin

text \<open>
  Node addresses (\<^verbatim>\<open>zto/node/Address.hpp\<close>), Ethernet addresses (\<^verbatim>\<open>MAC.hpp\<close>) and multicast
  groups (\<^verbatim>\<open>MulticastGroup.hpp\<close>). An \<^verbatim>\<open>Address\<close> and a \<^verbatim>\<open>MAC\<close> are the 64-bit integers the
  classes hold, of which 40 and 48 bits are used.
\<close>

type_synonym address = u64
type_synonym mac = u64

section \<open>Address\<close>

definition Address_of :: "u64 \<Rightarrow> address" where
  "Address_of a = a AND 0xffffffffff"

definition Address_setTo :: "bytes \<Rightarrow> address" where
  "Address_setTo b =
     (if length b < 5 then 0
      else push_bit 32 (ucast (b ! 0)) OR push_bit 24 (ucast (b ! 1)) OR
           push_bit 16 (ucast (b ! 2)) OR push_bit 8 (ucast (b ! 3)) OR ucast (b ! 4))"

text \<open>The five bytes that \<^verbatim>\<open>copyTo\<close> and \<^verbatim>\<open>appendTo\<close> store.\<close>

definition Address_bytes :: "address \<Rightarrow> bytes" where
  "Address_bytes a =
     [ucast (drop_bit 32 a AND 0xff), ucast (drop_bit 24 a AND 0xff), ucast (drop_bit 16 a AND 0xff),
      ucast (drop_bit 8 a AND 0xff), ucast (a AND 0xff)]"

definition Address_copyTo :: "address \<Rightarrow> bytes \<Rightarrow> bytes" where
  "Address_copyTo a buf = (if length buf < 5 then buf else mem_write 0 (Address_bytes a) buf)"

definition Address_appendTo :: "address \<Rightarrow> nat \<Rightarrow> bytes \<Rightarrow> bytes res" where
  "Address_appendTo a C b = bs_append C b (Address_bytes a)"

definition Address_isReserved :: "address \<Rightarrow> bool" where
  "Address_isReserved a \<longleftrightarrow> a = 0 \<or> drop_bit 32 a = 0xff"

definition Address_nth :: "address \<Rightarrow> nat \<Rightarrow> byte" where
  "Address_nth a i = ucast (drop_bit (32 - i * 8) a AND 0xff)"

section \<open>MAC\<close>

definition MAC_of :: "u64 \<Rightarrow> mac" where
  "MAC_of m = m AND 0xffffffffffff"

definition MAC_of_bytes :: "byte \<Rightarrow> byte \<Rightarrow> byte \<Rightarrow> byte \<Rightarrow> byte \<Rightarrow> byte \<Rightarrow> mac" where
  "MAC_of_bytes a b c d e f =
     push_bit 40 (ucast a AND 0xff) OR push_bit 32 (ucast b AND 0xff) OR
     push_bit 24 (ucast c AND 0xff) OR push_bit 16 (ucast d AND 0xff) OR
     push_bit 8 (ucast e AND 0xff) OR (ucast f AND 0xff)"

definition MAC_setTo :: "bytes \<Rightarrow> mac" where
  "MAC_setTo b =
     (if length b < 6 then 0
      else push_bit 40 (ucast (b ! 0) AND 0xff) OR push_bit 32 (ucast (b ! 1) AND 0xff) OR
           push_bit 24 (ucast (b ! 2) AND 0xff) OR push_bit 16 (ucast (b ! 3) AND 0xff) OR
           push_bit 8 (ucast (b ! 4) AND 0xff) OR (ucast (b ! 5) AND 0xff))"

definition MAC_bytes :: "mac \<Rightarrow> bytes" where
  "MAC_bytes m =
     [ucast (drop_bit 40 m AND 0xff), ucast (drop_bit 32 m AND 0xff), ucast (drop_bit 24 m AND 0xff),
      ucast (drop_bit 16 m AND 0xff), ucast (drop_bit 8 m AND 0xff), ucast (m AND 0xff)]"

definition MAC_copyTo :: "mac \<Rightarrow> bytes \<Rightarrow> bytes" where
  "MAC_copyTo m buf = (if length buf < 6 then buf else mem_write 0 (MAC_bytes m) buf)"

definition MAC_appendTo :: "mac \<Rightarrow> nat \<Rightarrow> bytes \<Rightarrow> bytes res" where
  "MAC_appendTo m C b = bs_append C b (MAC_bytes m)"

definition isBroadcast :: "mac \<Rightarrow> bool" where
  "isBroadcast m \<longleftrightarrow> m = 0xffffffffffff"

definition isMulticast :: "mac \<Rightarrow> bool" where
  "isMulticast m \<longleftrightarrow> m AND 0x010000000000 \<noteq> 0"

definition isLocallyAdministered :: "mac \<Rightarrow> bool" where
  "isLocallyAdministered m \<longleftrightarrow> m AND 0x020000000000 \<noteq> 0"

definition firstOctetForNetwork :: "u64 \<Rightarrow> byte" where
  "firstOctetForNetwork nwid =
     (let a = ucast (nwid AND 0xfe) OR 0x02 in if a = 0x52 then 0x32 else a)"

definition fromAddress :: "address \<Rightarrow> u64 \<Rightarrow> mac" where
  "fromAddress ztaddr nwid =
     (let m = push_bit 40 (ucast (firstOctetForNetwork nwid));
          m = m OR ztaddr;
          m = m XOR push_bit 32 (drop_bit 8 nwid AND 0xff);
          m = m XOR push_bit 24 (drop_bit 16 nwid AND 0xff);
          m = m XOR push_bit 16 (drop_bit 24 nwid AND 0xff);
          m = m XOR push_bit 8 (drop_bit 32 nwid AND 0xff);
          m = m XOR (drop_bit 40 nwid AND 0xff)
      in m)"

definition toAddress :: "mac \<Rightarrow> u64 \<Rightarrow> address" where
  "toAddress m nwid =
     (let a = m AND 0xffffffffff;
          a = a XOR push_bit 32 (drop_bit 8 nwid AND 0xff);
          a = a XOR push_bit 24 (drop_bit 16 nwid AND 0xff);
          a = a XOR push_bit 16 (drop_bit 24 nwid AND 0xff);
          a = a XOR push_bit 8 (drop_bit 32 nwid AND 0xff);
          a = a XOR (drop_bit 40 nwid AND 0xff)
      in Address_of a)"

definition MAC_nth :: "mac \<Rightarrow> nat \<Rightarrow> byte" where
  "MAC_nth m i = ucast (drop_bit (40 - i * 8) m AND 0xff)"

text \<open>
  \<^verbatim>\<open>toString\<close> prints each byte with \<^verbatim>\<open>%.2x\<close>, which for a byte is its two lower-case hex
  digits, separated by colons, in 17 of the 24 characters it has room for.
\<close>

definition MAC_toString :: "mac \<Rightarrow> bytes" where
  "MAC_toString m =
     hex [MAC_nth m 0] @ 58 # hex [MAC_nth m 1] @ 58 # hex [MAC_nth m 2] @ 58 #
     hex [MAC_nth m 3] @ 58 # hex [MAC_nth m 4] @ 58 # hex [MAC_nth m 5]"

text \<open>\<^verbatim>\<open>fromString\<close> is given the C string \<open>s\<close>; \<^verbatim>\<open>tmp\<close> is zeroed in its first six bytes.\<close>

definition MAC_fromString :: "bytes \<Rightarrow> mac res" where
  "MAC_fromString s =
     ebind (unhex_buf (s @ [0]) (length s) (replicate 6 0) 6) (\<lambda>(l, tmp). Inr (MAC_setTo tmp))"

section \<open>Multicast groups\<close>

datatype multicast_group = MulticastGroup (mg_mac: mac) (mg_adi: u32)

definition MulticastGroup_less :: "multicast_group \<Rightarrow> multicast_group \<Rightarrow> bool" where
  "MulticastGroup_less a g =
     (if mg_mac a < mg_mac g then True
      else if mg_mac a = mg_mac g then mg_adi a < mg_adi g
      else False)"

text \<open>The order of \<^verbatim>\<open>operator<\<close> and \<^verbatim>\<open>operator<=\<close> is linear, as the sorted containers require.\<close>

instantiation multicast_group :: linorder
begin

definition less_multicast_group :: "multicast_group \<Rightarrow> multicast_group \<Rightarrow> bool" where
  "less_multicast_group a b = MulticastGroup_less a b"

definition less_eq_multicast_group :: "multicast_group \<Rightarrow> multicast_group \<Rightarrow> bool" where
  "less_eq_multicast_group a b = (\<not> MulticastGroup_less b a)"

instance
proof
  fix x y z :: multicast_group
  show "x < y \<longleftrightarrow> x \<le> y \<and> \<not> y \<le> x" and "x \<le> x" and "x \<le> y \<Longrightarrow> y \<le> z \<Longrightarrow> x \<le> z"
    and "x \<le> y \<Longrightarrow> y \<le> x \<Longrightarrow> x = y" and "x \<le> y \<or> y \<le> x"
    by (cases x; cases y; cases z;
        force simp: less_multicast_group_def less_eq_multicast_group_def MulticastGroup_less_def split: if_splits)+
qed

end

section \<open>Encodings\<close>

lemma bit_byte_less: "bit (b :: byte) n \<Longrightarrow> n < 8"
  using bit_imp_le_length [of b n] by simp

lemma and_ff: "x AND 0xff = take_bit 8 (x :: 'a::len word)"
  by (simp add: take_bit_eq_mask mask_eq_exp_minus_1)

lemma and_40: "x AND 0xffffffffff = take_bit 40 (x :: u64)"
  by (simp add: take_bit_eq_mask mask_eq_exp_minus_1)

lemma and_48: "x AND 0xffffffffffff = take_bit 48 (x :: u64)"
  by (simp add: take_bit_eq_mask mask_eq_exp_minus_1)

lemma ucast_and_ff [simp]: "ucast (x AND 0xff :: u64) = (ucast x :: byte)"
  by (auto intro!: bit_word_eqI simp: and_ff bit_simps)

lemma byte_and_ff [simp]: "ucast (b :: byte) AND 0xff = (ucast b :: u64)"
  unfolding and_ff by (auto intro!: bit_word_eqI simp: bit_simps dest: bit_byte_less)

lemma Address_bytes_be_enc: "Address_bytes a = be_enc 5 a"
  by (simp add: Address_bytes_def)

lemma MAC_bytes_be_enc: "MAC_bytes a = be_enc 6 a"
  by (simp add: MAC_bytes_def)

lemma length_Address_bytes [simp]: "length (Address_bytes a) = 5"
  by (simp add: Address_bytes_def)

lemma length_MAC_bytes [simp]: "length (MAC_bytes a) = 6"
  by (simp add: MAC_bytes_def)

lemma list_ge5: "5 \<le> length b \<Longrightarrow> \<exists>b0 b1 b2 b3 b4 r. b = b0 # b1 # b2 # b3 # b4 # r"
  by (metis (no_types) Suc_le_length_iff numeral_eq_Suc pred_numeral_simps BitM.simps)

lemma Address_setTo_be_dec: "5 \<le> length b \<Longrightarrow> Address_setTo b = be_dec (take 5 b)"
  by (auto dest!: list_ge5 simp: Address_setTo_def be_dec_def push_bit_or or.assoc)

lemma MAC_setTo_be_dec: "6 \<le> length b \<Longrightarrow> MAC_setTo b = be_dec (take 6 b)"
proof -
  assume len: "6 \<le> length b"
  then obtain a t where b: "b = a # t" "5 \<le> length t" by (cases b) auto
  then show ?thesis
    by (auto dest!: list_ge5 simp: MAC_setTo_def be_dec_def push_bit_or or.assoc)
qed

lemma Address_setTo_bytes: "Address_setTo (Address_bytes a) = take_bit 40 a"
proof -
  have "Address_setTo (Address_bytes a) = be_dec (be_enc 5 a)"
    by (simp add: Address_setTo_be_dec Address_bytes_be_enc del: be_enc_numeral)
  also have "\<dots> = take_bit 40 a" using be_dec_enc [of 5 a] by simp
  finally show ?thesis .
qed

lemma MAC_setTo_bytes: "MAC_setTo (MAC_bytes m) = take_bit 48 m"
proof -
  have "MAC_setTo (MAC_bytes m) = be_dec (be_enc 6 m)"
    by (simp add: MAC_setTo_be_dec MAC_bytes_be_enc del: be_enc_numeral)
  also have "\<dots> = take_bit 48 m" using be_dec_enc [of 6 m] by simp
  finally show ?thesis .
qed

text \<open>
  C35. Address codec: the five bytes written for an address are read back as the same 40 bits,
  and five received bytes are written out again unchanged.
\<close>

theorem Address_roundtrip:
  shows "Address_setTo (Address_bytes a) = Address_of a
    \<and> Address_bytes (Address_setTo [b0, b1, b2, b3, b4]) = [b0, b1, b2, b3, b4]"
proof -
  have "be_enc (length [b0, b1, b2, b3, b4]) (be_dec [b0, b1, b2, b3, b4] :: u64) = [b0, b1, b2, b3, b4]"
    by (rule be_enc_dec) simp
  then have "Address_bytes (Address_setTo [b0, b1, b2, b3, b4]) = [b0, b1, b2, b3, b4]"
    by (simp add: Address_setTo_be_dec Address_bytes_be_enc)
  then show ?thesis
    by (simp only: Address_setTo_bytes Address_of_def and_40 simp_thms)
qed

section \<open>Network-specific MAC addresses\<close>

text \<open>The mask that \<^verbatim>\<open>fromAddress\<close> and \<^verbatim>\<open>toAddress\<close> apply, in one word.\<close>

definition nwid_mask :: "u64 \<Rightarrow> u64" where
  "nwid_mask nwid = push_bit 32 (drop_bit 8 nwid AND 0xff) XOR push_bit 24 (drop_bit 16 nwid AND 0xff)
     XOR push_bit 16 (drop_bit 24 nwid AND 0xff) XOR push_bit 8 (drop_bit 32 nwid AND 0xff)
     XOR (drop_bit 40 nwid AND 0xff)"

lemma fromAddress_mask:
  "fromAddress a nwid = (push_bit 40 (ucast (firstOctetForNetwork nwid)) OR a) XOR nwid_mask nwid"
  by (simp add: fromAddress_def nwid_mask_def Let_def xor.assoc)

lemma toAddress_mask: "toAddress m nwid = take_bit 40 (take_bit 40 m XOR nwid_mask nwid)"
  by (simp add: toAddress_def nwid_mask_def Let_def xor.assoc Address_of_def and_40)

lemma bit_nwid_mask_high: "40 \<le> k \<Longrightarrow> \<not> bit (nwid_mask nwid) k"
  by (auto simp: nwid_mask_def and_ff bit_simps)

lemma take_bit_fromAddress:
  "take_bit 40 (fromAddress a nwid) = take_bit 40 a XOR nwid_mask nwid"
  by (rule bit_word_eqI) (auto simp: fromAddress_mask bit_simps bit_nwid_mask_high not_less)

lemma toAddress_fromAddress: "toAddress (fromAddress a nwid) nwid = take_bit 40 a"
  unfolding toAddress_mask take_bit_fromAddress by (simp add: xor.assoc)

lemma first_octet_bits:
  "\<not> bit (firstOctetForNetwork nwid) 0" "bit (firstOctetForNetwork nwid) 1"
proof -
  let ?a = "ucast (nwid AND 0xfe) OR 0x02 :: byte"
  have "(2 :: byte) = push_bit 1 1" by simp
  moreover have "\<not> bit (0xfe :: u64) 0" by simp
  ultimately have "\<not> bit ?a 0" "bit ?a 1" by (auto simp: bit_simps)
  moreover have "\<not> bit (0x32 :: byte) 0" "bit (0x32 :: byte) 1" by simp_all
  ultimately show "\<not> bit (firstOctetForNetwork nwid) 0" "bit (firstOctetForNetwork nwid) 1"
    by (simp_all add: firstOctetForNetwork_def Let_def)
qed

lemma bit_fromAddress_high:
  assumes "take_bit 40 a = a" and "k < 8"
  shows "bit (fromAddress a nwid) (40 + k) = bit (firstOctetForNetwork nwid) k"
proof -
  have "\<not> bit a (40 + k)"
  proof
    assume "bit a (40 + k)"
    then have "bit (take_bit 40 a) (40 + k)" by (simp only: assms(1))
    then show False by (simp add: bit_simps)
  qed
  with \<open>k < 8\<close> show ?thesis by (simp add: fromAddress_mask bit_simps bit_nwid_mask_high)
qed

lemma and_single_bit: "x AND push_bit k 1 \<noteq> 0 \<longleftrightarrow> bit (x :: u64) k"
  by (simp only: bit_iff_and_push_bit_not_eq_0)

lemma isMulticast_bit: "isMulticast m \<longleftrightarrow> bit m 40"
  using and_single_bit [of m 40] by (simp add: isMulticast_def)

lemma isLocallyAdministered_bit: "isLocallyAdministered m \<longleftrightarrow> bit m 41"
  using and_single_bit [of m 41] by (simp add: isLocallyAdministered_def)

lemma MAC_first_octet:
  assumes "take_bit 40 a = a"
  shows "MAC_nth (fromAddress a nwid) 0 = firstOctetForNetwork nwid"
proof (rule bit_word_eqI)
  fix k
  assume "k < LENGTH(8)"
  then show "bit (MAC_nth (fromAddress a nwid) 0) k = bit (firstOctetForNetwork nwid) k"
    using bit_fromAddress_high [OF assms, of k]
    by (simp add: MAC_nth_def and_ff bit_simps add.commute)
qed

text \<open>
  C34. The MAC that a node has on a network determines its address again, and is a locally
  administered unicast address. Its first octet is the one of the network, and never the octet
  0x52 that virtualization software uses.
\<close>

theorem fromAddress_toAddress:
  assumes "Address_of a = a"
  shows "toAddress (fromAddress a nwid) nwid = a
    \<and> isLocallyAdministered (fromAddress a nwid) \<and> \<not> isMulticast (fromAddress a nwid)
    \<and> MAC_nth (fromAddress a nwid) 0 = firstOctetForNetwork nwid
    \<and> MAC_nth (fromAddress a nwid) 0 \<noteq> 0x52"
proof -
  have a: "take_bit 40 a = a" using assms by (simp add: Address_of_def and_40)
  then have "toAddress (fromAddress a nwid) nwid = a" by (simp add: toAddress_fromAddress)
  moreover have "bit (fromAddress a nwid) 41" "\<not> bit (fromAddress a nwid) 40"
    using bit_fromAddress_high [OF a, of 1] bit_fromAddress_high [OF a, of 0] first_octet_bits
    by simp_all
  moreover have "firstOctetForNetwork nwid \<noteq> 0x52"
    by (simp add: firstOctetForNetwork_def Let_def)
  ultimately show ?thesis
    by (simp add: isMulticast_bit isLocallyAdministered_bit MAC_first_octet [OF a])
qed

theorem fromAddress_toAddress_witness:
  "toAddress (fromAddress 0x89e92ceee5 0x8056c2e21c000001) 0x8056c2e21c000001 = 0x89e92ceee5
   \<and> MAC_nth (fromAddress 0x89e92ceee5 0x8056c2e21c000050) 0 = firstOctetForNetwork 0x8056c2e21c000050"
  using fromAddress_toAddress [of "0x89e92ceee5" "0x8056c2e21c000001"]
    fromAddress_toAddress [of "0x89e92ceee5" "0x8056c2e21c000050"] by (simp add: Address_of_def)

section \<open>Text form\<close>

lemma MAC_nth_bytes: "MAC_bytes m = map (MAC_nth m) [0, 1, 2, 3, 4, 5]"
  by (simp add: MAC_bytes_def MAC_nth_def)

lemma unhex_colons:
  "unhex_loop True 0 17 (hex [a] @ 58 # hex [b] @ 58 # hex [c] @ 58 # hex [d] @ 58 # hex [e] @ 58 # hex [f] @ [0]) []
    = Inr [a, b, c, d, e, f]"
proof -
  have colon: "nibble 58 = None" by (simp add: nibble_def)
  show ?thesis
    by (simp add: hex_Cons nibble_hi nibble_lo byte_halves colon del: hex.simps(2))
qed

text \<open>C36. Printing a MAC and parsing the text gives back its 48 bits.\<close>

theorem MAC_string_roundtrip: "MAC_fromString (MAC_toString m) = Inr (MAC_of m)"
proof -
  have "unhex_buf_loop True 0 17 (MAC_toString m @ [0]) 0 6 (replicate 6 0)
      = Inr (6, MAC_bytes m)"
    using unhex_buf_loop_eq [OF unhex_colons, of 6 "replicate 6 0"
        "MAC_nth m 0" "MAC_nth m 1" "MAC_nth m 2" "MAC_nth m 3" "MAC_nth m 4" "MAC_nth m 5"]
    by (simp add: MAC_toString_def MAC_nth_bytes mem_write_def)
  moreover have "length (MAC_toString m) = 17" by (simp add: MAC_toString_def)
  ultimately show ?thesis
    by (simp add: MAC_fromString_def unhex_buf_def MAC_setTo_bytes MAC_of_def and_48)
qed

end
