(* ===== verification/Salsa20.thy ===== *)
theory Salsa20
  imports Addressing
begin

text \<open>
  The stream cipher of \<^verbatim>\<open>zto/node/Salsa20.cpp\<close>, in its portable form (the branch without
  \<^verbatim>\<open>ZT_SALSA20_SSE\<close>). The state is the array \<^verbatim>\<open>_state.i[16]\<close>. The unrolled rounds are lists of
  the assignments that the code performs; they are shown equal to the column and row rounds of
  the cipher's definition. The contract \<open>stream_cipher\<close> is what packet armoring relies on.
\<close>

section \<open>Definitions\<close>

definition ROTATE :: "u32 \<Rightarrow> nat \<Rightarrow> u32" where
  "ROTATE v c = push_bit c v OR drop_bit (32 - c) v"

definition U8TO32_LITTLE :: "bytes \<Rightarrow> u32" where
  "U8TO32_LITTLE p =
     ucast (p ! 0) OR push_bit 8 (ucast (p ! 1)) OR push_bit 16 (ucast (p ! 2)) OR
     push_bit 24 (ucast (p ! 3))"

definition U32TO8_LITTLE :: "u32 \<Rightarrow> bytes" where
  "U32TO8_LITTLE v = [ucast v, ucast (drop_bit 8 v), ucast (drop_bit 16 v), ucast (drop_bit 24 v)]"

text \<open>The assignment \<^verbatim>\<open>xd = XOR(xd,ROTATE(PLUS(xa,xb),c))\<close>.\<close>

fun salsa_stmt :: "nat \<times> nat \<times> nat \<times> nat \<Rightarrow> u32 list \<Rightarrow> u32 list" where
  "salsa_stmt (d, a, b, c) x = x[d := x ! d XOR ROTATE (x ! a + x ! b) c]"

definition column_stmts :: "(nat \<times> nat \<times> nat \<times> nat) list" where
  "column_stmts =
    [(4, 0, 12, 7), (8, 4, 0, 9), (12, 8, 4, 13), (0, 12, 8, 18),
     (9, 5, 1, 7), (13, 9, 5, 9), (1, 13, 9, 13), (5, 1, 13, 18),
     (14, 10, 6, 7), (2, 14, 10, 9), (6, 2, 14, 13), (10, 6, 2, 18),
     (3, 15, 11, 7), (7, 3, 15, 9), (11, 7, 3, 13), (15, 11, 7, 18)]"

definition row_stmts :: "(nat \<times> nat \<times> nat \<times> nat) list" where
  "row_stmts =
    [(1, 0, 3, 7), (2, 1, 0, 9), (3, 2, 1, 13), (0, 3, 2, 18),
     (6, 5, 4, 7), (7, 6, 5, 9), (4, 7, 6, 13), (5, 4, 7, 18),
     (11, 10, 9, 7), (8, 11, 10, 9), (9, 8, 11, 13), (10, 9, 8, 18),
     (12, 15, 14, 7), (13, 12, 15, 9), (14, 13, 12, 13), (15, 14, 13, 18)]"

definition double_round :: "u32 list \<Rightarrow> u32 list" where
  "double_round x = fold salsa_stmt (column_stmts @ row_stmts) x"

text \<open>One block of key stream words: \<open>n\<close> double rounds, then \<^verbatim>\<open>x = PLUS(x,j)\<close>.\<close>

definition salsa_core :: "nat \<Rightarrow> u32 list \<Rightarrow> u32 list" where
  "salsa_core n j = map2 (+) ((double_round ^^ n) j) j"

definition xor_out :: "u32 list \<Rightarrow> bytes \<Rightarrow> bytes" where
  "xor_out x m = concat (map (\<lambda>k. U32TO8_LITTLE (x ! k XOR U8TO32_LITTLE (drop (4 * k) m))) [0..<16])"

definition next_counter :: "u32 list \<Rightarrow> u32 list" where
  "next_counter j =
     (let j = j[8 := j ! 8 + 1] in if j ! 8 = 0 then j[9 := j ! 9 + 1] else j)"

text \<open>
  The loop of \<^verbatim>\<open>crypt12\<close> and \<^verbatim>\<open>crypt20\<close>. A last block shorter than 64 bytes is copied into
  \<^verbatim>\<open>tmp\<close>, whose uninitialised rest is \<open>junk\<close> here, and only its first bytes are copied out.
\<close>

function crypt_loop :: "bytes \<Rightarrow> nat \<Rightarrow> u32 list \<Rightarrow> bytes \<Rightarrow> u32 list \<times> bytes" where
  "crypt_loop junk n j m =
     (if length m \<le> 64
      then (next_counter j,
            take (length m) (xor_out (salsa_core n j) (m @ drop (length m) junk)))
      else (case crypt_loop junk n (next_counter j) (drop 64 m) of
              (j', c) \<Rightarrow> (j', xor_out (salsa_core n j) (take 64 m) @ c)))"
  by pat_completeness auto
termination by (relation "measure (\<lambda>(junk, n, j, m). length m)") auto

definition crypt12 :: "bytes \<Rightarrow> u32 list \<Rightarrow> bytes \<Rightarrow> u32 list \<times> bytes" where
  "crypt12 junk st m = (if length m = 0 then (st, m) else crypt_loop junk 6 st m)"

definition crypt20 :: "bytes \<Rightarrow> u32 list \<Rightarrow> bytes \<Rightarrow> u32 list \<times> bytes" where
  "crypt20 junk st m = (if length m = 0 then (st, m) else crypt_loop junk 10 st m)"

definition const32 :: bytes where
  "const32 = [101, 120, 112, 97, 110, 100, 32, 51, 50, 45, 98, 121, 116, 101, 32, 107]"

definition const16 :: bytes where
  "const16 = [101, 120, 112, 97, 110, 100, 32, 49, 54, 45, 98, 121, 116, 101, 32, 107]"

definition Salsa20_init :: "bytes \<Rightarrow> nat \<Rightarrow> bytes \<Rightarrow> u32 list" where
  "Salsa20_init key kbits iv =
     (let (k, constants) = (if kbits = 256 then (drop 16 key, const32) else (key, const16)) in
      [U8TO32_LITTLE (drop 0 constants),
       U8TO32_LITTLE (drop 0 key), U8TO32_LITTLE (drop 4 key),
       U8TO32_LITTLE (drop 8 key), U8TO32_LITTLE (drop 12 key),
       U8TO32_LITTLE (drop 4 constants),
       U8TO32_LITTLE (drop 0 iv), U8TO32_LITTLE (drop 4 iv),
       0, 0,
       U8TO32_LITTLE (drop 8 constants),
       U8TO32_LITTLE (drop 0 k), U8TO32_LITTLE (drop 4 k),
       U8TO32_LITTLE (drop 8 k), U8TO32_LITTLE (drop 12 k),
       U8TO32_LITTLE (drop 12 constants)])"

section \<open>The unrolled rounds are the rounds of the cipher\<close>

text \<open>The reference: quarter rounds along columns, then along rows.\<close>

definition quarterround :: "u32 \<times> u32 \<times> u32 \<times> u32 \<Rightarrow> u32 \<times> u32 \<times> u32 \<times> u32" where
  "quarterround = (\<lambda>(y0, y1, y2, y3).
     let z1 = y1 XOR ROTATE (y0 + y3) 7;
         z2 = y2 XOR ROTATE (z1 + y0) 9;
         z3 = y3 XOR ROTATE (z2 + z1) 13;
         z0 = y0 XOR ROTATE (z3 + z2) 18
     in (z0, z1, z2, z3))"

fun columnround :: "u32 list \<Rightarrow> u32 list" where
  "columnround [x0, x1, x2, x3, x4, x5, x6, x7, x8, x9, x10, x11, x12, x13, x14, x15] =
     (case quarterround (x0, x4, x8, x12) of (y0, y4, y8, y12) \<Rightarrow>
      case quarterround (x5, x9, x13, x1) of (y5, y9, y13, y1) \<Rightarrow>
      case quarterround (x10, x14, x2, x6) of (y10, y14, y2, y6) \<Rightarrow>
      case quarterround (x15, x3, x7, x11) of (y15, y3, y7, y11) \<Rightarrow>
        [y0, y1, y2, y3, y4, y5, y6, y7, y8, y9, y10, y11, y12, y13, y14, y15])"
| "columnround x = x"

fun rowround :: "u32 list \<Rightarrow> u32 list" where
  "rowround [y0, y1, y2, y3, y4, y5, y6, y7, y8, y9, y10, y11, y12, y13, y14, y15] =
     (case quarterround (y0, y1, y2, y3) of (z0, z1, z2, z3) \<Rightarrow>
      case quarterround (y5, y6, y7, y4) of (z5, z6, z7, z4) \<Rightarrow>
      case quarterround (y10, y11, y8, y9) of (z10, z11, z8, z9) \<Rightarrow>
      case quarterround (y15, y12, y13, y14) of (z15, z12, z13, z14) \<Rightarrow>
        [z0, z1, z2, z3, z4, z5, z6, z7, z8, z9, z10, z11, z12, z13, z14, z15])"
| "rowround y = y"

lemma list16:
  assumes "length xs = 16"
  obtains x0 x1 x2 x3 x4 x5 x6 x7 x8 x9 x10 x11 x12 x13 x14 x15
  where "xs = [x0, x1, x2, x3, x4, x5, x6, x7, x8, x9, x10, x11, x12, x13, x14, x15]"
proof -
  have "xs = map (nth xs) [0..<16]" by (metis assms map_nth)
  moreover have "[0..<16] = [0, 1, 2, 3, 4, 5, 6, 7, 8, 9, 10, 11, 12, 13, 14, 15 :: nat]"
    by code_simp
  ultimately have "xs = [xs!0, xs!1, xs!2, xs!3, xs!4, xs!5, xs!6, xs!7, xs!8, xs!9, xs!10, xs!11,
      xs!12, xs!13, xs!14, xs!15]"
    by (simp only: list.map)
  then show ?thesis by (rule that)
qed

lemma length_salsa_stmt [simp]: "length (salsa_stmt s x) = length x"
  by (cases s) simp

lemma length_fold_stmts [simp]: "length (fold salsa_stmt ss x) = length x"
  by (induction ss arbitrary: x) auto

lemma length_double_round [simp]: "length (double_round x) = length x"
  by (simp add: double_round_def)

lemma length_double_rounds [simp]: "length ((double_round ^^ n) x) = length x"
  by (induction n) auto

lemma column_stmts_eq: "length x = 16 \<Longrightarrow> fold salsa_stmt column_stmts x = columnround x"
  by (erule list16) (simp add: column_stmts_def quarterround_def Let_def add.commute)

lemma row_stmts_eq: "length x = 16 \<Longrightarrow> fold salsa_stmt row_stmts x = rowround x"
  by (erule list16) (simp add: row_stmts_def quarterround_def Let_def add.commute)

lemma double_round_rounds:
  assumes "length x = 16"
  shows "double_round x = rowround (columnround x)"
proof -
  have "length (columnround x) = 16"
    using assms column_stmts_eq [OF assms] length_fold_stmts [of column_stmts x] by simp
  with assms show ?thesis by (simp add: double_round_def column_stmts_eq row_stmts_eq)
qed

text \<open>
  C32. The 32 in-place assignments of each double round compute the row round of the column round
  of the cipher's definition.
\<close>

theorem double_round_reference:
  assumes "length x = 16"
  shows "double_round x = rowround (columnround x)"
  by (rule double_round_rounds [OF assms])

theorem double_round_reference_witness:
  "double_round (1 # replicate 15 0) = rowround (columnround (1 # replicate 15 0))"
  using double_round_reference [of "1 # replicate 15 0"] by simp

section \<open>Encryption is exclusive or with a key stream\<close>

definition key_stream :: "nat \<Rightarrow> u32 list \<Rightarrow> bytes" where
  "key_stream n j = concat (map U32TO8_LITTLE (salsa_core n j))"

lemma length_U32TO8 [simp]: "length (U32TO8_LITTLE v) = 4"
  by (simp add: U32TO8_LITTLE_def)

lemma length_concat_U32TO8 [simp]: "length (concat (map U32TO8_LITTLE x)) = 4 * length x"
  by (induction x) auto

lemma length_salsa_core [simp]: "length (salsa_core n j) = length j"
  by (simp add: salsa_core_def)

lemma length_key_stream [simp]: "length j = 16 \<Longrightarrow> length (key_stream n j) = 64"
  by (simp add: key_stream_def)

lemma length_next_counter [simp]: "length (next_counter j) = length j"
  by (simp add: next_counter_def Let_def)

lemma bit_byte_high: "8 \<le> n \<Longrightarrow> \<not> bit (b :: byte) n"
  using bit_byte_less [of b n] by auto

lemma U32TO8_xor_U8TO32:
  "U32TO8_LITTLE (x XOR U8TO32_LITTLE (a # b # c # d # r)) = map2 (XOR) (U32TO8_LITTLE x) [a, b, c, d]"
  by (auto simp: U32TO8_LITTLE_def U8TO32_LITTLE_def bit_simps bit_byte_high intro!: bit_word_eqI)

lemma list_ge4: "4 \<le> length b \<Longrightarrow> \<exists>b0 b1 b2 b3 r. b = b0 # b1 # b2 # b3 # r"
  by (metis (no_types) Suc_le_length_iff numeral_eq_Suc pred_numeral_simps BitM.simps)

lemma U32TO8_xor:
  "4 \<le> length p \<Longrightarrow> U32TO8_LITTLE (x XOR U8TO32_LITTLE p) = map2 (XOR) (U32TO8_LITTLE x) (take 4 p)"
  by (auto dest!: list_ge4 simp: U32TO8_xor_U8TO32)

lemma xor_words:
  assumes "length x = n" and "4 * n \<le> length m"
  shows "concat (map (\<lambda>k. U32TO8_LITTLE (x ! k XOR U8TO32_LITTLE (drop (4 * k) m))) [0..<n])
    = map2 (XOR) (concat (map U32TO8_LITTLE x)) (take (4 * n) m)"
  using assms
proof (induction n arbitrary: x)
  case (Suc n)
  obtain y v where x: "x = y @ [v]" "length y = n"
    using Suc.prems(1) by (metis length_Suc_conv_rev)
  let ?f = "\<lambda>z k. U32TO8_LITTLE (z ! k XOR U8TO32_LITTLE (drop (4 * k) m))"
  have "concat (map (?f x) [0..<Suc n]) = concat (map (?f x) [0..<n]) @ ?f x n"
    by simp
  also have "map (?f x) [0..<n] = map (?f y) [0..<n]"
    using x by (intro map_cong) (auto simp: nth_append)
  also have "concat (map (?f y) [0..<n]) = map2 (XOR) (concat (map U32TO8_LITTLE y)) (take (4 * n) m)"
    using Suc.prems x by (intro Suc.IH) simp_all
  also have "?f x n = map2 (XOR) (U32TO8_LITTLE v) (take 4 (drop (4 * n) m))"
    using Suc.prems x by (simp add: U32TO8_xor nth_append)
  also have "map2 (XOR) (concat (map U32TO8_LITTLE y)) (take (4 * n) m)
      @ map2 (XOR) (U32TO8_LITTLE v) (take 4 (drop (4 * n) m))
      = map2 (XOR) (concat (map U32TO8_LITTLE x)) (take (4 * n) m @ take 4 (drop (4 * n) m))"
    using Suc.prems x by (simp add: zip_append)
  also have "take (4 * n) m @ take 4 (drop (4 * n) m) = take (4 * Suc n) m"
    by (simp add: take_add [symmetric] add.commute)
  finally show ?case .
qed simp

lemma xor_out_key_stream:
  "length j = 16 \<Longrightarrow> 64 \<le> length m \<Longrightarrow>
   xor_out (salsa_core n j) m = map2 (XOR) (key_stream n j) (take 64 m)"
  using xor_words [of "salsa_core n j" 16 m] by (simp add: xor_out_def key_stream_def)

declare crypt_loop.simps [simp del]

lemma crypt_loop_last:
  assumes "length j = 16" and "length m \<le> 64" and "length junk = 64"
  shows "crypt_loop junk n j m = (next_counter j, map2 (XOR) (take (length m) (key_stream n j)) m)"
proof -
  let ?p = "m @ drop (length m) junk"
  have p: "length ?p = 64" "take (length m) ?p = m" using assms by simp_all
  have "take (length m) (xor_out (salsa_core n j) ?p)
      = map2 (XOR) (take (length m) (key_stream n j)) (take (length m) ?p)"
    using assms p by (simp add: xor_out_key_stream take_map take_zip)
  with assms p show ?thesis by (simp add: crypt_loop.simps)
qed

lemma crypt_loop_more:
  assumes "length j = 16" and "64 < length m"
  shows "crypt_loop junk n j m =
    (fst (crypt_loop junk n (next_counter j) (drop 64 m)),
     map2 (XOR) (key_stream n j) (take 64 m) @ snd (crypt_loop junk n (next_counter j) (drop 64 m)))"
  using assms xor_out_key_stream [of j "take 64 m" n]
  by (simp add: crypt_loop.simps [of junk n j m] split: prod.splits)

lemma map2_xor_self: "length k = length m \<Longrightarrow> map2 (XOR) k (map2 (XOR) k m) = (m :: bytes)"
  by (induction k m rule: list_induct2) (simp_all add: xor.assoc [symmetric])

lemma crypt_loop_junk:
  "length j = 16 \<Longrightarrow> length junk = 64 \<Longrightarrow> length junk' = 64 \<Longrightarrow>
   crypt_loop junk n j m = crypt_loop junk' n j m"
proof (induction junk n j m rule: crypt_loop.induct)
  case (1 junk n j m)
  then show ?case by (cases "length m \<le> 64") (simp_all add: crypt_loop_last crypt_loop_more)
qed

lemma length_crypt_loop:
  "length j = 16 \<Longrightarrow> length junk = 64 \<Longrightarrow> length (snd (crypt_loop junk n j m)) = length m"
proof (induction junk n j m rule: crypt_loop.induct)
  case (1 junk n j m)
  then show ?case by (cases "length m \<le> 64") (simp_all add: crypt_loop_last crypt_loop_more)
qed

lemma crypt_loop_invar:
  "length j = 16 \<Longrightarrow> length junk = 64 \<Longrightarrow> length (fst (crypt_loop junk n j m)) = 16"
proof (induction junk n j m rule: crypt_loop.induct)
  case (1 junk n j m)
  then show ?case by (cases "length m \<le> 64") (simp_all add: crypt_loop_last crypt_loop_more)
qed

lemma crypt_loop_state:
  "length j = 16 \<Longrightarrow> length junk = 64 \<Longrightarrow> length m' = length m \<Longrightarrow>
   fst (crypt_loop junk n j m') = fst (crypt_loop junk n j m)"
proof (induction junk n j m arbitrary: m' rule: crypt_loop.induct)
  case (1 junk n j m)
  show ?case
  proof (cases "length m \<le> 64")
    case False
    have "fst (crypt_loop junk n (next_counter j) (drop 64 m'))
        = fst (crypt_loop junk n (next_counter j) (drop 64 m))"
      by (rule "1.IH") (use "1.prems" False in simp_all)
    with "1.prems" False show ?thesis by (simp add: crypt_loop_more)
  qed (use "1.prems" in \<open>simp add: crypt_loop_last\<close>)
qed

lemma crypt_loop_twice:
  "length j = 16 \<Longrightarrow> length junk = 64 \<Longrightarrow>
   snd (crypt_loop junk n j (snd (crypt_loop junk n j m))) = m"
proof (induction junk n j m rule: crypt_loop.induct)
  case (1 junk n j m)
  show ?case
  proof (cases "length m \<le> 64")
    case True
    with 1 show ?thesis by (simp add: crypt_loop_last map2_xor_self)
  next
    case False
    define c where "c = snd (crypt_loop junk n j m)"
    have c: "take 64 c = map2 (XOR) (key_stream n j) (take 64 m)"
      "drop 64 c = snd (crypt_loop junk n (next_counter j) (drop 64 m))"
      using 1 False by (simp_all add: c_def crypt_loop_more)
    have "length c = length m" using 1 by (simp add: c_def length_crypt_loop)
    then have "snd (crypt_loop junk n j c)
        = map2 (XOR) (key_stream n j) (take 64 c) @ snd (crypt_loop junk n (next_counter j) (drop 64 c))"
      using 1 False by (simp add: crypt_loop_more)
    also have "\<dots> = take 64 m @ drop 64 m"
      using 1 False by (simp only: c) (simp add: map2_xor_self)
    finally show ?thesis by (simp add: c_def)
  qed
qed

section \<open>The contract of a stream cipher\<close>

locale stream_cipher =
  fixes crypt :: "bytes \<Rightarrow> 's \<Rightarrow> bytes \<Rightarrow> 's \<times> bytes"
    and invar :: "'s \<Rightarrow> bool"
  assumes crypt_length: "invar s \<Longrightarrow> length junk = 64 \<Longrightarrow> length (snd (crypt junk s m)) = length m"
    and crypt_junk: "invar s \<Longrightarrow> length junk = 64 \<Longrightarrow> length junk' = 64 \<Longrightarrow> crypt junk s m = crypt junk' s m"
    and crypt_crypt: "invar s \<Longrightarrow> length junk = 64 \<Longrightarrow> snd (crypt junk s (snd (crypt junk s m))) = m"
    and crypt_invar: "invar s \<Longrightarrow> length junk = 64 \<Longrightarrow> invar (fst (crypt junk s m))"
    and crypt_state: "invar s \<Longrightarrow> length junk = 64 \<Longrightarrow> length m' = length m \<Longrightarrow>
      fst (crypt junk s m') = fst (crypt junk s m)"
begin

text \<open>A receiver with the same key recovers every message of a sequence, in order.\<close>

primrec crypt_seq :: "bytes \<Rightarrow> 's \<Rightarrow> bytes list \<Rightarrow> bytes list" where
  "crypt_seq junk s [] = []"
| "crypt_seq junk s (m # ms) = snd (crypt junk s m) # crypt_seq junk (fst (crypt junk s m)) ms"

lemma crypt_seq_twice:
  "invar s \<Longrightarrow> length junk = 64 \<Longrightarrow> crypt_seq junk s (crypt_seq junk s ms) = ms"
proof (induction ms arbitrary: s)
  case (Cons m ms)
  have "fst (crypt junk s (snd (crypt junk s m))) = fst (crypt junk s m)"
    by (rule crypt_state) (use Cons.prems in \<open>simp_all add: crypt_length\<close>)
  with Cons show ?case by (simp add: crypt_crypt crypt_invar)
qed simp

lemma crypt_inject:
  "invar s \<Longrightarrow> length junk = 64 \<Longrightarrow> snd (crypt junk s m) = snd (crypt junk s m') \<longleftrightarrow> m = m'"
  by (metis crypt_crypt)

end

interpretation s12: stream_cipher crypt12 "\<lambda>j. length j = 16"
proof unfold_locales
  fix s :: "u32 list" and junk junk' m m' :: bytes
  assume s: "length s = 16" and junk: "length junk = 64"
  show "length (snd (crypt12 junk s m)) = length m" "length (fst (crypt12 junk s m)) = 16"
    using s junk by (simp_all add: crypt12_def length_crypt_loop crypt_loop_invar)
  show "crypt12 junk s m = crypt12 junk' s m" if "length junk' = 64"
    using crypt_loop_junk [OF s junk that] by (simp add: crypt12_def)
  show "snd (crypt12 junk s (snd (crypt12 junk s m))) = m"
    using crypt_loop_twice [OF s junk] length_crypt_loop [OF s junk, of 6 m] by (cases "m = []") (auto simp: crypt12_def)
  show "fst (crypt12 junk s m') = fst (crypt12 junk s m)" if "length m' = length m"
    using crypt_loop_state [OF s junk that] that by (auto simp: crypt12_def)
qed

interpretation s20: stream_cipher crypt20 "\<lambda>j. length j = 16"
proof unfold_locales
  fix s :: "u32 list" and junk junk' m m' :: bytes
  assume s: "length s = 16" and junk: "length junk = 64"
  show "length (snd (crypt20 junk s m)) = length m" "length (fst (crypt20 junk s m)) = 16"
    using s junk by (simp_all add: crypt20_def length_crypt_loop crypt_loop_invar)
  show "crypt20 junk s m = crypt20 junk' s m" if "length junk' = 64"
    using crypt_loop_junk [OF s junk that] by (simp add: crypt20_def)
  show "snd (crypt20 junk s (snd (crypt20 junk s m))) = m"
    using crypt_loop_twice [OF s junk] length_crypt_loop [OF s junk, of 10 m] by (cases "m = []") (auto simp: crypt20_def)
  show "fst (crypt20 junk s m') = fst (crypt20 junk s m)" if "length m' = length m"
    using crypt_loop_state [OF s junk that] that by (auto simp: crypt20_def)
qed

lemma length_Salsa20_init [simp]: "length (Salsa20_init key kbits iv) = 16"
  by (simp add: Salsa20_init_def Let_def split: prod.splits)

section \<open>The key stream\<close>

text \<open>
  The reference: the state in which the cipher produces block number \<open>k\<close> has the 64-bit number \<open>k\<close>
  in its words 8 (low half) and 9 (high half). Byte \<open>p\<close> of the key stream is byte \<open>p mod 64\<close> of
  block \<open>p div 64\<close>, computed with the column and row rounds of the cipher's definition.
\<close>

definition at_block :: "u32 list \<Rightarrow> nat \<Rightarrow> u32 list" where
  "at_block st k = st[8 := of_nat k, 9 := of_nat (k div 2 ^ 32)]"

definition salsa_block :: "nat \<Rightarrow> u32 list \<Rightarrow> bytes" where
  "salsa_block n j = concat (map U32TO8_LITTLE (map2 (+) (((rowround \<circ> columnround) ^^ n) j) j))"

definition salsa_stream :: "nat \<Rightarrow> u32 list \<Rightarrow> nat \<Rightarrow> byte" where
  "salsa_stream n st p = salsa_block n (at_block st (p div 64)) ! (p mod 64)"

lemma double_rounds_reference:
  "length x = 16 \<Longrightarrow> (double_round ^^ n) x = ((rowround \<circ> columnround) ^^ n) x"
proof (induction n)
  case (Suc n)
  have "length ((double_round ^^ n) x) = 16" using Suc.prems by simp
  from double_round_rounds [OF this] Suc show ?case by simp
qed simp

lemma key_stream_block: "length j = 16 \<Longrightarrow> key_stream n j = salsa_block n j"
  by (simp add: key_stream_def salsa_block_def salsa_core_def double_rounds_reference)

lemma length_at_block [simp]: "length (at_block st k) = length st"
  by (simp add: at_block_def)

lemma of_nat_u32_0: "(of_nat k :: u32) = 0 \<longleftrightarrow> 2 ^ 32 dvd k"
  by (simp add: word_of_nat_eq_0_iff)

lemma next_counter_at_block:
  assumes "length st = 16"
  shows "next_counter (at_block st k) = at_block st (k + 1)"
proof (cases "(2 :: nat) ^ 32 dvd k + 1")
  case True
  then have "(k + 1) div 2 ^ 32 = k div 2 ^ 32 + 1" by (simp add: div_Suc dvd_eq_mod_eq_0)
  moreover have "(of_nat (k + 1) :: u32) = 0" using True by (simp only: of_nat_u32_0)
  ultimately show ?thesis
    using assms by (simp add: next_counter_def at_block_def Let_def list_update_swap add.commute)
next
  case False
  then have "(k + 1) div 2 ^ 32 = k div 2 ^ 32" by (simp add: div_Suc dvd_eq_mod_eq_0)
  moreover have "(of_nat (k + 1) :: u32) \<noteq> 0" using False by (simp only: of_nat_u32_0) simp
  ultimately show ?thesis
    using assms by (simp add: next_counter_def at_block_def Let_def list_update_swap add.commute)
qed

lemma nth_map2_xor: "i < length a \<Longrightarrow> i < length b \<Longrightarrow> map2 (XOR) a b ! i = a ! i XOR (b ! i :: byte)"
  by simp

lemma stream_in_block:
  "i < 64 \<Longrightarrow> salsa_stream n st (64 * k + i) = salsa_block n (at_block st k) ! i"
  by (simp add: salsa_stream_def)

lemma crypt_loop_stream:
  assumes "length st = 16" and "length junk = 64" and "m \<noteq> []"
  shows "crypt_loop junk n (at_block st k) m = (at_block st (k + (length m + 63) div 64),
    map (\<lambda>i. salsa_stream n st (64 * k + i) XOR m ! i) [0..<length m])"
  using assms
proof (induction "length m" arbitrary: k m rule: less_induct)
  case less
  let ?j = "at_block st k"
  have j: "length ?j = 16" using less.prems by simp
  show ?case
  proof (cases "length m \<le> 64")
    case True
    have blocks: "(length m + 63) div 64 = 1"
      using True less.prems(3) by (cases m) auto
    have "map2 (XOR) (take (length m) (key_stream n ?j)) m
        = map (\<lambda>i. salsa_stream n st (64 * k + i) XOR m ! i) [0..<length m]"
      using True j by (intro nth_equalityI) (simp_all add: stream_in_block key_stream_block [symmetric])
    then show ?thesis
      using crypt_loop_last [OF j True less.prems(2)] next_counter_at_block [OF less.prems(1)]
      by (simp only: blocks)
  next
    case False
    let ?r = "drop 64 m"
    have blocks: "k + 1 + (length ?r + 63) div 64 = k + (length m + 63) div 64"
      using False by simp
    have IH: "crypt_loop junk n (at_block st (k + 1)) ?r = (at_block st (k + (length m + 63) div 64),
        map (\<lambda>i. salsa_stream n st (64 * (k + 1) + i) XOR ?r ! i) [0..<length ?r])"
      unfolding blocks [symmetric] by (rule less.hyps) (use less.prems False in simp_all)
    have "map2 (XOR) (key_stream n ?j) (take 64 m)
        @ map (\<lambda>i. salsa_stream n st (64 * (k + 1) + i) XOR ?r ! i) [0..<length ?r]
        = map (\<lambda>i. salsa_stream n st (64 * k + i) XOR m ! i) [0..<length m]" (is "?a @ ?b = ?c")
    proof (intro nth_equalityI)
      show len: "length (?a @ ?b) = length ?c" using False j by simp
      fix i assume "i < length (?a @ ?b)"
      with len have i: "i < length m" by simp
      show "(?a @ ?b) ! i = ?c ! i"
      proof (cases "i < 64")
        case True
        with i j False show ?thesis
          by (simp add: nth_append stream_in_block key_stream_block [symmetric])
      next
        case ge: False
        then have "64 * (k + 1) + (i - 64) = 64 * k + i" by simp
        with ge i j False show ?thesis by (simp add: nth_append)
      qed
    qed
    then show ?thesis
      using crypt_loop_more [OF j, of m junk n] False IH next_counter_at_block [OF less.prems(1), of k]
      by simp
  qed
qed

lemma crypt_stream:
  assumes "length st = 16" and "length junk = 64"
  shows "crypt12 junk (at_block st k) m = (at_block st (k + (length m + 63) div 64),
      map (\<lambda>i. salsa_stream 6 st (64 * k + i) XOR m ! i) [0..<length m])"
    and "crypt20 junk (at_block st k) m = (at_block st (k + (length m + 63) div 64),
      map (\<lambda>i. salsa_stream 10 st (64 * k + i) XOR m ! i) [0..<length m])"
  using assms by (simp_all add: crypt12_def crypt20_def crypt_loop_stream)

lemma at_block_init: "at_block (Salsa20_init key kbits iv) 0 = Salsa20_init key kbits iv"
  by (simp add: at_block_def Salsa20_init_def Let_def split: prod.splits)

text \<open>
  C33. Salsa20/12 and Salsa20/20 as stream ciphers. A context that has produced \<open>k\<close> blocks exclusive-ors
  the message with the key stream of its key and nonce from byte \<open>64 * k\<close> on, with six and
  ten double rounds a block, and moves on by the blocks it began; the uninitialised bytes of the
  work block never reach the output. Before the first message \<open>k\<close> is zero. So a context in the
  same state recovers the message.
\<close>

theorem salsa20_stream:
  fixes key iv junk junk' m :: bytes and kbits k :: nat
  assumes "length junk = 64" and "length junk' = 64"
  shows "let init = Salsa20_init key kbits iv; st = at_block init k in
      at_block init 0 = init
    \<and> crypt12 junk st m = (at_block init (k + (length m + 63) div 64),
        map (\<lambda>i. salsa_stream 6 init (64 * k + i) XOR m ! i) [0..<length m])
    \<and> crypt20 junk st m = (at_block init (k + (length m + 63) div 64),
        map (\<lambda>i. salsa_stream 10 init (64 * k + i) XOR m ! i) [0..<length m])
    \<and> snd (crypt12 junk' st (snd (crypt12 junk st m))) = m
    \<and> snd (crypt20 junk' st (snd (crypt20 junk st m))) = m"
proof -
  let ?init = "Salsa20_init key kbits iv"
  let ?st = "at_block ?init k"
  have init: "length ?init = 16" and st: "length ?st = 16" by simp_all
  have "snd (crypt12 junk' ?st (snd (crypt12 junk ?st m))) = m"
    "snd (crypt20 junk' ?st (snd (crypt20 junk ?st m))) = m"
    unfolding s12.crypt_junk [OF st assms(2,1)] s20.crypt_junk [OF st assms(2,1)]
    by (rule s12.crypt_crypt [OF st assms(1)] s20.crypt_crypt [OF st assms(1)])+
  then show ?thesis
    unfolding Let_def using at_block_init crypt_stream [OF init assms(1)] by blast
qed

theorem salsa20_stream_witness:
  "snd (crypt12 (replicate 64 7) (at_block (Salsa20_init (replicate 32 1) 256 (replicate 8 2)) 3)
     (snd (crypt12 (replicate 64 9) (at_block (Salsa20_init (replicate 32 1) 256 (replicate 8 2)) 3) [1, 2, 3])))
   = [1, 2, 3]"
  using salsa20_stream [of "replicate 64 9" "replicate 64 7" "replicate 32 1" 256 "replicate 8 2" 3 "[1, 2, 3]"]
  unfolding Let_def length_replicate by blast

end
