(* ===== verification/Poly1305.thy ===== *)
theory Poly1305
  imports Salsa20
begin

text \<open>
  The one-time authenticator of \<^verbatim>\<open>zto/node/Poly1305.cpp\<close>, in the portable branch, with
  \<^verbatim>\<open>unsigned long\<close> and \<^verbatim>\<open>unsigned long long\<close> of 64 bits. The accumulator is kept in five
  limbs of 26 bits.
\<close>

section \<open>Definitions\<close>

type_synonym limbs = "u64 \<times> u64 \<times> u64 \<times> u64 \<times> u64"

record poly1305_state =
  poly_r :: limbs
  poly_h :: limbs
  poly_pad :: "u64 \<times> u64 \<times> u64 \<times> u64"
  leftover :: nat
  poly_buffer :: bytes
  poly_final :: bool

definition U8TO32 :: "bytes \<Rightarrow> u64" where
  "U8TO32 p =
     (ucast (p ! 0) AND 0xff) OR push_bit 8 (ucast (p ! 1) AND 0xff) OR
     push_bit 16 (ucast (p ! 2) AND 0xff) OR push_bit 24 (ucast (p ! 3) AND 0xff)"

definition U32TO8 :: "u64 \<Rightarrow> bytes" where
  "U32TO8 v = [ucast (v AND 0xff), ucast (drop_bit 8 v AND 0xff), ucast (drop_bit 16 v AND 0xff),
     ucast (drop_bit 24 v AND 0xff)]"

text \<open>\<open>junk\<close> is the uninitialised work buffer of the context.\<close>

definition poly1305_init :: "bytes \<Rightarrow> bytes \<Rightarrow> poly1305_state" where
  "poly1305_init junk key =
     \<lparr>poly_r = (U8TO32 (drop 0 key) AND 0x3ffffff,
                drop_bit 2 (U8TO32 (drop 3 key)) AND 0x3ffff03,
                drop_bit 4 (U8TO32 (drop 6 key)) AND 0x3ffc0ff,
                drop_bit 6 (U8TO32 (drop 9 key)) AND 0x3f03fff,
                drop_bit 8 (U8TO32 (drop 12 key)) AND 0x00fffff),
      poly_h = (0, 0, 0, 0, 0),
      poly_pad = (U8TO32 (drop 16 key), U8TO32 (drop 20 key),
                  U8TO32 (drop 24 key), U8TO32 (drop 28 key)),
      leftover = 0, poly_buffer = junk, poly_final = False\<rparr>"

text \<open>One iteration of the loop of \<^verbatim>\<open>poly1305_blocks\<close> on the 16 bytes at \<open>m\<close>.\<close>

definition poly1305_block :: "u64 \<Rightarrow> limbs \<Rightarrow> bytes \<Rightarrow> limbs \<Rightarrow> limbs" where
  "poly1305_block hibit r m h =
     (let (r0, r1, r2, r3, r4) = r;
          s1 = r1 * 5; s2 = r2 * 5; s3 = r3 * 5; s4 = r4 * 5;
          (h0, h1, h2, h3, h4) = h;
          h0 = h0 + (U8TO32 (drop 0 m) AND 0x3ffffff);
          h1 = h1 + (drop_bit 2 (U8TO32 (drop 3 m)) AND 0x3ffffff);
          h2 = h2 + (drop_bit 4 (U8TO32 (drop 6 m)) AND 0x3ffffff);
          h3 = h3 + (drop_bit 6 (U8TO32 (drop 9 m)) AND 0x3ffffff);
          h4 = h4 + (drop_bit 8 (U8TO32 (drop 12 m)) OR hibit);
          d0 = h0 * r0 + h1 * s4 + h2 * s3 + h3 * s2 + h4 * s1;
          d1 = h0 * r1 + h1 * r0 + h2 * s4 + h3 * s3 + h4 * s2;
          d2 = h0 * r2 + h1 * r1 + h2 * r0 + h3 * s4 + h4 * s3;
          d3 = h0 * r3 + h1 * r2 + h2 * r1 + h3 * r0 + h4 * s4;
          d4 = h0 * r4 + h1 * r3 + h2 * r2 + h3 * r1 + h4 * r0;
          c = drop_bit 26 d0; h0 = d0 AND 0x3ffffff;
          d1 = d1 + c; c = drop_bit 26 d1; h1 = d1 AND 0x3ffffff;
          d2 = d2 + c; c = drop_bit 26 d2; h2 = d2 AND 0x3ffffff;
          d3 = d3 + c; c = drop_bit 26 d3; h3 = d3 AND 0x3ffffff;
          d4 = d4 + c; c = drop_bit 26 d4; h4 = d4 AND 0x3ffffff;
          h0 = h0 + c * 5; c = drop_bit 26 h0; h0 = h0 AND 0x3ffffff;
          h1 = h1 + c
      in (h0, h1, h2, h3, h4))"

fun poly1305_blocks_loop :: "u64 \<Rightarrow> limbs \<Rightarrow> bytes \<Rightarrow> nat \<Rightarrow> limbs \<Rightarrow> limbs" where
  "poly1305_blocks_loop hibit r m n h =
     (if n \<ge> 16 then poly1305_blocks_loop hibit r (drop 16 m) (n - 16) (poly1305_block hibit r m h)
      else h)"

declare poly1305_blocks_loop.simps [simp del]

definition poly1305_blocks :: "poly1305_state \<Rightarrow> bytes \<Rightarrow> nat \<Rightarrow> poly1305_state" where
  "poly1305_blocks st m n =
     st\<lparr>poly_h := poly1305_blocks_loop (if poly_final st then 0 else push_bit 24 1) (poly_r st) m n
                    (poly_h st)\<rparr>"

definition poly1305_update :: "poly1305_state \<Rightarrow> bytes \<Rightarrow> poly1305_state" where
  "poly1305_update st m =
     (let (early, st, m) =
        (if leftover st \<noteq> 0 then
           let want = min (16 - leftover st) (length m);
               st = st\<lparr>poly_buffer := mem_write (leftover st) (take want m) (poly_buffer st)\<rparr>;
               m = drop want m;
               st = st\<lparr>leftover := leftover st + want\<rparr>
           in if leftover st < 16 then (True, st, m)
              else (False, (poly1305_blocks st (poly_buffer st) 16)\<lparr>leftover := 0\<rparr>, m)
         else (False, st, m))
      in if early then st
         else let (st, m) =
                (if length m \<ge> 16
                 then (let want = length m div 16 * 16 in (poly1305_blocks st m want, drop want m))
                 else (st, m))
              in if m \<noteq> []
                 then st\<lparr>poly_buffer := mem_write (leftover st) m (poly_buffer st),
                         leftover := leftover st + length m\<rparr>
                 else st)"

text \<open>The steps of \<^verbatim>\<open>poly1305_finish\<close>: the remaining block, the full carry, the reduction
  modulo \<open>2 ^ 130 - 5\<close> by a masked choice, and the packing into words with the pad added.\<close>

definition poly1305_last :: "poly1305_state \<Rightarrow> poly1305_state" where
  "poly1305_last st =
     (if leftover st \<noteq> 0 then
        let i = leftover st;
            b = mem_write i (1 # replicate (16 - (i + 1)) 0) (poly_buffer st);
            st = st\<lparr>poly_buffer := b, poly_final := True\<rparr>
        in poly1305_blocks st (poly_buffer st) 16
      else st)"

definition poly1305_carry :: "limbs \<Rightarrow> limbs" where
  "poly1305_carry h =
     (let (h0, h1, h2, h3, h4) = h;
          c = drop_bit 26 h1; h1 = h1 AND 0x3ffffff;
          h2 = h2 + c; c = drop_bit 26 h2; h2 = h2 AND 0x3ffffff;
          h3 = h3 + c; c = drop_bit 26 h3; h3 = h3 AND 0x3ffffff;
          h4 = h4 + c; c = drop_bit 26 h4; h4 = h4 AND 0x3ffffff;
          h0 = h0 + c * 5; c = drop_bit 26 h0; h0 = h0 AND 0x3ffffff;
          h1 = h1 + c
      in (h0, h1, h2, h3, h4))"

definition poly1305_minus_p :: "limbs \<Rightarrow> limbs" where
  "poly1305_minus_p h =
     (let (h0, h1, h2, h3, h4) = h;
          g0 = h0 + 5; c = drop_bit 26 g0; g0 = g0 AND 0x3ffffff;
          g1 = h1 + c; c = drop_bit 26 g1; g1 = g1 AND 0x3ffffff;
          g2 = h2 + c; c = drop_bit 26 g2; g2 = g2 AND 0x3ffffff;
          g3 = h3 + c; c = drop_bit 26 g3; g3 = g3 AND 0x3ffffff;
          g4 = h4 + c - push_bit 26 1
      in (g0, g1, g2, g3, g4))"

definition poly1305_select :: "limbs \<Rightarrow> limbs \<Rightarrow> limbs" where
  "poly1305_select h g =
     (let (h0, h1, h2, h3, h4) = h;
          (g0, g1, g2, g3, g4) = g;
          mk = drop_bit 63 g4 - 1;
          g0 = g0 AND mk; g1 = g1 AND mk; g2 = g2 AND mk; g3 = g3 AND mk; g4 = g4 AND mk;
          mk = NOT mk
      in ((h0 AND mk) OR g0, (h1 AND mk) OR g1, (h2 AND mk) OR g2, (h3 AND mk) OR g3,
          (h4 AND mk) OR g4))"

definition poly1305_pack :: "limbs \<Rightarrow> u64 \<times> u64 \<times> u64 \<times> u64" where
  "poly1305_pack h =
     (let (h0, h1, h2, h3, h4) = h in
      ((h0 OR push_bit 26 h1) AND 0xffffffff,
       (drop_bit 6 h1 OR push_bit 20 h2) AND 0xffffffff,
       (drop_bit 12 h2 OR push_bit 14 h3) AND 0xffffffff,
       (drop_bit 18 h3 OR push_bit 8 h4) AND 0xffffffff))"

definition poly1305_add_pad ::
  "u64 \<times> u64 \<times> u64 \<times> u64 \<Rightarrow> u64 \<times> u64 \<times> u64 \<times> u64 \<Rightarrow> u64 \<times> u64 \<times> u64 \<times> u64" where
  "poly1305_add_pad h pad =
     (let (h0, h1, h2, h3) = h;
          (p0, p1, p2, p3) = pad;
          f = h0 + p0; h0 = f;
          f = h1 + p1 + drop_bit 32 f; h1 = f;
          f = h2 + p2 + drop_bit 32 f; h2 = f;
          f = h3 + p3 + drop_bit 32 f; h3 = f
      in (h0, h1, h2, h3))"

definition poly1305_finish :: "poly1305_state \<Rightarrow> bytes" where
  "poly1305_finish st =
     (let st = poly1305_last st;
          h = poly1305_carry (poly_h st);
          h = poly1305_select h (poly1305_minus_p h);
          (h0, h1, h2, h3) = poly1305_add_pad (poly1305_pack h) (poly_pad st)
      in U32TO8 h0 @ U32TO8 h1 @ U32TO8 h2 @ U32TO8 h3)"

definition Poly1305_compute :: "bytes \<Rightarrow> bytes \<Rightarrow> bytes \<Rightarrow> bytes" where
  "Poly1305_compute junk key msg =
     poly1305_finish (poly1305_update (poly1305_init junk key) msg)"

lemma length_Poly1305_compute [simp]: "length (Poly1305_compute junk key msg) = 16"
  by (simp add: Poly1305_compute_def poly1305_finish_def U32TO8_def Let_def split: prod.splits)

end
