(* ===== verification/Poly1305Arith.thy ===== *)
theory Poly1305Arith
  imports Poly1305
begin

text \<open>
  Arithmetic of the five-limb accumulator of \<open>Poly1305\<close>: the words of the code are related to
  natural numbers, no intermediate sum or product overflows 64 bits, and multiplication, carrying,
  final reduction and packing are shown to compute modulo \<open>2 ^ 130 - 5\<close> and \<open>2 ^ 128\<close>.
\<close>

fun le_nat :: "bytes \<Rightarrow> nat" where
  "le_nat [] = 0"
| "le_nat (b # bs) = unat b + 256 * le_nat bs"

definition p1305 :: nat where "p1305 = 2 ^ 130 - 5"

lemma unat_and_26: "unat (x AND 0x3ffffff :: u64) = unat x mod 2 ^ 26"
proof -
  have "unat (take_bit 26 x) = take_bit 26 (unat x)" by (rule unsigned_take_bit_eq)
  moreover have "x AND 0x3ffffff = take_bit 26 x" by (simp add: take_bit_eq_mask mask_eq_exp_minus_1)
  ultimately show ?thesis by (simp only: take_bit_nat_def)
qed

lemma unat_shr: "unat (drop_bit n x :: u64) = unat x div 2 ^ n"
proof -
  have "unat x < 2 ^ 64" using unsigned_less [of x] by simp
  then have "unat (drop_bit n x) = drop_bit n (unat x)"
    by (simp only: unsigned_drop_bit_eq) (simp add: take_bit_nat_eq_self)
  then show ?thesis by (simp only: drop_bit_nat_def)
qed

lemma unat_add_small: "unat x + unat y < 2 ^ 64 \<Longrightarrow> unat (x + y :: u64) = unat x + unat y"
  by (simp add: unat_word_ariths)

lemma unat_mult_small: "unat x * unat y < 2 ^ 64 \<Longrightarrow> unat (x * y :: u64) = unat x * unat y"
  by (simp add: unat_word_ariths)

lemma prod_bound: "a < 2 ^ 28 \<Longrightarrow> b < 2 ^ 29 \<Longrightarrow> a * b < (2 ^ 57 :: nat)"
  using mult_strict_mono [of a "2 ^ 28" b "2 ^ 29"] by simp

lemma unat_dot5:
  fixes a0 a1 a2 a3 a4 b0 b1 b2 b3 b4 :: u64
  assumes "unat a0 < 2 ^ 28" "unat a1 < 2 ^ 28" "unat a2 < 2 ^ 28" "unat a3 < 2 ^ 28" "unat a4 < 2 ^ 28"
    and "unat b0 < 2 ^ 29" "unat b1 < 2 ^ 29" "unat b2 < 2 ^ 29" "unat b3 < 2 ^ 29" "unat b4 < 2 ^ 29"
  shows "unat (a0 * b0 + a1 * b1 + a2 * b2 + a3 * b3 + a4 * b4)
      = unat a0 * unat b0 + unat a1 * unat b1 + unat a2 * unat b2 + unat a3 * unat b3 + unat a4 * unat b4
    \<and> unat a0 * unat b0 + unat a1 * unat b1 + unat a2 * unat b2 + unat a3 * unat b3 + unat a4 * unat b4 < 2 ^ 60"
proof -
  let ?s = "unat a0 * unat b0 + unat a1 * unat b1 + unat a2 * unat b2 + unat a3 * unat b3 + unat a4 * unat b4"
  have s: "?s < 2 ^ 60"
    using prod_bound [OF assms(1,6)] prod_bound [OF assms(2,7)] prod_bound [OF assms(3,8)]
      prod_bound [OF assms(4,9)] prod_bound [OF assms(5,10)] by simp
  have "a0 * b0 + a1 * b1 + a2 * b2 + a3 * b3 + a4 * b4 = of_nat ?s" by simp
  then have "unat (a0 * b0 + a1 * b1 + a2 * b2 + a3 * b3 + a4 * b4) = ?s"
    using s by (simp only: unat_of_nat take_bit_eq_mod) simp
  with s show ?thesis by simp
qed

lemma mul_reduce:
  fixes h0 h1 h2 h3 h4 r0 r1 r2 r3 r4 :: nat
  defines "d0 \<equiv> h0 * r0 + h1 * (r4 * 5) + h2 * (r3 * 5) + h3 * (r2 * 5) + h4 * (r1 * 5)"
    and "d1 \<equiv> h0 * r1 + h1 * r0 + h2 * (r4 * 5) + h3 * (r3 * 5) + h4 * (r2 * 5)"
    and "d2 \<equiv> h0 * r2 + h1 * r1 + h2 * r0 + h3 * (r4 * 5) + h4 * (r3 * 5)"
    and "d3 \<equiv> h0 * r3 + h1 * r2 + h2 * r1 + h3 * r0 + h4 * (r4 * 5)"
    and "d4 \<equiv> h0 * r4 + h1 * r3 + h2 * r2 + h3 * r1 + h4 * r0"
  shows "(h0 + 2 ^ 26 * h1 + 2 ^ 52 * h2 + 2 ^ 78 * h3 + 2 ^ 104 * h4)
       * (r0 + 2 ^ 26 * r1 + 2 ^ 52 * r2 + 2 ^ 78 * r3 + 2 ^ 104 * r4)
     = (d0 + 2 ^ 26 * d1 + 2 ^ 52 * d2 + 2 ^ 78 * d3 + 2 ^ 104 * d4)
       + p1305 * (h1 * r4 + h2 * r3 + h3 * r2 + h4 * r1
           + 2 ^ 26 * (h2 * r4 + h3 * r3 + h4 * r2) + 2 ^ 52 * (h3 * r4 + h4 * r3) + 2 ^ 78 * (h4 * r4))"
  unfolding assms by (simp add: p1305_def algebra_simps)

lemma carry_reduce:
  fixes d0 d1 d2 d3 d4 :: nat
  assumes "d0 = 2 ^ 26 * c0 + l0" "d1 + c0 = 2 ^ 26 * c1 + l1" "d2 + c1 = 2 ^ 26 * c2 + l2"
    "d3 + c2 = 2 ^ 26 * c3 + l3" "d4 + c3 = 2 ^ 26 * c4 + l4" "l0 + c4 * 5 = 2 ^ 26 * c5 + k0"
  shows "d0 + 2 ^ 26 * d1 + 2 ^ 52 * d2 + 2 ^ 78 * d3 + 2 ^ 104 * d4
    = (k0 + 2 ^ 26 * (l1 + c5) + 2 ^ 52 * l2 + 2 ^ 78 * l3 + 2 ^ 104 * l4) + p1305 * c4"
  using assms by (simp add: p1305_def)

fun limbs_val :: "limbs \<Rightarrow> nat" where
  "limbs_val (h0, h1, h2, h3, h4) =
     unat h0 + 2 ^ 26 * unat h1 + 2 ^ 52 * unat h2 + 2 ^ 78 * unat h3 + 2 ^ 104 * unat h4"

fun limbs_ok :: "limbs \<Rightarrow> bool" where
  "limbs_ok (h0, h1, h2, h3, h4) \<longleftrightarrow>
     unat h0 < 2 ^ 26 \<and> unat h1 < 2 ^ 26 + 2 ^ 11 \<and> unat h2 < 2 ^ 26 \<and> unat h3 < 2 ^ 26 \<and> unat h4 < 2 ^ 26"

fun limbs_tight :: "limbs \<Rightarrow> bool" where
  "limbs_tight (h0, h1, h2, h3, h4) \<longleftrightarrow>
     unat h0 < 2 ^ 26 \<and> unat h1 < 2 ^ 26 \<and> unat h2 < 2 ^ 26 \<and> unat h3 < 2 ^ 26 \<and> unat h4 < 2 ^ 26"

lemma carry_step:
  assumes "unat d + unat c < 2 ^ 63"
  shows "unat d + unat c = 2 ^ 26 * unat (drop_bit 26 (d + c) :: u64) + unat ((d + c) AND 0x3ffffff :: u64)"
    and "unat ((d + c) AND 0x3ffffff :: u64) < 2 ^ 26"
    and "unat (drop_bit 26 (d + c) :: u64) \<le> (unat d + unat c) div 2 ^ 26"
  using assms by (simp_all add: unat_and_26 unat_shr unat_add_small)

text \<open>The multiplication and partial reduction, on limbs to which the message is already added.\<close>

lemma block_arith:
  fixes h0 h1 h2 h3 h4 r0 r1 r2 r3 r4 :: u64
  assumes h: "unat h0 < 2 ^ 28" "unat h1 < 2 ^ 28" "unat h2 < 2 ^ 28" "unat h3 < 2 ^ 28" "unat h4 < 2 ^ 28"
    and r: "unat r0 < 2 ^ 26" "unat r1 < 2 ^ 26" "unat r2 < 2 ^ 26" "unat r3 < 2 ^ 26" "unat r4 < 2 ^ 26"
    and d: "d0 = h0 * r0 + h1 * (r4 * 5) + h2 * (r3 * 5) + h3 * (r2 * 5) + h4 * (r1 * 5)"
      "d1 = h0 * r1 + h1 * r0 + h2 * (r4 * 5) + h3 * (r3 * 5) + h4 * (r2 * 5)"
      "d2 = h0 * r2 + h1 * r1 + h2 * r0 + h3 * (r4 * 5) + h4 * (r3 * 5)"
      "d3 = h0 * r3 + h1 * r2 + h2 * r1 + h3 * r0 + h4 * (r4 * 5)"
      "d4 = h0 * r4 + h1 * r3 + h2 * r2 + h3 * r1 + h4 * r0"
    and c: "c0 = drop_bit 26 d0" "c1 = drop_bit 26 (d1 + c0)" "c2 = drop_bit 26 (d2 + c1)"
      "c3 = drop_bit 26 (d3 + c2)" "c4 = drop_bit 26 (d4 + c3)"
      "c5 = drop_bit 26 ((d0 AND 0x3ffffff) + c4 * 5)"
    and res: "res = (((d0 AND 0x3ffffff) + c4 * 5) AND 0x3ffffff, ((d1 + c0) AND 0x3ffffff) + c5,
       (d2 + c1) AND 0x3ffffff, (d3 + c2) AND 0x3ffffff, (d4 + c3) AND 0x3ffffff)"
  shows "limbs_ok res \<and> limbs_val res mod p1305
    = (limbs_val (h0, h1, h2, h3, h4) * limbs_val (r0, r1, r2, r3, r4)) mod p1305"
proof -
  have r5: "unat (r1 * 5) = unat r1 * 5" "unat (r2 * 5) = unat r2 * 5" "unat (r3 * 5) = unat r3 * 5"
    "unat (r4 * 5) = unat r4 * 5"
    using r by (simp_all add: unat_mult_small)
  have rb: "unat r0 < 2 ^ 29" "unat r1 < 2 ^ 29" "unat r2 < 2 ^ 29" "unat r3 < 2 ^ 29" "unat r4 < 2 ^ 29"
    "unat (r1 * 5) < 2 ^ 29" "unat (r2 * 5) < 2 ^ 29" "unat (r3 * 5) < 2 ^ 29" "unat (r4 * 5) < 2 ^ 29"
    using r by (simp_all add: r5)
  note D0 = unat_dot5 [OF h rb(1,9,8,7,6), folded d, unfolded r5]
  note D1 = unat_dot5 [OF h rb(2,1,9,8,7), folded d, unfolded r5]
  note D2 = unat_dot5 [OF h rb(3,2,1,9,8), folded d, unfolded r5]
  note D3 = unat_dot5 [OF h rb(4,3,2,1,9), folded d, unfolded r5]
  note D4 = unat_dot5 [OF h rb(5,4,3,2,1), folded d, unfolded r5]
  have b: "unat d0 < 2 ^ 60" "unat d1 < 2 ^ 60" "unat d2 < 2 ^ 60" "unat d3 < 2 ^ 60" "unat d4 < 2 ^ 60"
    using D0 D1 D2 D3 D4 by simp_all
  have e0: "unat d0 = 2 ^ 26 * unat c0 + unat (d0 AND 0x3ffffff)" "unat c0 < 2 ^ 34"
    "unat (d0 AND 0x3ffffff) < 2 ^ 26"
    using carry_step [of d0 0] b by (simp_all add: c(1))
  note e1 = carry_step [of d1 c0, folded c]
  have b1: "unat c1 < 2 ^ 35" using e1(3) b e0 by simp
  note e2 = carry_step [of d2 c1, folded c]
  have b2: "unat c2 < 2 ^ 35" using e2(3) b b1 by simp
  note e3 = carry_step [of d3 c2, folded c]
  have b3: "unat c3 < 2 ^ 35" using e3(3) b b2 by simp
  note e4 = carry_step [of d4 c3, folded c]
  have b4: "unat c4 < 2 ^ 34 + 2 ^ 9" using e4(3) b b3 by simp
  have c45: "unat (c4 * 5) = unat c4 * 5" using b4 by (simp add: unat_mult_small)
  note e5 = carry_step [of "d0 AND 0x3ffffff" "c4 * 5", folded c, unfolded c45]
  have b5: "unat c5 < 2 ^ 11" using e5(3) b4 e0(3) by simp
  have h1': "unat (((d1 + c0) AND 0x3ffffff) + c5) = unat ((d1 + c0) AND 0x3ffffff) + unat c5"
    using e1(2) b b5 e0 by (intro unat_add_small) simp
  have ok: "limbs_ok res"
    using e1(2) e2(2) e3(2) e4(2) e5(2) b b1 b2 b3 b4 b5 e0 by (simp add: res h1')
  have "limbs_val (h0, h1, h2, h3, h4) * limbs_val (r0, r1, r2, r3, r4)
      = unat d0 + 2 ^ 26 * unat d1 + 2 ^ 52 * unat d2 + 2 ^ 78 * unat d3 + 2 ^ 104 * unat d4 + p1305 * K"
    if "K = unat h1 * unat r4 + unat h2 * unat r3 + unat h3 * unat r2 + unat h4 * unat r1
       + 2 ^ 26 * (unat h2 * unat r4 + unat h3 * unat r3 + unat h4 * unat r2)
       + 2 ^ 52 * (unat h3 * unat r4 + unat h4 * unat r3) + 2 ^ 78 * (unat h4 * unat r4)" for K
    using that D0 D1 D2 D3 D4 by (simp only: limbs_val.simps mul_reduce)
  then obtain K where K: "limbs_val (h0, h1, h2, h3, h4) * limbs_val (r0, r1, r2, r3, r4)
      = unat d0 + 2 ^ 26 * unat d1 + 2 ^ 52 * unat d2 + 2 ^ 78 * unat d3 + 2 ^ 104 * unat d4 + p1305 * K"
    by blast
  have "unat d0 + 2 ^ 26 * unat d1 + 2 ^ 52 * unat d2 + 2 ^ 78 * unat d3 + 2 ^ 104 * unat d4
      = limbs_val res + p1305 * unat c4"
    unfolding res limbs_val.simps h1'
    by (rule carry_reduce [OF e0(1) e1(1) e2(1) e3(1) e4(1) e5(1)])
      (use b b1 b2 b3 b4 e0 in simp_all)
  then have "limbs_val (h0, h1, h2, h3, h4) * limbs_val (r0, r1, r2, r3, r4)
      = limbs_val res + p1305 * (unat c4 + K)"
    using K by (simp only: distrib_left add.assoc)
  with ok show ?thesis by simp
qed

lemma word_small_bits: "unat (x :: u64) < 2 ^ n \<Longrightarrow> bit x k \<Longrightarrow> k < n"
proof -
  assume "unat x < 2 ^ n" "bit x k"
  have "unat (take_bit n x) = take_bit n (unat x)" by (rule unsigned_take_bit_eq)
  also have "\<dots> = unat x" using \<open>unat x < 2 ^ n\<close> by (rule take_bit_nat_eq_self)
  finally have "take_bit n x = x" by (simp add: word_unat_eq_iff)
  with \<open>bit x k\<close> have "bit (take_bit n x) k" by simp
  then show "k < n" by (simp add: bit_simps)
qed

lemma unat_or_push:
  assumes "unat x < 2 ^ n" and "2 ^ n * unat y < 2 ^ 64"
  shows "unat (x OR push_bit n y :: u64) = unat x + 2 ^ n * unat y"
proof -
  have p: "unat (push_bit n y) = 2 ^ n * unat y"
  proof -
    have "unat (push_bit n y) = take_bit 64 (push_bit n (unat y))"
      by (simp only: unsigned_push_bit_eq) simp
    also have "push_bit n (unat y) = 2 ^ n * unat y" by (simp add: push_bit_nat_def mult.commute)
    also have "take_bit 64 (2 ^ n * unat y) = 2 ^ n * unat y"
      using assms(2) by (rule take_bit_nat_eq_self)
    finally show ?thesis .
  qed
  have "x + push_bit n y = x OR push_bit n y"
    by (rule disjunctive_add) (use word_small_bits [OF assms(1)] in \<open>auto simp: bit_simps not_le\<close>)
  moreover have "unat x + unat (push_bit n y) < 2 ^ 64"
  proof (cases "unat y = 0")
    case True
    then show ?thesis using p unsigned_less [of x] by simp
  next
    case False
    have "n < 64"
    proof (rule ccontr)
      assume "\<not> n < 64"
      then have "(2 :: nat) ^ 64 \<le> 2 ^ n" by (intro power_increasing) simp_all
      with False assms(2) show False by (metis le_trans linorder_not_le mult_le_mono2 nat_mult_1_right not_less_eq_eq One_nat_def bot_nat_0.not_eq_extremum Suc_leI)
    qed
    have "2 ^ n * (unat y + 1) \<le> (2 ^ 64 :: nat)"
    proof -
      have "unat y < 2 ^ (64 - n)"
        using assms(2) \<open>n < 64\<close> by (metis less_imp_le_nat le_add_diff_inverse nat_mult_less_cancel_disj power_add)
      then have "unat y + 1 \<le> 2 ^ (64 - n)" by simp
      then have "2 ^ n * (unat y + 1) \<le> 2 ^ n * 2 ^ (64 - n)" by (rule mult_le_mono2)
      also have "\<dots> = 2 ^ 64" using \<open>n < 64\<close> by (simp flip: power_add)
      finally show ?thesis .
    qed
    with assms(1) p show ?thesis by (simp add: algebra_simps)
  qed
  ultimately show ?thesis using p unat_add_small [of x "push_bit n y"] by simp
qed

lemma unat_byte_less: "unat (b :: byte) < 256"
  using unsigned_less [of b] by simp

lemma unat_ucast_byte: "unat (ucast (b :: byte) :: u64) = unat b"
  using unat_byte_less [of b] by (simp add: unsigned_ucast_eq take_bit_nat_eq_self)

lemma unat_U8TO32:
  "unat (U8TO32 (a # b # c # d # r)) = unat a + 2 ^ 8 * unat b + 2 ^ 16 * unat c + 2 ^ 24 * unat d"
proof -
  let ?A = "ucast a :: u64" and ?B = "ucast b :: u64" and ?C = "ucast c :: u64" and ?D = "ucast d :: u64"
  have u: "unat ?A = unat a" "unat ?B = unat b" "unat ?C = unat c" "unat ?D = unat d"
    by (simp_all add: unat_ucast_byte)
  note lt = unat_byte_less [of a] unat_byte_less [of b] unat_byte_less [of c] unat_byte_less [of d]
  define cd where "cd = ?C OR push_bit 8 ?D"
  have cd: "unat cd = unat c + 2 ^ 8 * unat d"
    using lt unfolding cd_def by (subst unat_or_push) (simp_all add: u)
  define bcd where "bcd = ?B OR push_bit 8 cd"
  have bcd: "unat bcd = unat b + 2 ^ 8 * unat c + 2 ^ 16 * unat d"
    using lt unfolding bcd_def by (subst unat_or_push) (simp_all add: u cd)
  have "unat (?A OR push_bit 8 bcd) = unat a + 2 ^ 8 * unat b + 2 ^ 16 * unat c + 2 ^ 24 * unat d"
    using lt by (subst unat_or_push) (simp_all add: u bcd)
  moreover have "U8TO32 (a # b # c # d # r) = ?A OR push_bit 8 bcd"
    by (simp add: U8TO32_def cd_def bcd_def push_bit_or)
  ultimately show ?thesis by simp
qed

lemma limb_split:
  fixes b0 :: nat
  assumes "b0 < 256" "b1 < 256" "b2 < 256" "b3 < 256" "b4 < 256" "b5 < 256" "b6 < 256" "b7 < 256"
    "b8 < 256" "b9 < 256" "b10 < 256" "b11 < 256" "b12 < 256" "b13 < 256" "b14 < 256" "b15 < 256"
  shows "(b0 + 2 ^ 8 * b1 + 2 ^ 16 * b2 + 2 ^ 24 * b3) mod 2 ^ 26
    + 2 ^ 26 * ((b3 + 2 ^ 8 * b4 + 2 ^ 16 * b5 + 2 ^ 24 * b6) div 2 ^ 2 mod 2 ^ 26)
    + 2 ^ 52 * ((b6 + 2 ^ 8 * b7 + 2 ^ 16 * b8 + 2 ^ 24 * b9) div 2 ^ 4 mod 2 ^ 26)
    + 2 ^ 78 * ((b9 + 2 ^ 8 * b10 + 2 ^ 16 * b11 + 2 ^ 24 * b12) div 2 ^ 6 mod 2 ^ 26)
    + 2 ^ 104 * ((b12 + 2 ^ 8 * b13 + 2 ^ 16 * b14 + 2 ^ 24 * b15) div 2 ^ 8)
   = b0 + 2 ^ 8 * (b1 + 2 ^ 8 * (b2 + 2 ^ 8 * (b3 + 2 ^ 8 * (b4 + 2 ^ 8 * (b5 + 2 ^ 8 * (b6 + 2 ^ 8 * (b7
    + 2 ^ 8 * (b8 + 2 ^ 8 * (b9 + 2 ^ 8 * (b10 + 2 ^ 8 * (b11 + 2 ^ 8 * (b12 + 2 ^ 8 * (b13 + 2 ^ 8 * (b14
    + 2 ^ 8 * b15))))))))))))))"
proof -
  have split: "(x + 2 ^ m * b) mod 2 ^ (m + k) = x + 2 ^ m * (b mod 2 ^ k)" if "x < 2 ^ m" for x b m k :: nat
    using that by (simp add: power_add mod_mult2_eq)
  have l0: "(b0 + 2 ^ 8 * b1 + 2 ^ 16 * b2 + 2 ^ 24 * b3) mod 2 ^ 26
      = b0 + 2 ^ 8 * b1 + 2 ^ 16 * b2 + 2 ^ 24 * (b3 mod 2 ^ 2)"
    using split [of "b0 + 2 ^ 8 * b1 + 2 ^ 16 * b2" 24 b3 2] assms by simp
  have "(b3 + 2 ^ 8 * b4 + 2 ^ 16 * b5 + 2 ^ 24 * b6) div 2 ^ 2
      = b3 div 2 ^ 2 + 2 ^ 6 * b4 + 2 ^ 14 * b5 + 2 ^ 22 * b6"
    using div_mult_self2 [of "2 ^ 2" b3 "2 ^ 6 * b4 + 2 ^ 14 * b5 + 2 ^ 22 * b6"] by simp
  then have l1: "(b3 + 2 ^ 8 * b4 + 2 ^ 16 * b5 + 2 ^ 24 * b6) div 2 ^ 2 mod 2 ^ 26
      = b3 div 2 ^ 2 + 2 ^ 6 * b4 + 2 ^ 14 * b5 + 2 ^ 22 * (b6 mod 2 ^ 4)"
    using split [of "b3 div 2 ^ 2 + 2 ^ 6 * b4 + 2 ^ 14 * b5" 22 b6 4] assms by simp
  have "(b6 + 2 ^ 8 * b7 + 2 ^ 16 * b8 + 2 ^ 24 * b9) div 2 ^ 4
      = b6 div 2 ^ 4 + 2 ^ 4 * b7 + 2 ^ 12 * b8 + 2 ^ 20 * b9"
    using div_mult_self2 [of "2 ^ 4" b6 "2 ^ 4 * b7 + 2 ^ 12 * b8 + 2 ^ 20 * b9"] by simp
  then have l2: "(b6 + 2 ^ 8 * b7 + 2 ^ 16 * b8 + 2 ^ 24 * b9) div 2 ^ 4 mod 2 ^ 26
      = b6 div 2 ^ 4 + 2 ^ 4 * b7 + 2 ^ 12 * b8 + 2 ^ 20 * (b9 mod 2 ^ 6)"
    using split [of "b6 div 2 ^ 4 + 2 ^ 4 * b7 + 2 ^ 12 * b8" 20 b9 6] assms by simp
  have "(b9 + 2 ^ 8 * b10 + 2 ^ 16 * b11 + 2 ^ 24 * b12) div 2 ^ 6
      = b9 div 2 ^ 6 + 2 ^ 2 * b10 + 2 ^ 10 * b11 + 2 ^ 18 * b12"
    using div_mult_self2 [of "2 ^ 6" b9 "2 ^ 2 * b10 + 2 ^ 10 * b11 + 2 ^ 18 * b12"] by simp
  then have l3: "(b9 + 2 ^ 8 * b10 + 2 ^ 16 * b11 + 2 ^ 24 * b12) div 2 ^ 6 mod 2 ^ 26
      = b9 div 2 ^ 6 + 2 ^ 2 * b10 + 2 ^ 10 * b11 + 2 ^ 18 * b12"
    using assms by simp
  have l4: "(b12 + 2 ^ 8 * b13 + 2 ^ 16 * b14 + 2 ^ 24 * b15) div 2 ^ 8 = b13 + 2 ^ 8 * b14 + 2 ^ 16 * b15"
    using div_mult_self2 [of "2 ^ 8" b12 "b13 + 2 ^ 8 * b14 + 2 ^ 16 * b15"] assms by simp
  define q3 q6 q9 p3 p6 p9 where "q3 = b3 div 2 ^ 2" "q6 = b6 div 2 ^ 4" "q9 = b9 div 2 ^ 6"
    "p3 = b3 mod 2 ^ 2" "p6 = b6 mod 2 ^ 4" "p9 = b9 mod 2 ^ 6"
  then have b: "b3 = 2 ^ 2 * q3 + p3" "b6 = 2 ^ 4 * q6 + p6" "b9 = 2 ^ 6 * q9 + p9"
    by (simp_all only: mult_div_mod_eq)
  show ?thesis
    unfolding l0 l1 l2 l3 l4 unfolding q3_q6_q9_p3_p6_p9_def [symmetric] unfolding b
    by (simp add: algebra_simps)
qed

text \<open>The five limbs of a 16-byte block hold its little-endian value.\<close>

definition block_limbs :: "u64 \<Rightarrow> bytes \<Rightarrow> limbs" where
  "block_limbs hibit m =
     (U8TO32 (drop 0 m) AND 0x3ffffff, drop_bit 2 (U8TO32 (drop 3 m)) AND 0x3ffffff,
      drop_bit 4 (U8TO32 (drop 6 m)) AND 0x3ffffff, drop_bit 6 (U8TO32 (drop 9 m)) AND 0x3ffffff,
      drop_bit 8 (U8TO32 (drop 12 m)) OR hibit)"

lemma block_limbs_val:
  assumes "length m = 16" and hb: "hibit = 0 \<or> hibit = push_bit 24 1"
  shows "limbs_val (block_limbs hibit m) = le_nat m + 2 ^ 104 * unat hibit
    \<and> limbs_tight (block_limbs hibit m)"
proof -
  obtain b0 b1 b2 b3 b4 b5 b6 b7 b8 b9 b10 b11 b12 b13 b14 b15
    where m: "m = [b0, b1, b2, b3, b4, b5, b6, b7, b8, b9, b10, b11, b12, b13, b14, b15]"
    using list16 [OF assms(1)] by blast
  define w where "w = drop_bit 8 (U8TO32 (drop 12 m))"
  have w: "unat w = unat b13 + 2 ^ 8 * unat b14 + 2 ^ 16 * unat b15"
    using unat_byte_less [of b12] by (simp add: w_def m unat_shr unat_U8TO32)
  then have wb: "unat w < 2 ^ 24"
    using unat_byte_less [of b13] unat_byte_less [of b14] unat_byte_less [of b15] by simp
  have hi: "unat (w OR hibit) = unat w + unat hibit"
    using hb unat_or_push [of w 24 1] wb by auto
  note lt = unat_byte_less [of b0] unat_byte_less [of b1] unat_byte_less [of b2] unat_byte_less [of b3]
    unat_byte_less [of b4] unat_byte_less [of b5] unat_byte_less [of b6] unat_byte_less [of b7]
    unat_byte_less [of b8] unat_byte_less [of b9] unat_byte_less [of b10] unat_byte_less [of b11]
    unat_byte_less [of b12] unat_byte_less [of b13] unat_byte_less [of b14] unat_byte_less [of b15]
  have dr: "drop 0 m = b0 # b1 # b2 # b3 # drop 4 m" "drop 3 m = b3 # b4 # b5 # b6 # drop 7 m"
    "drop 6 m = b6 # b7 # b8 # b9 # drop 10 m" "drop 9 m = b9 # b10 # b11 # b12 # drop 13 m"
    "drop 12 m = b12 # b13 # b14 # b15 # drop 16 m"
    by (simp_all add: m)
  have u: "unat (U8TO32 (drop 0 m) AND 0x3ffffff)
      = (unat b0 + 2 ^ 8 * unat b1 + 2 ^ 16 * unat b2 + 2 ^ 24 * unat b3) mod 2 ^ 26"
    "unat (drop_bit 2 (U8TO32 (drop 3 m)) AND 0x3ffffff)
      = (unat b3 + 2 ^ 8 * unat b4 + 2 ^ 16 * unat b5 + 2 ^ 24 * unat b6) div 2 ^ 2 mod 2 ^ 26"
    "unat (drop_bit 4 (U8TO32 (drop 6 m)) AND 0x3ffffff)
      = (unat b6 + 2 ^ 8 * unat b7 + 2 ^ 16 * unat b8 + 2 ^ 24 * unat b9) div 2 ^ 4 mod 2 ^ 26"
    "unat (drop_bit 6 (U8TO32 (drop 9 m)) AND 0x3ffffff)
      = (unat b9 + 2 ^ 8 * unat b10 + 2 ^ 16 * unat b11 + 2 ^ 24 * unat b12) div 2 ^ 6 mod 2 ^ 26"
    unfolding unat_and_26 unat_shr by (simp_all only: dr unat_U8TO32)
  have u4: "unat w = (unat b12 + 2 ^ 8 * unat b13 + 2 ^ 16 * unat b14 + 2 ^ 24 * unat b15) div 2 ^ 8"
    unfolding w_def unat_shr by (simp only: dr unat_U8TO32)
  have le: "le_nat m = unat b0 + 2 ^ 8 * (unat b1 + 2 ^ 8 * (unat b2 + 2 ^ 8 * (unat b3 + 2 ^ 8 * (unat b4
      + 2 ^ 8 * (unat b5 + 2 ^ 8 * (unat b6 + 2 ^ 8 * (unat b7 + 2 ^ 8 * (unat b8 + 2 ^ 8 * (unat b9
      + 2 ^ 8 * (unat b10 + 2 ^ 8 * (unat b11 + 2 ^ 8 * (unat b12 + 2 ^ 8 * (unat b13 + 2 ^ 8 * (unat b14
      + 2 ^ 8 * unat b15))))))))))))))"
    by (simp add: m)
  have "limbs_val (block_limbs hibit m) = le_nat m + 2 ^ 104 * unat hibit"
    unfolding block_limbs_def w_def [symmetric] limbs_val.simps u hi u4 distrib_left
    unfolding le limb_split [OF lt, symmetric] by (simp only: add.assoc)
  moreover have "unat (w OR hibit) < 2 ^ 26"
    using hb hi wb by auto
  ultimately show ?thesis
    unfolding block_limbs_def w_def [symmetric] by (simp add: unat_and_26)
qed

lemma block_limbs_take: "16 \<le> length m \<Longrightarrow> block_limbs hibit (take 16 m) = block_limbs hibit m"
  by (simp add: block_limbs_def U8TO32_def)

lemma limbs_val_add:
  assumes "limbs_ok (h0, h1, h2, h3, h4)" "limbs_tight (m0, m1, m2, m3, m4)"
  shows "limbs_val (h0 + m0, h1 + m1, h2 + m2, h3 + m3, h4 + m4)
      = limbs_val (h0, h1, h2, h3, h4) + limbs_val (m0, m1, m2, m3, m4)
    \<and> unat (h0 + m0) < 2 ^ 28 \<and> unat (h1 + m1) < 2 ^ 28 \<and> unat (h2 + m2) < 2 ^ 28
    \<and> unat (h3 + m3) < 2 ^ 28 \<and> unat (h4 + m4) < 2 ^ 28"
  using assms by (simp add: unat_add_small distrib_left)

lemma poly1305_block_val:
  assumes h: "limbs_ok h" and r: "limbs_tight r" and m: "16 \<le> length m"
    and hb: "hibit = 0 \<or> hibit = push_bit 24 1"
  shows "limbs_ok (poly1305_block hibit r m h)
    \<and> limbs_val (poly1305_block hibit r m h) mod p1305
      = ((limbs_val h + (le_nat (take 16 m) + 2 ^ 104 * unat hibit)) * limbs_val r) mod p1305"
proof -
  obtain h0 h1 h2 h3 h4 where h': "h = (h0, h1, h2, h3, h4)" by (cases h)
  obtain r0 r1 r2 r3 r4 where r': "r = (r0, r1, r2, r3, r4)" by (cases r)
  obtain m0 m1 m2 m3 m4 where m': "block_limbs hibit m = (m0, m1, m2, m3, m4)"
    by (cases "block_limbs hibit m")
  have mv: "limbs_val (m0, m1, m2, m3, m4) = le_nat (take 16 m) + 2 ^ 104 * unat hibit"
    "limbs_tight (m0, m1, m2, m3, m4)"
    using block_limbs_val [of "take 16 m" hibit] m hb block_limbs_take [OF m, of hibit] m' by simp_all
  note add = limbs_val_add [OF h [unfolded h'] mv(2)]
  have rb: "unat r0 < 2 ^ 26" "unat r1 < 2 ^ 26" "unat r2 < 2 ^ 26" "unat r3 < 2 ^ 26" "unat r4 < 2 ^ 26"
    using r by (simp_all add: r')
  have hb: "unat (h0 + m0) < 2 ^ 28" "unat (h1 + m1) < 2 ^ 28" "unat (h2 + m2) < 2 ^ 28"
    "unat (h3 + m3) < 2 ^ 28" "unat (h4 + m4) < 2 ^ 28"
    using add by blast+
  note A = block_arith [OF hb rb refl refl refl refl refl refl refl refl refl refl refl]
  have goal: "poly1305_block hibit r m h = res \<Longrightarrow> ?thesis"
    if "limbs_ok res \<and> limbs_val res mod p1305 =
      (limbs_val (h0 + m0, h1 + m1, h2 + m2, h3 + m3, h4 + m4) * limbs_val (r0, r1, r2, r3, r4)) mod p1305" for res
    using that add mv by (simp only: h' r')
  show ?thesis
    by (rule goal [OF A [OF refl]])
      (use m' [unfolded block_limbs_def prod.inject] in \<open>simp only: poly1305_block_def Let_def prod.case h' r'\<close>)
qed

function poly_acc :: "nat \<Rightarrow> nat \<Rightarrow> bytes \<Rightarrow> nat" where
  "poly_acc r a m =
     (if m = [] then a
      else poly_acc r ((a + le_nat (take 16 m @ [1])) * r mod p1305) (drop 16 m))"
  by pat_completeness auto
termination by (relation "measure (\<lambda>(r, a, m). length m)") auto

declare poly_acc.simps [simp del]

lemma poly_acc_Nil [simp]: "poly_acc r a [] = a"
  by (simp add: poly_acc.simps)

lemma poly_acc_step:
  "m \<noteq> [] \<Longrightarrow> poly_acc r a m = poly_acc r ((a + le_nat (take 16 m @ [1])) * r mod p1305) (drop 16 m)"
  by (simp add: poly_acc.simps [of r a m])

lemma le_nat_append: "le_nat (xs @ ys) = le_nat xs + 256 ^ length xs * le_nat ys"
  by (induction xs) (simp_all add: algebra_simps)

lemma poly_acc_append:
  "length xs = 16 * k \<Longrightarrow> poly_acc r a (xs @ ys) = poly_acc r (poly_acc r a xs) ys"
proof (induction k arbitrary: a xs)
  case (Suc k)
  then have "xs \<noteq> []" "take 16 (xs @ ys) = take 16 xs" "drop 16 (xs @ ys) = drop 16 xs @ ys"
    by auto
  then show ?case using Suc by (simp add: poly_acc_step)
qed simp

lemma poly_acc_mod: "m \<noteq> [] \<Longrightarrow> poly_acc r (a mod p1305) m = poly_acc r a m"
proof -
  have "((a mod p1305 + x) * r) mod p1305 = ((a + x) * r) mod p1305" for x
    by (metis mod_add_left_eq mod_mult_left_eq)
  then show "m \<noteq> [] \<Longrightarrow> ?thesis" by (simp add: poly_acc_step)
qed

lemma blocks_loop_val:
  assumes "n \<le> length m" and "n = 16 * k" and "limbs_ok h" and "limbs_tight r"
  shows "limbs_ok (poly1305_blocks_loop (push_bit 24 1) r m n h)
    \<and> limbs_val (poly1305_blocks_loop (push_bit 24 1) r m n h) mod p1305
      = poly_acc (limbs_val r) (limbs_val h mod p1305) (take n m) mod p1305"
  using assms
proof (induction k arbitrary: n m h)
  case 0
  then show ?case by (simp add: poly1305_blocks_loop.simps)
next
  case (Suc k)
  let ?b = "poly1305_block (push_bit 24 1) r m h"
  let ?x = "le_nat (take 16 (take n m) @ [1])"
  have "m \<noteq> []" "take 16 (take n m) = take 16 m" "drop 16 (take n m) = take (n - 16) (drop 16 m)"
    using Suc.prems by (auto simp: drop_take min_def)
  have b: "limbs_ok ?b"
    "limbs_val ?b mod p1305 = ((limbs_val h + (le_nat (take 16 m) + 2 ^ 104 * unat (push_bit 24 1 :: u64))) * limbs_val r) mod p1305"
    using poly1305_block_val [of h r m "push_bit 24 1"] Suc.prems by simp_all
  have x: "?x = le_nat (take 16 m) + 2 ^ 104 * unat (push_bit 24 1 :: u64)"
    using Suc.prems \<open>take 16 (take n m) = take 16 m\<close> by (simp add: le_nat_append)
  have step: "limbs_val ?b mod p1305 = ((limbs_val h mod p1305 + ?x) * limbs_val r) mod p1305"
    unfolding b(2) x by (metis mod_add_left_eq mod_mult_left_eq)
  have "poly1305_blocks_loop (push_bit 24 1) r m n h
      = poly1305_blocks_loop (push_bit 24 1) r (drop 16 m) (n - 16) ?b"
    using Suc.prems by (simp add: poly1305_blocks_loop.simps [of _ r m])
  moreover have "poly_acc (limbs_val r) (limbs_val h mod p1305) (take n m)
      = poly_acc (limbs_val r) (limbs_val ?b mod p1305) (take (n - 16) (drop 16 m))"
    unfolding step \<open>drop 16 (take n m) = _\<close> [symmetric]
    by (rule poly_acc_step) (use Suc.prems in auto)
  ultimately show ?case
    using Suc.IH [of "n - 16" "drop 16 m" ?b] Suc.prems b(1) by simp
qed

lemma poly1305_carry_val:
  assumes "limbs_ok h"
  shows "limbs_tight (poly1305_carry h)
    \<and> limbs_val (poly1305_carry h) mod p1305 = limbs_val h mod p1305"
proof -
  obtain h0 h1 h2 h3 h4 where h: "h = (h0, h1, h2, h3, h4)" by (cases h)
  have hb: "unat h0 < 2 ^ 26" "unat h1 < 2 ^ 26 + 2 ^ 11" "unat h2 < 2 ^ 26" "unat h3 < 2 ^ 26" "unat h4 < 2 ^ 26"
    using assms by (simp_all add: h)
  define c1 where "c1 = drop_bit 26 h1"
  define c2 where "c2 = drop_bit 26 (h2 + c1)"
  define c3 where "c3 = drop_bit 26 (h3 + c2)"
  define c4 where "c4 = drop_bit 26 (h4 + c3)"
  define c5 where "c5 = drop_bit 26 (h0 + c4 * 5)"
  have e1: "unat h1 = 2 ^ 26 * unat c1 + unat (h1 AND 0x3ffffff)" "unat (h1 AND 0x3ffffff) < 2 ^ 26" "unat c1 \<le> 1"
    using carry_step [of h1 0] hb by (simp_all add: c1_def)
  have e2: "unat h2 + unat c1 = 2 ^ 26 * unat c2 + unat ((h2 + c1) AND 0x3ffffff)"
    "unat ((h2 + c1) AND 0x3ffffff) < 2 ^ 26" "unat c2 \<le> unat c1"
    using carry_step [of h2 c1] hb e1 by (simp_all add: c2_def)
  have e3: "unat h3 + unat c2 = 2 ^ 26 * unat c3 + unat ((h3 + c2) AND 0x3ffffff)"
    "unat ((h3 + c2) AND 0x3ffffff) < 2 ^ 26" "unat c3 \<le> unat c2"
    using carry_step [of h3 c2] hb e1(3) e2(3) by (simp_all add: c3_def)
  have e4: "unat h4 + unat c3 = 2 ^ 26 * unat c4 + unat ((h4 + c3) AND 0x3ffffff)"
    "unat ((h4 + c3) AND 0x3ffffff) < 2 ^ 26" "unat c4 \<le> unat c3"
    using carry_step [of h4 c3] hb e1(3) e2(3) e3(3) by (simp_all add: c4_def)
  have c45: "unat (c4 * 5) = unat c4 * 5"
    using unat_mult_small [of c4 5] e1(3) e2(3) e3(3) e4(3) by simp
  have e5: "unat h0 + unat c4 * 5 = 2 ^ 26 * unat c5 + unat ((h0 + c4 * 5) AND 0x3ffffff)"
    "unat ((h0 + c4 * 5) AND 0x3ffffff) < 2 ^ 26" "unat c5 \<le> unat c4"
    using carry_step [of h0 "c4 * 5"] hb c45 e1(3) e2(3) e3(3) e4(3) by (simp_all add: c5_def)
  have tight: "unat (h1 AND 0x3ffffff) + unat c5 < 2 ^ 26"
    using e1 e2(3) e3(3) e4(3) e5(3) hb by simp
  then have s: "unat ((h1 AND 0x3ffffff) + c5) = unat (h1 AND 0x3ffffff) + unat c5"
    by (intro unat_add_small) simp
  have res: "poly1305_carry h = ((h0 + c4 * 5) AND 0x3ffffff, (h1 AND 0x3ffffff) + c5,
      (h2 + c1) AND 0x3ffffff, (h3 + c2) AND 0x3ffffff, (h4 + c3) AND 0x3ffffff)"
    unfolding c5_def c4_def c3_def c2_def c1_def by (simp only: poly1305_carry_def h Let_def prod.case)
  have "limbs_val h = limbs_val (poly1305_carry h) + p1305 * unat c4"
    unfolding res unfolding h limbs_val.simps s using e1(1) e2(1) e3(1) e4(1) e5(1) by (simp add: p1305_def)
  moreover have "limbs_tight (poly1305_carry h)"
    unfolding res limbs_tight.simps s using tight e2(2) e3(2) e4(2) e5(2) by blast
  ultimately show ?thesis by simp
qed

lemma select_val:
  assumes "limbs_tight h"
  shows "limbs_tight (poly1305_select h (poly1305_minus_p h))
    \<and> limbs_val (poly1305_select h (poly1305_minus_p h)) = limbs_val h mod p1305"
proof -
  obtain h0 h1 h2 h3 h4 where h: "h = (h0, h1, h2, h3, h4)" by (cases h)
  have hb: "unat h0 < 2 ^ 26" "unat h1 < 2 ^ 26" "unat h2 < 2 ^ 26" "unat h3 < 2 ^ 26" "unat h4 < 2 ^ 26"
    using assms by (simp_all add: h)
  define c0 where "c0 = drop_bit 26 (h0 + 5)"
  define c1 where "c1 = drop_bit 26 (h1 + c0)"
  define c2 where "c2 = drop_bit 26 (h2 + c1)"
  define c3 where "c3 = drop_bit 26 (h3 + c2)"
  define g4 where "g4 = h4 + c3 - push_bit 26 1"
  define g where "g = ((h0 + 5) AND 0x3ffffff, (h1 + c0) AND 0x3ffffff, (h2 + c1) AND 0x3ffffff,
    (h3 + c2) AND 0x3ffffff, g4)"
  have g: "poly1305_minus_p h = g"
    unfolding g_def g4_def c3_def c2_def c1_def c0_def
    by (simp only: poly1305_minus_p_def h Let_def prod.case)
  have e0: "unat h0 + 5 = 2 ^ 26 * unat c0 + unat ((h0 + 5) AND 0x3ffffff)"
    "unat ((h0 + 5) AND 0x3ffffff) < 2 ^ 26" "unat c0 \<le> 1"
    using carry_step [of h0 5] hb by (simp_all add: c0_def)
  have e1: "unat h1 + unat c0 = 2 ^ 26 * unat c1 + unat ((h1 + c0) AND 0x3ffffff)"
    "unat ((h1 + c0) AND 0x3ffffff) < 2 ^ 26" "unat c1 \<le> 1"
    using carry_step [of h1 c0] hb e0 by (simp_all add: c1_def)
  have e2: "unat h2 + unat c1 = 2 ^ 26 * unat c2 + unat ((h2 + c1) AND 0x3ffffff)"
    "unat ((h2 + c1) AND 0x3ffffff) < 2 ^ 26" "unat c2 \<le> 1"
    using carry_step [of h2 c1] hb e1(3) by (simp_all add: c2_def)
  have e3: "unat h3 + unat c2 = 2 ^ 26 * unat c3 + unat ((h3 + c2) AND 0x3ffffff)"
    "unat ((h3 + c2) AND 0x3ffffff) < 2 ^ 26" "unat c3 \<le> 1"
    using carry_step [of h3 c2] hb e2(3) by (simp_all add: c3_def)
  have sum: "unat (h4 + c3) = unat h4 + unat c3" using hb e3(3) by (intro unat_add_small) simp
  have val: "limbs_val h + 5 = unat ((h0 + 5) AND 0x3ffffff) + 2 ^ 26 * unat ((h1 + c0) AND 0x3ffffff)
      + 2 ^ 52 * unat ((h2 + c1) AND 0x3ffffff) + 2 ^ 78 * unat ((h3 + c2) AND 0x3ffffff)
      + 2 ^ 104 * (unat h4 + unat c3)"
    unfolding h limbs_val.simps using e0(1) e1(1) e2(1) e3(1) by simp
  show ?thesis
  proof (cases "2 ^ 26 \<le> unat h4 + unat c3")
    case True
    have "push_bit 26 1 \<le> h4 + c3" using True sum by (simp add: word_le_nat_alt)
    then have g4: "unat g4 = unat h4 + unat c3 - 2 ^ 26"
      using sum by (simp add: g4_def unat_sub)
    then have small: "unat g4 < 2 ^ 26" using hb e3(3) by simp
    have "unat (drop_bit 63 g4) = 0" unfolding unat_shr using small by simp
    then have "drop_bit 63 g4 = 0" by (simp only: unat_eq_0)
    then have sel: "poly1305_select h g = g"
      by (simp add: poly1305_select_def h g_def Let_def)
    have "limbs_val g = limbs_val h - p1305" "p1305 \<le> limbs_val h"
      using val True unfolding g_def limbs_val.simps g4 by (simp_all add: p1305_def)
    moreover have "limbs_val h < 2 * p1305" using hb by (simp add: h p1305_def)
    ultimately have "limbs_val g = limbs_val h mod p1305"
      by (simp add: le_mod_geq)
    moreover have "limbs_tight g" using small e0 e1 e2 e3 by (simp add: g_def)
    ultimately show ?thesis by (simp add: g sel)
  next
    case False
    have "limbs_val h < p1305"
      using val False e0(2) e1(2) e2(2) e3(2) by (simp add: p1305_def)
    have "\<not> push_bit 26 1 \<le> h4 + c3" using False sum by (simp add: word_le_nat_alt)
    have "unat g4 = (unat (h4 + c3) + (2 ^ 64 - 2 ^ 26)) mod 2 ^ 64"
    proof -
      have "g4 = h4 + c3 + of_nat (2 ^ 64 - 2 ^ 26)" by (simp add: g4_def)
      then show ?thesis by (simp add: unat_word_ariths)
    qed
    then have g4: "unat g4 = unat h4 + unat c3 + (2 ^ 64 - 2 ^ 26)" using False sum by simp
    then have "unat (drop_bit 63 g4) = 1" unfolding unat_shr using False by (simp add: div_nat_eqI)
    then have "drop_bit 63 g4 = 1" by (simp only: word_unat_eq_iff unsigned_1)
    then have sel: "poly1305_select h g = h"
      by (simp add: poly1305_select_def h g_def Let_def)
    with \<open>limbs_val h < p1305\<close> assms show ?thesis by (simp add: g)
  qed
qed

lemma unat_and_32: "unat (x AND 0xffffffff :: u64) = unat x mod 2 ^ 32"
proof -
  have "unat (take_bit 32 x) = take_bit 32 (unat x)" by (rule unsigned_take_bit_eq)
  moreover have "x AND 0xffffffff = take_bit 32 x" by (simp add: take_bit_eq_mask mask_eq_exp_minus_1)
  ultimately show ?thesis by (simp only: take_bit_nat_def)
qed

lemma mod_split: "x < 2 ^ m \<Longrightarrow> (x + 2 ^ m * b) mod 2 ^ (m + k) = x + 2 ^ m * (b mod 2 ^ k)"
  for x b m k :: nat
  by (simp add: power_add mod_mult2_eq)

lemma pack_nat:
  fixes h0 h1 h2 h3 h4 :: nat
  assumes "h0 < 2 ^ 26" "h1 < 2 ^ 26" "h2 < 2 ^ 26" "h3 < 2 ^ 26" "h4 < 2 ^ 26"
  shows "(h0 + 2 ^ 26 * h1) mod 2 ^ 32 + 2 ^ 32 * ((h1 div 2 ^ 6 + 2 ^ 20 * h2) mod 2 ^ 32)
    + 2 ^ 64 * ((h2 div 2 ^ 12 + 2 ^ 14 * h3) mod 2 ^ 32) + 2 ^ 96 * ((h3 div 2 ^ 18 + 2 ^ 8 * h4) mod 2 ^ 32)
    = (h0 + 2 ^ 26 * h1 + 2 ^ 52 * h2 + 2 ^ 78 * h3 + 2 ^ 104 * h4) mod 2 ^ 128"
proof -
  define q1 q2 q3 q4 p1 p2 p3 p4 where q: "q1 = h1 div 2 ^ 6" "q2 = h2 div 2 ^ 12" "q3 = h3 div 2 ^ 18"
    "q4 = h4 div 2 ^ 24" "p1 = h1 mod 2 ^ 6" "p2 = h2 mod 2 ^ 12" "p3 = h3 mod 2 ^ 18" "p4 = h4 mod 2 ^ 24"
  then have h: "h1 = 2 ^ 6 * q1 + p1" "h2 = 2 ^ 12 * q2 + p2" "h3 = 2 ^ 18 * q3 + p3" "h4 = 2 ^ 24 * q4 + p4"
    by (simp_all only: mult_div_mod_eq)
  have p: "p1 < 2 ^ 6" "p2 < 2 ^ 12" "p3 < 2 ^ 18" "p4 < 2 ^ 24" "q1 < 2 ^ 20" "q2 < 2 ^ 14" "q3 < 2 ^ 8"
    using assms by (simp_all add: q)
  have w: "(h0 + 2 ^ 26 * h1) mod 2 ^ 32 = h0 + 2 ^ 26 * p1"
    "(q1 + 2 ^ 20 * h2) mod 2 ^ 32 = q1 + 2 ^ 20 * p2"
    "(q2 + 2 ^ 14 * h3) mod 2 ^ 32 = q2 + 2 ^ 14 * p3"
    "(q3 + 2 ^ 8 * h4) mod 2 ^ 32 = q3 + 2 ^ 8 * p4"
    using mod_split [of h0 26 h1 6] mod_split [of q1 20 h2 12] mod_split [of q2 14 h3 18]
      mod_split [of q3 8 h4 24] assms p by (simp_all add: q(5-8))
  let ?x = "h0 + 2 ^ 26 * h1 + 2 ^ 52 * h2 + 2 ^ 78 * h3"
  have "?x < 2 ^ 104" using assms by simp
  then have "(?x + 2 ^ 104 * h4) mod 2 ^ 128 = ?x + 2 ^ 104 * p4"
    using mod_split [of ?x 104 h4 24] by (simp add: q)
  moreover have "h0 + 2 ^ 26 * p1 + 2 ^ 32 * (q1 + 2 ^ 20 * p2) + 2 ^ 64 * (q2 + 2 ^ 14 * p3)
      + 2 ^ 96 * (q3 + 2 ^ 8 * p4) = ?x + 2 ^ 104 * p4"
    unfolding h(1-3) by (simp add: algebra_simps)
  ultimately show ?thesis unfolding q(1-3) [symmetric] w by simp
qed

fun words_val :: "u64 \<times> u64 \<times> u64 \<times> u64 \<Rightarrow> nat" where
  "words_val (w0, w1, w2, w3) = unat w0 + 2 ^ 32 * unat w1 + 2 ^ 64 * unat w2 + 2 ^ 96 * unat w3"

fun words_ok :: "u64 \<times> u64 \<times> u64 \<times> u64 \<Rightarrow> bool" where
  "words_ok (w0, w1, w2, w3) \<longleftrightarrow> unat w0 < 2 ^ 32 \<and> unat w1 < 2 ^ 32 \<and> unat w2 < 2 ^ 32 \<and> unat w3 < 2 ^ 32"

lemma pack_val:
  assumes "limbs_tight h"
  shows "words_ok (poly1305_pack h) \<and> words_val (poly1305_pack h) = limbs_val h mod 2 ^ 128"
proof -
  obtain h0 h1 h2 h3 h4 where h: "h = (h0, h1, h2, h3, h4)" by (cases h)
  have hb: "unat h0 < 2 ^ 26" "unat h1 < 2 ^ 26" "unat h2 < 2 ^ 26" "unat h3 < 2 ^ 26" "unat h4 < 2 ^ 26"
    using assms by (simp_all add: h)
  have "unat (h0 OR push_bit 26 h1) = unat h0 + 2 ^ 26 * unat h1"
    "unat (drop_bit 6 h1 OR push_bit 20 h2) = unat h1 div 2 ^ 6 + 2 ^ 20 * unat h2"
    "unat (drop_bit 12 h2 OR push_bit 14 h3) = unat h2 div 2 ^ 12 + 2 ^ 14 * unat h3"
    "unat (drop_bit 18 h3 OR push_bit 8 h4) = unat h3 div 2 ^ 18 + 2 ^ 8 * unat h4"
    using unat_or_push [of h0 26 h1] unat_or_push [of "drop_bit 6 h1" 20 h2]
      unat_or_push [of "drop_bit 12 h2" 14 h3] unat_or_push [of "drop_bit 18 h3" 8 h4] hb
    by (simp_all add: unat_shr del: drop_bit_or push_bit_or)
  then have "words_val (poly1305_pack h) = limbs_val h mod 2 ^ 128"
    using pack_nat [OF hb] by (simp only: h poly1305_pack_def Let_def prod.case words_val.simps unat_and_32 limbs_val.simps)
  moreover have "words_ok (poly1305_pack h)"
    by (simp only: h poly1305_pack_def Let_def prod.case words_ok.simps unat_and_32) simp
  ultimately show ?thesis by simp
qed

lemma le_nat_U32TO8: "le_nat (U32TO8 v) = unat v mod 2 ^ 32"
proof -
  have b: "unat (ucast (drop_bit n v AND 0xff) :: byte) = unat v div 2 ^ n mod 2 ^ 8" for n
  proof -
    have "unat (ucast (drop_bit n v) :: byte) = take_bit 8 (unat (drop_bit n v))"
      by (simp only: unsigned_ucast_eq) simp
    then show ?thesis by (simp only: ucast_and_ff unat_shr take_bit_nat_def)
  qed
  let ?v = "unat v"
  have "le_nat (U32TO8 v) = ?v mod 2 ^ 8 + 2 ^ 8 * (?v div 2 ^ 8 mod 2 ^ 8 + 2 ^ 8 * (?v div 2 ^ 16 mod 2 ^ 8
      + 2 ^ 8 * (?v div 2 ^ 24 mod 2 ^ 8)))"
    using b [of 0] by (simp add: U32TO8_def b del: ucast_and_ff)
  moreover have "?v mod 2 ^ 32 = 2 ^ 8 * (2 ^ 8 * (2 ^ 8 * (?v div 2 ^ 24 mod 2 ^ 8) + ?v div 2 ^ 16 mod 2 ^ 8) + ?v div 2 ^ 8 mod 2 ^ 8) + ?v mod 2 ^ 8"
    using mod_mult2_eq [of ?v "2 ^ 8" "2 ^ 24"] mod_mult2_eq [of "?v div 2 ^ 8" "2 ^ 8" "2 ^ 16"]
      mod_mult2_eq [of "?v div 2 ^ 16" "2 ^ 8" "2 ^ 8"]
    by (simp add: div_mult2_eq [symmetric])
  ultimately show ?thesis by simp
qed

end
