(* ===== verification/Poly1305Correct.thy ===== *)
theory Poly1305Correct
  imports Poly1305Arith
begin

text \<open>
  Functional correctness of \<^verbatim>\<open>Poly1305::compute\<close> against the definition of the authenticator:
  the message is cut into blocks of 16 bytes, each extended by a one byte and read as a
  little-endian number, and evaluated as a polynomial at the clamped key modulo \<open>2 ^ 130 - 5\<close>.
\<close>

lemma add_pad_val:
  assumes "words_ok w" and "words_ok p"
  shows "(case poly1305_add_pad w p of (x0, x1, x2, x3) \<Rightarrow>
      le_nat (U32TO8 x0 @ U32TO8 x1 @ U32TO8 x2 @ U32TO8 x3)) = (words_val w + words_val p) mod 2 ^ 128"
proof -
  obtain w0 w1 w2 w3 where w: "w = (w0, w1, w2, w3)" by (cases w)
  obtain p0 p1 p2 p3 where p: "p = (p0, p1, p2, p3)" by (cases p)
  define f0 where "f0 = w0 + p0"
  define f1 where "f1 = w1 + p1 + drop_bit 32 f0"
  define f2 where "f2 = w2 + p2 + drop_bit 32 f1"
  define f3 where "f3 = w3 + p3 + drop_bit 32 f2"
  have wb: "unat w0 < 2 ^ 32" "unat w1 < 2 ^ 32" "unat w2 < 2 ^ 32" "unat w3 < 2 ^ 32"
    "unat p0 < 2 ^ 32" "unat p1 < 2 ^ 32" "unat p2 < 2 ^ 32" "unat p3 < 2 ^ 32"
    using assms by (simp_all add: w p)
  have f0: "unat f0 = unat w0 + unat p0"
    using wb by (simp add: f0_def unat_add_small)
  have f1: "unat f1 = unat w1 + unat p1 + unat f0 div 2 ^ 32"
    using wb f0 by (simp add: f1_def unat_add_small unat_shr)
  have f1b: "unat f1 < 2 ^ 34" using wb f1 f0 by simp
  have f2: "unat f2 = unat w2 + unat p2 + unat f1 div 2 ^ 32"
    using wb f1b by (simp add: f2_def unat_add_small unat_shr)
  have f2b: "unat f2 < 2 ^ 34" using wb f2 f1b by simp
  have f3: "unat f3 = unat w3 + unat p3 + unat f2 div 2 ^ 32"
    using wb f2b by (simp add: f3_def unat_add_small unat_shr)
  define X where "X = unat f0 mod 2 ^ 32 + 2 ^ 32 * (unat f1 mod 2 ^ 32) + 2 ^ 64 * (unat f2 mod 2 ^ 32)"
  have "unat f0 mod 2 ^ 32 < 2 ^ 32" "unat f1 mod 2 ^ 32 < 2 ^ 32" "unat f2 mod 2 ^ 32 < 2 ^ 32"
    by simp_all
  then have X: "X < 2 ^ 96" by (simp add: X_def)
  have d: "unat f0 = 2 ^ 32 * (unat f0 div 2 ^ 32) + unat f0 mod 2 ^ 32"
    "unat f1 = 2 ^ 32 * (unat f1 div 2 ^ 32) + unat f1 mod 2 ^ 32"
    "unat f2 = 2 ^ 32 * (unat f2 div 2 ^ 32) + unat f2 mod 2 ^ 32"
    by (simp_all only: mult_div_mod_eq)
  define a0 a1 a2 where a: "a0 = unat f0 div 2 ^ 32" "a1 = unat f1 div 2 ^ 32" "a2 = unat f2 div 2 ^ 32"
  define b0 b1 b2 where b: "b0 = unat f0 mod 2 ^ 32" "b1 = unat f1 mod 2 ^ 32" "b2 = unat f2 mod 2 ^ 32"
  have "words_val w + words_val p = X + 2 ^ 96 * unat f3"
    using d [folded a b] f0 f1 f2 f3 unfolding X_def a [symmetric] b [symmetric] w p words_val.simps by simp
  then have "(words_val w + words_val p) mod 2 ^ 128 = X + 2 ^ 96 * (unat f3 mod 2 ^ 32)"
    using mod_split [OF X, of "unat f3" 32] by simp
  moreover have "poly1305_add_pad w p = (f0, f1, f2, f3)"
    unfolding f3_def f2_def f1_def f0_def by (simp only: poly1305_add_pad_def w p Let_def prod.case)
  moreover have "length (U32TO8 v) = 4" for v by (simp add: U32TO8_def)
  ultimately show ?thesis
    by (simp add: le_nat_append le_nat_U32TO8 X_def)
qed

lemma update_init:
  fixes junk key m :: bytes
  defines "n \<equiv> length m div 16 * 16"
    and "st \<equiv> poly1305_update (poly1305_init junk key) m"
  shows "poly_h st = poly1305_blocks_loop (push_bit 24 1) (poly_r (poly1305_init junk key)) m n (0, 0, 0, 0, 0)"
    and "leftover st = length (drop n m)"
    and "poly_buffer st = mem_write 0 (drop n m) junk"
    and "poly_r st = poly_r (poly1305_init junk key)"
    and "poly_pad st = poly_pad (poly1305_init junk key)"
proof -
  have n: "length m < 16 \<Longrightarrow> n = 0" by (simp add: n_def)
  have "length m \<ge> 16 \<Longrightarrow> n = length m div 16 * 16" by (simp add: n_def)
  show "poly_h st = poly1305_blocks_loop (push_bit 24 1) (poly_r (poly1305_init junk key)) m n (0, 0, 0, 0, 0)"
    "leftover st = length (drop n m)" "poly_buffer st = mem_write 0 (drop n m) junk"
    "poly_r st = poly_r (poly1305_init junk key)" "poly_pad st = poly_pad (poly1305_init junk key)"
    using n unfolding st_def poly1305_update_def
    by (auto simp: poly1305_init_def poly1305_blocks_def Let_def n_def [symmetric]
        poly1305_blocks_loop.simps [of _ _ m 0] mem_write_def)
qed

lemma last_block:
  assumes "length junk = 16" and "length rest < 16"
  shows "mem_write (length rest) (1 # replicate (16 - (length rest + 1)) 0) (mem_write 0 rest junk)
    = rest @ 1 # replicate (15 - length rest) 0"
  using assms by (simp add: mem_write_def)

lemma le_nat_zeros: "le_nat (xs @ replicate k 0) = le_nat xs"
proof -
  have "le_nat (replicate k 0) = 0" by (induction k) simp_all
  then show ?thesis by (simp add: le_nat_append)
qed

lemma last_val:
  assumes "limbs_ok (poly_h st)" and "limbs_tight (poly_r st)" and "length junk = 16"
    and "leftover st = length rest" and "length rest < 16" and "poly_buffer st = mem_write 0 rest junk"
  shows "limbs_ok (poly_h (poly1305_last st))
    \<and> limbs_val (poly_h (poly1305_last st)) mod p1305
      = poly_acc (limbs_val (poly_r st)) (limbs_val (poly_h st)) rest mod p1305
    \<and> poly_pad (poly1305_last st) = poly_pad st"
proof (cases "rest = []")
  case True
  with assms show ?thesis by (simp add: poly1305_last_def)
next
  case False
  let ?b = "rest @ 1 # replicate (15 - length rest) 0 :: bytes"
  have "poly_h (poly1305_last st) = poly1305_block 0 (poly_r st) ?b (poly_h st)"
    using assms False last_block [OF assms(3,5)]
    by (simp add: poly1305_last_def poly1305_blocks_def Let_def poly1305_blocks_loop.simps)
  moreover have "le_nat (take 16 ?b) = le_nat (take 16 rest @ [1])"
    using assms(5) le_nat_zeros [of "rest @ [1]" "15 - length rest"] by simp
  moreover have "poly_acc (limbs_val (poly_r st)) (limbs_val (poly_h st)) rest
      = (limbs_val (poly_h st) + le_nat (take 16 rest @ [1])) * limbs_val (poly_r st) mod p1305"
    using False assms(5) by (simp add: poly_acc_step)
  ultimately show ?thesis
    using poly1305_block_val [of "poly_h st" "poly_r st" ?b 0] assms
    by (simp add: poly1305_last_def poly1305_blocks_def Let_def)
qed

definition clamp :: "bytes \<Rightarrow> bytes" where
  "clamp k = k[3 := k ! 3 AND 15, 4 := k ! 4 AND 252, 7 := k ! 7 AND 15, 8 := k ! 8 AND 252,
     11 := k ! 11 AND 15, 12 := k ! 12 AND 252, 15 := k ! 15 AND 15]"

lemma bit_u64_all:
  assumes "list_all (\<lambda>n. bit (x :: u64) n = P n) [0..<64]" and "\<And>n. P n \<Longrightarrow> n < 64"
  shows "bit x n = P n"
proof (cases "n < 64")
  case False
  then show ?thesis using assms(2) [of n] bit_imp_le_length [of x n] by auto
qed (use assms(1) in \<open>simp add: list_all_iff\<close>)

lemma bit_u8_all:
  assumes "list_all (\<lambda>n. bit (x :: byte) n = P n) [0..<8]" and "\<And>n. P n \<Longrightarrow> n < 8"
  shows "bit x n = P n"
proof (cases "n < 8")
  case False
  then show ?thesis using assms(2) [of n] bit_byte_less [of x n] by auto
qed (use assms(1) in \<open>simp add: list_all_iff\<close>)

lemma clamp_bits:
  "bit (0x3ffffff :: u64) n \<longleftrightarrow> n < 26"
  "bit (0x3ffff03 :: u64) n \<longleftrightarrow> n < 2 \<or> 8 \<le> n \<and> n < 26"
  "bit (0x3ffc0ff :: u64) n \<longleftrightarrow> n < 8 \<or> 14 \<le> n \<and> n < 26"
  "bit (0x3f03fff :: u64) n \<longleftrightarrow> n < 14 \<or> 20 \<le> n \<and> n < 26"
  "bit (0x00fffff :: u64) n \<longleftrightarrow> n < 20"
  "bit (15 :: byte) n \<longleftrightarrow> n < 4"
  "bit (3 :: byte) n \<longleftrightarrow> n < 2"
  "bit (252 :: byte) n \<longleftrightarrow> 2 \<le> n \<and> n < 8"
  by (rule bit_u64_all bit_u8_all, code_simp, (force)[1])+

lemma bit_byte_and: "bit (x AND y :: byte) n \<longleftrightarrow> n < 8 \<and> bit x n \<and> bit y n"
  by (auto simp: bit_simps dest: bit_byte_less)

lemma bit_U8TO32:
  "n < 64 \<Longrightarrow> bit (U8TO32 (a # b # c # d # r)) n \<longleftrightarrow>
     (if n < 8 then bit a n else if n < 16 then bit b (n - 8) else if n < 24 then bit c (n - 16)
      else n < 32 \<and> bit d (n - 24))"
  by (auto simp: U8TO32_def bit_simps dest: bit_byte_less)

lemma bit_limb:
  "n < 64 \<Longrightarrow> bit (drop_bit k (U8TO32 p) AND x :: u64) n \<longleftrightarrow> k + n < 64 \<and> bit (U8TO32 p) (k + n) \<and> bit x n"
  by (auto simp: bit_simps dest: bit_imp_le_length)

lemma bit_limb0:
  "n < 64 \<Longrightarrow> bit (U8TO32 p AND x :: u64) n \<longleftrightarrow> bit (U8TO32 p) n \<and> bit x n"
  by (simp add: bit_simps)

lemma bit_limb4:
  "n < 64 \<Longrightarrow> bit (drop_bit k (U8TO32 p) :: u64) n \<longleftrightarrow> k + n < 64 \<and> bit (U8TO32 p) (k + n)"
  by (auto simp: bit_simps dest: bit_imp_le_length)

lemmas limb_bits = bit_limb bit_limb0 bit_limb4 bit_U8TO32 bit_byte_and clamp_bits

lemma clamp_limb0: "U8TO32 [a, b, c, d] AND 0x3ffffff = U8TO32 [a, b, c, d AND 15] AND 0x3ffffff"
  by (rule bit_word_eqI) (auto simp: limb_bits simp del: bit_numeral_word_iff split: if_splits)

lemma clamp_limb1: "drop_bit 2 (U8TO32 [a, b, c, d]) AND 0x3ffff03
    = drop_bit 2 (U8TO32 [a AND 15, b AND 252, c, d]) AND 0x3ffffff"
  by (rule bit_word_eqI) (auto simp: limb_bits simp del: bit_numeral_word_iff split: if_splits)

lemma clamp_limb2: "drop_bit 4 (U8TO32 [a, b, c, d]) AND 0x3ffc0ff
    = drop_bit 4 (U8TO32 [a, b AND 15, c AND 252, d]) AND 0x3ffffff"
  by (rule bit_word_eqI) (auto simp: limb_bits simp del: bit_numeral_word_iff split: if_splits)

lemma clamp_limb3: "drop_bit 6 (U8TO32 [a, b, c, d]) AND 0x3f03fff
    = drop_bit 6 (U8TO32 [a, b, c AND 15, d AND 252]) AND 0x3ffffff"
  by (rule bit_word_eqI) (auto simp: limb_bits simp del: bit_numeral_word_iff split: if_splits)

lemma clamp_limb4: "drop_bit 8 (U8TO32 [a, b, c, d]) AND 0x00fffff
    = drop_bit 8 (U8TO32 [a AND 252, b, c, d AND 15])"
  by (rule bit_word_eqI) (auto simp: limb_bits simp del: bit_numeral_word_iff split: if_splits)

lemma poly1305_init_r:
  assumes "length k = 16"
  shows "poly_r (poly1305_init junk (k @ s)) = block_limbs 0 (clamp k)"
proof -
  obtain b0 b1 b2 b3 b4 b5 b6 b7 b8 b9 b10 b11 b12 b13 b14 b15
    where k: "k = [b0, b1, b2, b3, b4, b5, b6, b7, b8, b9, b10, b11, b12, b13, b14, b15]"
    using list16 [OF assms] by blast
  have key: "U8TO32 (drop 0 (k @ s)) = U8TO32 [b0, b1, b2, b3]"
    "U8TO32 (drop 3 (k @ s)) = U8TO32 [b3, b4, b5, b6]"
    "U8TO32 (drop 6 (k @ s)) = U8TO32 [b6, b7, b8, b9]"
    "U8TO32 (drop 9 (k @ s)) = U8TO32 [b9, b10, b11, b12]"
    "U8TO32 (drop 12 (k @ s)) = U8TO32 [b12, b13, b14, b15]"
    by (simp_all add: k U8TO32_def)
  have cl: "U8TO32 (drop 0 (clamp k)) = U8TO32 [b0, b1, b2, b3 AND 15]"
    "U8TO32 (drop 3 (clamp k)) = U8TO32 [b3 AND 15, b4 AND 252, b5, b6]"
    "U8TO32 (drop 6 (clamp k)) = U8TO32 [b6, b7 AND 15, b8 AND 252, b9]"
    "U8TO32 (drop 9 (clamp k)) = U8TO32 [b9, b10, b11 AND 15, b12 AND 252]"
    "U8TO32 (drop 12 (clamp k)) = U8TO32 [b12 AND 252, b13, b14, b15 AND 15]"
    by (simp_all add: k clamp_def U8TO32_def)
  show ?thesis
    by (simp only: poly1305_init_def poly1305_state.select_convs block_limbs_def key cl
        clamp_limb0 [of b0 b1 b2 b3] clamp_limb1 clamp_limb2 clamp_limb3 clamp_limb4 or.right_neutral)
qed

lemma poly1305_init_pad:
  assumes "length k = 16" and "length s = 16"
  shows "words_ok (poly_pad (poly1305_init junk (k @ s)))
    \<and> words_val (poly_pad (poly1305_init junk (k @ s))) = le_nat s"
proof -
  obtain b0 b1 b2 b3 b4 b5 b6 b7 b8 b9 b10 b11 b12 b13 b14 b15
    where s: "s = [b0, b1, b2, b3, b4, b5, b6, b7, b8, b9, b10, b11, b12, b13, b14, b15]"
    using list16 [OF assms(2)] by blast
  have dr: "drop 16 (k @ s) = b0 # b1 # b2 # b3 # drop 4 s" "drop 20 (k @ s) = b4 # b5 # b6 # b7 # drop 8 s"
    "drop 24 (k @ s) = b8 # b9 # b10 # b11 # drop 12 s" "drop 28 (k @ s) = b12 # b13 # b14 # b15 # drop 16 s"
    using assms(1) by (simp_all add: s)
  have pad: "poly_pad (poly1305_init junk (k @ s)) =
      (U8TO32 (b0 # b1 # b2 # b3 # drop 4 s), U8TO32 (b4 # b5 # b6 # b7 # drop 8 s),
       U8TO32 (b8 # b9 # b10 # b11 # drop 12 s), U8TO32 (b12 # b13 # b14 # b15 # drop 16 s))"
    by (simp only: poly1305_init_def poly1305_state.select_convs dr)
  have w: "unat a + 2 ^ 8 * unat b + 2 ^ 16 * unat c + 2 ^ 24 * unat d < 2 ^ 32" for a b c d :: byte
    using unat_byte_less [of a] unat_byte_less [of b] unat_byte_less [of c] unat_byte_less [of d] by simp
  show ?thesis
    unfolding pad words_ok.simps words_val.simps unat_U8TO32 using w by (simp add: s)
qed

definition poly1305_spec :: "bytes \<Rightarrow> bytes \<Rightarrow> nat" where
  "poly1305_spec key m =
     (poly_acc (le_nat (clamp (take 16 key))) 0 m mod p1305 + le_nat (drop 16 key)) mod 2 ^ 128"

lemma compute_val:
  assumes key: "length key = 32" and junk: "length junk = 16"
  shows "le_nat (Poly1305_compute junk key m) = poly1305_spec key m"
proof -
  let ?k = "take 16 key" and ?s = "drop 16 key"
  have ks: "?k @ ?s = key" "length ?k = 16" "length ?s = 16" using key by simp_all
  define n where "n = length m div 16 * 16"
  define st where "st = poly1305_update (poly1305_init junk key) m"
  note up = update_init [where junk = junk and key = key and m = m, folded n_def st_def]
  have r: "poly_r st = block_limbs 0 (clamp ?k)"
    using poly1305_init_r [OF ks(2), of junk ?s] up(4) by (simp only: ks)
  have lc: "length (clamp ?k) = 16" using ks(2) by (simp add: clamp_def)
  have R: "limbs_val (poly_r st) = le_nat (clamp ?k)" "limbs_tight (poly_r st)"
    using block_limbs_val [OF lc, of 0] by (simp_all add: r)
  have z: "limbs_ok (0, 0, 0, 0, 0)" "limbs_val (0, 0, 0, 0, 0) = 0" by simp_all
  have h: "limbs_ok (poly_h st)"
    "limbs_val (poly_h st) mod p1305 = poly_acc (le_nat (clamp ?k)) 0 (take n m) mod p1305"
    using blocks_loop_val [of n m "length m div 16" "(0, 0, 0, 0, 0)" "poly_r st"] R up(1,4) z
    by (simp_all add: n_def mult.commute)
  have n: "length (take n m) = 16 * (length m div 16)" "length (drop n m) < 16"
    by (simp_all add: n_def mult.commute minus_mult_div_eq_mod)
  have l: "limbs_ok (poly_h (poly1305_last st))"
    "limbs_val (poly_h (poly1305_last st)) mod p1305
      = poly_acc (le_nat (clamp ?k)) (limbs_val (poly_h st)) (drop n m) mod p1305"
    "poly_pad (poly1305_last st) = poly_pad st"
    using last_val [OF h(1) R(2) junk up(2) n(2) up(3)] R(1) by simp_all
  have "poly_acc (le_nat (clamp ?k)) (limbs_val (poly_h st)) (drop n m) mod p1305
      = poly_acc (le_nat (clamp ?k)) (poly_acc (le_nat (clamp ?k)) 0 (take n m)) (drop n m) mod p1305"
    using h(2) poly_acc_mod by (cases "drop n m = []") (simp, metis)
  also have "\<dots> = poly_acc (le_nat (clamp ?k)) 0 m mod p1305"
    using poly_acc_append [OF n(1), of "le_nat (clamp ?k)" 0 "drop n m"] by simp
  finally have acc: "limbs_val (poly_h (poly1305_last st)) mod p1305 = poly_acc (le_nat (clamp ?k)) 0 m mod p1305"
    using l(2) by simp
  define g where "g = poly1305_carry (poly_h (poly1305_last st))"
  define f where "f = poly1305_select g (poly1305_minus_p g)"
  have "limbs_tight f" "limbs_val f = poly_acc (le_nat (clamp ?k)) 0 m mod p1305"
    using poly1305_carry_val [OF l(1)] select_val [of g] acc by (simp_all add: g_def f_def)
  note pk = pack_val [OF this(1)] this(2)
  have pad: "words_ok (poly_pad st)" "words_val (poly_pad st) = le_nat ?s"
    using poly1305_init_pad [OF ks(2,3), of junk] up(5) by (simp_all only: ks)
  have "le_nat (poly1305_finish st) = (words_val (poly1305_pack f) + words_val (poly_pad st)) mod 2 ^ 128"
    using add_pad_val [of "poly1305_pack f" "poly_pad st"] pk pad(1)
    by (simp add: poly1305_finish_def Let_def l(3) flip: g_def f_def split: prod.splits)
  then show ?thesis
    unfolding Poly1305_compute_def poly1305_spec_def st_def [symmetric]
    using pk pad(2) by (simp add: mod_add_left_eq)
qed

lemma le_nat_inject: "length xs = length ys \<Longrightarrow> le_nat xs = le_nat ys \<longleftrightarrow> xs = ys"
proof (induction xs ys rule: list_induct2)
  case (Cons x xs y ys)
  have "unat x + 256 * a = unat y + 256 * b \<longleftrightarrow> unat x = unat y \<and> a = b" for a b :: nat
  proof
    assume e: "unat x + 256 * a = unat y + 256 * b"
    have "(unat x + 256 * a) mod 256 = unat x" "(unat x + 256 * a) div 256 = a"
      "(unat y + 256 * b) mod 256 = unat y" "(unat y + 256 * b) div 256 = b"
      using unat_byte_less [of x] unat_byte_less [of y] by simp_all
    with e show "unat x = unat y \<and> a = b" by metis
  qed simp
  with Cons show ?case by (simp add: word_unat_eq_iff)
qed simp

text \<open>The tag does not depend on what was in the uninitialised work buffer.\<close>

lemma Poly1305_compute_junk:
  assumes "length key = 32" and "length junk = 16" and "length junk' = 16"
  shows "Poly1305_compute junk key m = Poly1305_compute junk' key m"
  using compute_val [OF assms(1,2), of m] compute_val [OF assms(1,3), of m]
    le_nat_inject [of "Poly1305_compute junk key m" "Poly1305_compute junk' key m"] by simp

text \<open>
  C4. For every key and message, the limb arithmetic of \<^verbatim>\<open>Poly1305::compute\<close> yields the sixteen
  bytes of the tag that the authenticator is defined to have.
\<close>

theorem Poly1305_compute_correct:
  assumes "length key = 32" and "length junk = 16"
  shows "length (Poly1305_compute junk key m) = 16
    \<and> le_nat (Poly1305_compute junk key m) = poly1305_spec key m"
  using compute_val [OF assms] by simp

theorem Poly1305_compute_correct_witness:
  "Poly1305_compute (replicate 16 0)
    [0x85, 0xd6, 0xbe, 0x78, 0x57, 0x55, 0x6d, 0x33, 0x7f, 0x44, 0x52, 0xfe, 0x42, 0xd5, 0x06,
     0xa8, 0x01, 0x03, 0x80, 0x8a, 0xfb, 0x0d, 0xb2, 0xfd, 0x4a, 0xbf, 0xf6, 0xaf, 0x41, 0x49,
     0xf5, 0x1b]
    [0x43, 0x72, 0x79, 0x70, 0x74, 0x6f, 0x67, 0x72, 0x61, 0x70, 0x68, 0x69, 0x63, 0x20, 0x46,
     0x6f, 0x72, 0x75, 0x6d, 0x20, 0x52, 0x65, 0x73, 0x65, 0x61, 0x72, 0x63, 0x68, 0x20, 0x47,
     0x72, 0x6f, 0x75, 0x70]
   = [0xa8, 0x06, 0x1d, 0xc1, 0x30, 0x51, 0x36, 0xc6, 0xc2, 0x2b, 0x8b, 0xaf, 0x0c, 0x01, 0x27,
     0xa9]"
proof -
  let ?key = "[0x85, 0xd6, 0xbe, 0x78, 0x57, 0x55, 0x6d, 0x33, 0x7f, 0x44, 0x52, 0xfe, 0x42, 0xd5, 0x06,
     0xa8, 0x01, 0x03, 0x80, 0x8a, 0xfb, 0x0d, 0xb2, 0xfd, 0x4a, 0xbf, 0xf6, 0xaf, 0x41, 0x49,
     0xf5, 0x1b] :: bytes"
  let ?m = "[0x43, 0x72, 0x79, 0x70, 0x74, 0x6f, 0x67, 0x72, 0x61, 0x70, 0x68, 0x69, 0x63, 0x20, 0x46,
     0x6f, 0x72, 0x75, 0x6d, 0x20, 0x52, 0x65, 0x73, 0x65, 0x61, 0x72, 0x63, 0x68, 0x20, 0x47,
     0x72, 0x6f, 0x75, 0x70] :: bytes"
  let ?tag = "[0xa8, 0x06, 0x1d, 0xc1, 0x30, 0x51, 0x36, 0xc6, 0xc2, 0x2b, 0x8b, 0xaf, 0x0c, 0x01, 0x27,
     0xa9] :: bytes"
  have "poly1305_spec ?key ?m = le_nat ?tag"
    by (simp add: poly1305_spec_def clamp_def p1305_def poly_acc_step)
  with Poly1305_compute_correct [of ?key "replicate 16 0" ?m]
  have "length (Poly1305_compute (replicate 16 0) ?key ?m) = length ?tag"
    and "le_nat (Poly1305_compute (replicate 16 0) ?key ?m) = le_nat ?tag"
    by simp_all
  then show ?thesis using le_nat_inject by blast
qed

end
