(* ===== verification/Packet.thy ===== *)
theory Packet
  imports Poly1305Correct
begin

text \<open>
  Protocol packets and fragments: \<^verbatim>\<open>zto/node/Packet.hpp\<close> and the cryptographic part of
  \<^verbatim>\<open>Packet.cpp\<close>. A packet is the byte string of its buffer, of capacity 5776. Header fields are
  read and written with the checked buffer operations; \<^verbatim>\<open>armor\<close>, \<^verbatim>\<open>dearmor\<close> and \<^verbatim>\<open>cryptField\<close>
  use raw pointers, so lengths for which they would run outside the array give \<open>MemFault\<close>.
\<close>

type_synonym packet = bytes

section \<open>Layout\<close>

abbreviation (input) ZT_PACKET_IDX_IV :: nat where "ZT_PACKET_IDX_IV \<equiv> 0"
abbreviation (input) ZT_PACKET_IDX_DEST :: nat where "ZT_PACKET_IDX_DEST \<equiv> 8"
abbreviation (input) ZT_PACKET_IDX_SOURCE :: nat where "ZT_PACKET_IDX_SOURCE \<equiv> 13"
abbreviation (input) ZT_PACKET_IDX_FLAGS :: nat where "ZT_PACKET_IDX_FLAGS \<equiv> 18"
abbreviation (input) ZT_PACKET_IDX_MAC :: nat where "ZT_PACKET_IDX_MAC \<equiv> 19"
abbreviation (input) ZT_PACKET_IDX_VERB :: nat where "ZT_PACKET_IDX_VERB \<equiv> 27"
abbreviation (input) ZT_PACKET_IDX_PAYLOAD :: nat where "ZT_PACKET_IDX_PAYLOAD \<equiv> 28"
abbreviation (input) ZT_PROTO_MIN_PACKET_LENGTH :: nat where "ZT_PROTO_MIN_PACKET_LENGTH \<equiv> 28"
abbreviation (input) ZT_PROTO_MIN_FRAGMENT_LENGTH :: nat where "ZT_PROTO_MIN_FRAGMENT_LENGTH \<equiv> 16"
abbreviation (input) ZT_UDP_DEFAULT_PAYLOAD_MTU :: nat where "ZT_UDP_DEFAULT_PAYLOAD_MTU \<equiv> 1444"
abbreviation (input) ZT_MAX_PACKET_FRAGMENTS :: nat where "ZT_MAX_PACKET_FRAGMENTS \<equiv> 4"
abbreviation (input) ZT_PROTO_MAX_PACKET_LENGTH :: nat where "ZT_PROTO_MAX_PACKET_LENGTH \<equiv> 5776"

section \<open>Header fields\<close>

definition setDestination :: "packet \<Rightarrow> address \<Rightarrow> packet res" where
  "setDestination p dest = bs_write p ZT_PACKET_IDX_DEST (Address_bytes dest)"

definition setSource :: "packet \<Rightarrow> address \<Rightarrow> packet res" where
  "setSource p source = bs_write p ZT_PACKET_IDX_SOURCE (Address_bytes source)"

definition destination :: "packet \<Rightarrow> address res" where
  "destination p = ebind (bs_field p ZT_PACKET_IDX_DEST 5) (\<lambda>b. Inr (Address_setTo b))"

definition source :: "packet \<Rightarrow> address res" where
  "source p = ebind (bs_field p ZT_PACKET_IDX_SOURCE 5) (\<lambda>b. Inr (Address_setTo b))"

definition lengthValid :: "packet \<Rightarrow> bool" where
  "lengthValid p \<longleftrightarrow> length p \<ge> ZT_PROTO_MIN_PACKET_LENGTH"

definition fragmented :: "packet \<Rightarrow> bool res" where
  "fragmented p = ebind (bs_get p ZT_PACKET_IDX_FLAGS) (\<lambda>b. Inr (b AND 0x40 \<noteq> 0))"

definition setFragmented :: "packet \<Rightarrow> bool \<Rightarrow> packet res" where
  "setFragmented p f =
     ebind (bs_get p ZT_PACKET_IDX_FLAGS)
       (\<lambda>b. bs_put p ZT_PACKET_IDX_FLAGS (if f then b OR 0x40 else b AND NOT 0x40))"

definition compressed :: "packet \<Rightarrow> bool res" where
  "compressed p = ebind (bs_get p ZT_PACKET_IDX_VERB) (\<lambda>b. Inr (b AND 0x80 \<noteq> 0))"

definition hops :: "packet \<Rightarrow> nat res" where
  "hops p = ebind (bs_get p ZT_PACKET_IDX_FLAGS) (\<lambda>b. Inr (unat (b AND 0x07)))"

definition incrementHops :: "packet \<Rightarrow> packet res" where
  "incrementHops p =
     ebind (bs_get p ZT_PACKET_IDX_FLAGS)
       (\<lambda>b. bs_put p ZT_PACKET_IDX_FLAGS ((b AND 0xf8) OR ((b + 1) AND 0x07)))"

definition cipher_bits :: "byte \<Rightarrow> byte" where
  "cipher_bits b = drop_bit 3 (b AND 0x38)"

definition cipher :: "packet \<Rightarrow> byte res" where
  "cipher p = ebind (bs_get p ZT_PACKET_IDX_FLAGS) (\<lambda>b. Inr (cipher_bits b))"

text \<open>Cipher suites: 0 is authentication only, 1 is Salsa20/12 with Poly1305, 2 a trusted path.\<close>

definition set_cipher_bits :: "byte \<Rightarrow> byte \<Rightarrow> byte" where
  "set_cipher_bits b c =
     (let b = (b AND 0xc7) OR (push_bit 3 c AND 0x38) in if c = 1 then b OR 0x80 else b AND NOT 0x80)"

definition setCipher :: "packet \<Rightarrow> byte \<Rightarrow> packet res" where
  "setCipher p c =
     ebind (bs_get p ZT_PACKET_IDX_FLAGS) (\<lambda>b. bs_put p ZT_PACKET_IDX_FLAGS (set_cipher_bits b c))"

definition trustedPathId :: "packet \<Rightarrow> u64 res" where
  "trustedPathId p = bs_at p ZT_PACKET_IDX_MAC"

definition setTrusted :: "packet \<Rightarrow> u64 \<Rightarrow> packet res" where
  "setTrusted p tpid = ebind (setCipher p 2) (\<lambda>p. bs_setAt p ZT_PACKET_IDX_MAC tpid)"

definition packetId :: "packet \<Rightarrow> u64 res" where
  "packetId p = bs_at p ZT_PACKET_IDX_IV"

definition linkQualityCounter :: "packet \<Rightarrow> nat" where
  "linkQualityCounter p = unat (p ! 7 AND 7)"

definition setVerb :: "packet \<Rightarrow> byte \<Rightarrow> packet res" where
  "setVerb p v = bs_put p ZT_PACKET_IDX_VERB v"

definition verb :: "packet \<Rightarrow> byte res" where
  "verb p = ebind (bs_get p ZT_PACKET_IDX_VERB) (\<lambda>b. Inr (b AND 0x1f))"

definition payloadLength :: "packet \<Rightarrow> nat" where
  "payloadLength p =
     (if length p < ZT_PROTO_MIN_PACKET_LENGTH then 0 else length p - ZT_PROTO_MIN_PACKET_LENGTH)"

text \<open>
  The pointer of \<^verbatim>\<open>payload()\<close> stands for the bytes from it to the end of the packet. The length
  \<^verbatim>\<open>size() - 28\<close> wraps for a packet shorter than its header, and so does the sum in \<^verbatim>\<open>field()\<close>.
\<close>

definition payload :: "packet \<Rightarrow> bytes res" where
  "payload p =
     (if u32_add ZT_PACKET_IDX_PAYLOAD (u32_sub (length p) ZT_PACKET_IDX_PAYLOAD) > length p
      then Inl OutOfRange else Inr (drop ZT_PACKET_IDX_PAYLOAD p))"

text \<open>
  Construction: \<open>raw\<close> is the uninitialised header, \<open>iv\<close> the eight bytes of
  \<^verbatim>\<open>Utils::getSecureRandom\<close>.
\<close>

definition Packet_new :: "bytes \<Rightarrow> bytes \<Rightarrow> packet res" where
  "Packet_new raw iv =
     ebind (bs_write (take ZT_PROTO_MIN_PACKET_LENGTH raw) ZT_PACKET_IDX_IV iv)
       (\<lambda>p. bs_put p ZT_PACKET_IDX_FLAGS 0)"

definition Packet_make :: "bytes \<Rightarrow> bytes \<Rightarrow> address \<Rightarrow> address \<Rightarrow> byte \<Rightarrow> packet res" where
  "Packet_make raw iv dest src v =
     ebind (bs_write (take ZT_PROTO_MIN_PACKET_LENGTH raw) ZT_PACKET_IDX_IV iv) (\<lambda>p.
     ebind (setDestination p dest) (\<lambda>p.
     ebind (setSource p src) (\<lambda>p.
     ebind (bs_put p ZT_PACKET_IDX_FLAGS 0) (\<lambda>p.
     setVerb p v))))"

definition Packet_copy :: "packet \<Rightarrow> bytes \<Rightarrow> address \<Rightarrow> packet res" where
  "Packet_copy prototype iv dest =
     ebind (bs_write prototype ZT_PACKET_IDX_IV iv) (\<lambda>p. setDestination p dest)"

section \<open>Fragments\<close>

definition Fragment_init :: "packet \<Rightarrow> nat \<Rightarrow> nat \<Rightarrow> nat \<Rightarrow> nat \<Rightarrow> bytes res" where
  "Fragment_init p fragStart fragLen fragNo fragTotal =
     (if fragStart + fragLen > length p then Inl OutOfRange
      else if fragLen + ZT_PROTO_MIN_FRAGMENT_LENGTH > ZT_PROTO_MAX_PACKET_LENGTH then Inl OutOfRange
      else ebind (bs_field p ZT_PACKET_IDX_IV 13) (\<lambda>hdr.
           ebind (bs_field p fragStart fragLen) (\<lambda>body.
           Inr (hdr @
                [0xff,
                 push_bit 4 (of_nat fragTotal AND 0xf) OR (of_nat fragNo AND 0xf),
                 0] @ body))))"

definition Fragment_lengthValid :: "bytes \<Rightarrow> bool" where
  "Fragment_lengthValid f \<longleftrightarrow> length f \<ge> 16"

definition Fragment_destination :: "bytes \<Rightarrow> address res" where
  "Fragment_destination f = ebind (bs_field f 8 5) (\<lambda>b. Inr (Address_setTo b))"

definition Fragment_packetId :: "bytes \<Rightarrow> u64 res" where
  "Fragment_packetId f = bs_at f 0"

definition totalFragments :: "bytes \<Rightarrow> nat res" where
  "totalFragments f = ebind (bs_get f 14) (\<lambda>b. Inr (unat (drop_bit 4 b AND 0xf)))"

definition fragmentNumber :: "bytes \<Rightarrow> nat res" where
  "fragmentNumber f = ebind (bs_get f 14) (\<lambda>b. Inr (unat (b AND 0xf)))"

definition Fragment_hops :: "bytes \<Rightarrow> nat res" where
  "Fragment_hops f = ebind (bs_get f 15) (\<lambda>b. Inr (unat b))"

definition Fragment_incrementHops :: "bytes \<Rightarrow> bytes res" where
  "Fragment_incrementHops f = ebind (bs_get f 15) (\<lambda>b. bs_put f 15 ((b + 1) AND 7))"

definition Fragment_payloadLength :: "bytes \<Rightarrow> nat" where
  "Fragment_payloadLength f = (if length f > 16 then length f - 16 else 0)"

definition Fragment_payload :: "bytes \<Rightarrow> bytes res" where
  "Fragment_payload f =
     (if u32_add 16 (u32_sub (length f) 16) > length f then Inl OutOfRange else Inr (drop 16 f))"

lemma u32_add_sub: "u32_add k (u32_sub n k) = n mod 2 ^ 32"
proof -
  have "int (u32_add k (u32_sub n k)) = int (n mod 2 ^ 32)"
    by (simp add: u32_add_def u32_sub_def zmod_int mod_simps)
  then show ?thesis by simp
qed

lemma payload_eq [simp]: "payload p = Inr (drop 28 p)"
  by (simp add: payload_def u32_add_sub)

lemma Fragment_payload_eq [simp]: "Fragment_payload f = Inr (drop 16 f)"
  by (simp add: Fragment_payload_def u32_add_sub)

section \<open>Authentication and encryption\<close>

definition ZERO_KEY :: bytes where
  "ZERO_KEY = replicate 32 0"

definition salsa20MangleKey :: "packet \<Rightarrow> bytes \<Rightarrow> bytes" where
  "salsa20MangleKey p key =
     map (\<lambda>i. key ! i XOR p ! i) [0..<18] @
     [key ! 18 XOR (p ! ZT_PACKET_IDX_FLAGS AND 0xf8),
      key ! 19 XOR of_nat (length p mod 256),
      key ! 20 XOR of_nat (length p div 256 mod 256)] @
     map (\<lambda>i. key ! i) [21..<32]"

text \<open>
  The work memory of the primitives is uninitialised in the code. It is zero here: the results
  do not depend on it, by \<open>s12.crypt_junk\<close> and \<open>Poly1305_compute_junk\<close>.
\<close>

abbreviation salsa12 :: "u32 list \<Rightarrow> bytes \<Rightarrow> u32 list \<times> bytes" where
  "salsa12 \<equiv> crypt12 (replicate 64 0)"

abbreviation poly1305 :: "bytes \<Rightarrow> bytes \<Rightarrow> bytes" where
  "poly1305 \<equiv> Poly1305_compute (replicate 16 0)"

definition armor :: "bytes \<Rightarrow> bool \<Rightarrow> nat \<Rightarrow> packet \<Rightarrow> packet res" where
  "armor key encryptPayload counter p =
     (let p = p[7 := (p ! 7 AND 0xf8) OR (of_nat counter AND 0x07)] in
      ebind (setCipher p (if encryptPayload then 1 else 0)) (\<lambda>p.
        if length p < ZT_PACKET_IDX_VERB then Inl MemFault
        else
          let mangledKey = salsa20MangleKey p key;
              s20 = Salsa20_init mangledKey 256 (drop ZT_PACKET_IDX_IV p);
              (s20, macKey) = salsa12 s20 ZERO_KEY;
              body = drop ZT_PACKET_IDX_VERB p;
              body = (if encryptPayload then snd (salsa12 s20 body) else body);
              mac = poly1305 macKey body
          in Inr (mem_write ZT_PACKET_IDX_MAC (take 8 mac) (take ZT_PACKET_IDX_VERB p @ body))))"

definition dearmor :: "bytes \<Rightarrow> packet \<Rightarrow> (bool \<times> packet) res" where
  "dearmor key p =
     ebind (cipher p) (\<lambda>cs.
       if cs = 0 \<or> cs = 1 then
         if length p < ZT_PACKET_IDX_VERB then Inl MemFault
         else
           let mangledKey = salsa20MangleKey p key;
               s20 = Salsa20_init mangledKey 256 (drop ZT_PACKET_IDX_IV p);
               (s20, macKey) = salsa12 s20 ZERO_KEY;
               body = drop ZT_PACKET_IDX_VERB p;
               mac = poly1305 macKey body
           in if \<not> secureEq mac (drop ZT_PACKET_IDX_MAC p) 8 then Inr (False, p)
              else if cs = 1 then Inr (True, take ZT_PACKET_IDX_VERB p @ snd (salsa12 s20 body))
              else Inr (True, p)
       else Inr (False, p))"

text \<open>A region that leaves the packet's bytes is outside the model of \<^verbatim>\<open>cryptField\<close>.\<close>

definition cryptField :: "bytes \<Rightarrow> nat \<Rightarrow> nat \<Rightarrow> packet \<Rightarrow> packet res" where
  "cryptField key start len p =
     (if length p < 8 \<or> start + len > length p then Inl MemFault
      else
        let iv = take 8 p;
            iv = iv[7 := iv ! 7 AND 0xf8];
            s20 = Salsa20_init key 256 iv
        in Inr (mem_write start (snd (salsa12 s20 (sub start len p))) p))"

section \<open>Flag bits\<close>

lemma byte_eqI:
  assumes "bit x 0 = bit y 0" "bit x 1 = bit y 1" "bit x 2 = bit y 2" "bit x 3 = bit y 3"
    "bit x 4 = bit y 4" "bit x 5 = bit y 5" "bit x 6 = bit y 6" "bit x 7 = bit y 7"
  shows "x = (y :: byte)"
proof (rule bit_word_eqI)
  fix n assume "n < LENGTH(8)"
  then consider "n = 0" | "n = 1" | "n = 2" | "n = 3" | "n = 4" | "n = 5" | "n = 6" | "n = 7"
    by fastforce
  then show "bit x n = bit y n" by cases (use assms in simp_all)
qed

lemma cipher_set_bits:
  "cipher_bits (set_cipher_bits b 0) = 0" "cipher_bits (set_cipher_bits b 1) = 1"
  "cipher_bits (set_cipher_bits b 2) = 2"
  by (rule byte_eqI; simp add: cipher_bits_def set_cipher_bits_def Let_def bit_simps)+

lemma hops_set_bits: "set_cipher_bits b 0 AND 7 = b AND 7" "set_cipher_bits b 1 AND 7 = b AND 7"
  by (rule byte_eqI; simp add: set_cipher_bits_def Let_def bit_simps)+

lemma hop_mask: "((b AND 0xf8) OR ((b + 1) AND 0x07)) AND 0xf8 = (b AND 0xf8 :: byte)"
  by (rule byte_eqI; simp add: bit_simps)

lemma cipher_bits_mask: "cipher_bits b = cipher_bits (b AND 0xf8)"
  by (rule byte_eqI; simp add: cipher_bits_def bit_simps)

lemma unat_and_7: "unat (b AND 7 :: byte) = unat b mod 8"
proof -
  have "unat (take_bit 3 b) = take_bit 3 (unat b)" by (rule unsigned_take_bit_eq)
  moreover have "b AND 7 = take_bit 3 b" by (simp add: take_bit_eq_mask mask_eq_exp_minus_1)
  ultimately show ?thesis by (simp only: take_bit_nat_def) simp
qed

lemma unat_and_15: "unat (b AND 15 :: byte) = unat b mod 16"
proof -
  have "unat (take_bit 4 b) = take_bit 4 (unat b)" by (rule unsigned_take_bit_eq)
  moreover have "b AND 15 = take_bit 4 b" by (simp add: take_bit_eq_mask mask_eq_exp_minus_1)
  ultimately show ?thesis by (simp only: take_bit_nat_def) simp
qed

lemma hop_next: "unat (((b AND 0xf8) OR ((b + 1) AND 0x07)) AND 7 :: byte) = (unat (b AND 7) + 1) mod 8"
proof -
  have "((b AND 0xf8) OR ((b + 1) AND 0x07)) AND 7 = (b + 1) AND 7"
    by (rule byte_eqI; simp add: bit_simps)
  moreover have "unat ((b + 1) AND 7) = (unat b + 1) mod 256 mod 8"
    by (simp add: unat_and_7 unat_word_ariths)
  moreover have "(unat b + 1) mod 256 mod 8 = (unat b + 1) mod 8"
    by (rule mod_mod_cancel) simp
  ultimately show ?thesis by (simp only: unat_and_7) (simp add: mod_Suc_eq)
qed

lemma frag_byte:
  assumes "t < 16" and "n < 16"
  shows "unat (drop_bit 4 (push_bit 4 (of_nat t AND 0xf) OR (of_nat n AND 0xf) :: byte) AND 0xf) = t
    \<and> unat ((push_bit 4 (of_nat t AND 0xf) OR (of_nat n AND 0xf) :: byte) AND 0xf) = n"
proof -
  have "drop_bit 4 (push_bit 4 (x AND 0xf) OR (y AND 0xf)) AND 0xf = x AND 0xf"
    "(push_bit 4 (x AND 0xf) OR (y AND 0xf)) AND 0xf = y AND 0xf" for x y :: byte
    by (rule byte_eqI; simp add: bit_simps)+
  moreover have "unat (of_nat k AND 0xf :: byte) = k" if "k < 16" for k
    using that by (simp add: unat_and_15 unat_of_nat take_bit_nat_def)
  ultimately show ?thesis using assms by simp
qed

section \<open>Armor\<close>

text \<open>
  An armored packet in pieces: the 18 bytes of IV and addresses, the flags byte, the eight bytes of
  the authentication field, and the body from the verb on. The key material depends on the first
  piece, on the flags without the hop count, and on the length.
\<close>

definition packet_key :: "bytes \<Rightarrow> bytes \<Rightarrow> byte \<Rightarrow> nat \<Rightarrow> u32 list" where
  "packet_key key hdr flags len =
     Salsa20_init (salsa20MangleKey (hdr @ [flags] @ replicate (len - 19) 0) key) 256 hdr"

lemma U8TO32_LITTLE_prefix:
  "4 \<le> length xs \<Longrightarrow> U8TO32_LITTLE (xs @ ys) = U8TO32_LITTLE xs"
  by (auto simp: U8TO32_LITTLE_def nth_append)

lemma Salsa20_init_iv_prefix:
  assumes "8 \<le> length xs"
  shows "Salsa20_init k n (xs @ ys) = Salsa20_init k n xs"
proof -
  have "U8TO32_LITTLE (drop 0 (xs @ ys)) = U8TO32_LITTLE (drop 0 xs)"
    "U8TO32_LITTLE (drop 4 (xs @ ys)) = U8TO32_LITTLE (drop 4 xs)"
    using assms by (simp_all add: U8TO32_LITTLE_prefix)
  then show ?thesis by (simp add: Salsa20_init_def Let_def)
qed

lemma mangle_parts:
  assumes "length hdr = 18" and "f AND 0xf8 = g AND 0xf8" and "length xs = length ys"
  shows "salsa20MangleKey (hdr @ f # xs) key = salsa20MangleKey (hdr @ g # ys) key"
  using assms by (simp add: salsa20MangleKey_def nth_append)

lemma packet_key_eq:
  assumes "length hdr = 18" and "f AND 0xf8 = g AND 0xf8" and "len = 19 + length xs"
  shows "Salsa20_init (salsa20MangleKey (hdr @ f # xs) key) 256 (hdr @ f # xs) = packet_key key hdr g len"
  using assms Salsa20_init_iv_prefix [of hdr _ 256 "f # xs"]
    mangle_parts [OF assms(1,2), of xs "replicate (length xs) 0" key]
  by (simp add: packet_key_def)

definition packet_tag :: "u32 list \<Rightarrow> bytes \<Rightarrow> bytes" where
  "packet_tag s20 body = take 8 (poly1305 (snd (salsa12 s20 ZERO_KEY)) body)"

definition packet_crypt :: "u32 list \<Rightarrow> bytes \<Rightarrow> bytes" where
  "packet_crypt s20 body = snd (salsa12 (fst (salsa12 s20 ZERO_KEY)) body)"

lemma length_packet_key [simp]: "length (packet_key key hdr f len) = 16"
  by (simp add: packet_key_def)

lemma length_packet_tag [simp]: "length (packet_tag s b) = 8"
  by (simp add: packet_tag_def)

lemma packet_crypt_twice [simp]: "length s = 16 \<Longrightarrow> packet_crypt s (packet_crypt s b) = b"
  by (simp add: packet_crypt_def s12.crypt_crypt s12.crypt_invar)

lemma length_packet_crypt [simp]: "length s = 16 \<Longrightarrow> length (packet_crypt s b) = length b"
  by (simp add: packet_crypt_def s12.crypt_length s12.crypt_invar)

lemma armor_parts:
  fixes hdr mac body key :: bytes and f :: byte and enc :: bool and ctr :: nat
  assumes "length hdr = 18" and "length mac = 8"
  defines "hdr' \<equiv> hdr[7 := (hdr ! 7 AND 0xf8) OR (of_nat ctr AND 0x07)]"
    and "f' \<equiv> set_cipher_bits f (if enc then 1 else 0)"
  defines "s20 \<equiv> packet_key key hdr' f' (27 + length body)"
  defines "body' \<equiv> (if enc then packet_crypt s20 body else body)"
  shows "armor key enc ctr (hdr @ f # mac @ body) = Inr (hdr' @ f' # packet_tag s20 body' @ body')"
proof -
  have len: "length hdr' = 18" using assms by simp
  have upd: "(hdr @ f # mac @ body)[7 := ((hdr @ f # mac @ body) ! 7 AND 0xf8) OR (of_nat ctr AND 0x07)]
      = hdr' @ f # mac @ body"
    using assms by (simp add: list_update_append nth_append)
  have set: "setCipher (hdr' @ f # mac @ body) (if enc then 1 else 0) = Inr (hdr' @ f' # mac @ body)"
    using len by (simp add: setCipher_def f'_def nth_append list_update_append)
  have k: "Salsa20_init (salsa20MangleKey (hdr' @ f' # mac @ body) key) 256 (hdr' @ f' # mac @ body) = s20"
    unfolding s20_def by (rule packet_key_eq) (use len assms(2) in simp_all)
  have pl: "drop 27 (hdr' @ f' # mac @ body) = body" "take 27 (hdr' @ f' # mac @ body) = hdr' @ f' # mac"
    using len assms(2) by simp_all
  have mw: "mem_write 19 (take 8 t) (hdr' @ f' # mac @ b) = hdr' @ f' # take 8 t @ b" if "8 \<le> length t" for t b
    using len assms(2) that by (simp add: mem_write_def)
  show ?thesis
    unfolding armor_def Let_def upd set ebind.simps drop0 k pl
    using len assms(2)
    by (simp add: mw packet_tag_def packet_crypt_def body'_def split: prod.splits)
qed

lemma dearmor_parts:
  fixes hdr mac body key :: bytes and f g :: byte
  assumes "length hdr = 18" and "length mac = 8" and "f AND 0xf8 = g AND 0xf8"
  defines "s20 \<equiv> packet_key key hdr g (27 + length body)"
  shows "dearmor key (hdr @ f # mac @ body) =
    (if cipher_bits g = 0 \<or> cipher_bits g = 1 then
       if packet_tag s20 body = mac
       then Inr (True, hdr @ f # mac @ (if cipher_bits g = 1 then packet_crypt s20 body else body))
       else Inr (False, hdr @ f # mac @ body)
     else Inr (False, hdr @ f # mac @ body))"
proof -
  have c: "cipher (hdr @ f # mac @ body) = Inr (cipher_bits g)"
    using assms cipher_bits_mask [of f] cipher_bits_mask [of g] by (simp add: cipher_def nth_append)
  have k: "Salsa20_init (salsa20MangleKey (hdr @ f # mac @ body) key) 256 (hdr @ f # mac @ body) = s20"
    unfolding s20_def by (rule packet_key_eq) (use assms in simp_all)
  have pl: "drop 27 (hdr @ f # mac @ body) = body" "take 27 (hdr @ f # mac @ body) = hdr @ f # mac"
    "drop 19 (hdr @ f # mac @ body) = mac @ body"
    using assms by simp_all
  have eq: "secureEq t (mac @ body) 8 \<longleftrightarrow> take 8 t = mac" if "length t = 16" for t
    using secureEq_iff [of 8 t "mac @ body"] that assms(2) by simp
  show ?thesis
    unfolding dearmor_def c ebind.simps Let_def drop0 k pl
    using assms(1,2) by (simp add: eq packet_tag_def packet_crypt_def split: prod.splits)
qed

text \<open>Every packet of header length is the concatenation of its parts.\<close>

lemma packet_parts:
  assumes "27 \<le> length p"
  obtains hdr f mac body where "p = hdr @ f # mac @ body" "length hdr = 18" "length mac = 8"
    "hdr = take 18 p" "f = p ! 18" "body = drop 27 p"
proof -
  have "p = take 18 p @ p ! 18 # take 8 (drop 19 p) @ drop 27 p"
  proof -
    have "p = take 18 p @ drop 18 p" by simp
    also have "drop 18 p = p ! 18 # drop 19 p" using assms Cons_nth_drop_Suc [of 18 p] by simp
    also have "drop 19 p = take 8 (drop 19 p) @ drop 27 p"
      using append_take_drop_id [of 8 "drop 19 p"] by simp
    finally show ?thesis .
  qed
  with assms show ?thesis by (intro that) auto
qed

lemma incrementHops_parts:
  "length hdr = 18 \<Longrightarrow> incrementHops (hdr @ f # r) = Inr (hdr @ ((f AND 0xf8) OR ((f + 1) AND 0x07)) # r)"
  by (simp add: incrementHops_def nth_append list_update_append)

primrec forward :: "nat \<Rightarrow> packet \<Rightarrow> packet res" where
  "forward 0 p = Inr p"
| "forward (Suc n) p = ebind (incrementHops p) (forward n)"

lemma forward_parts:
  assumes "length hdr = 18"
  shows "\<exists>g. forward n (hdr @ f # r) = Inr (hdr @ g # r) \<and> g AND 0xf8 = f AND 0xf8
    \<and> unat (g AND 7) = (unat (f AND 7) + n) mod 8"
proof (induction n arbitrary: f)
  case 0
  then show ?case by (simp add: unat_and_7)
next
  case (Suc n)
  let ?f = "(f AND 0xf8) OR ((f + 1) AND 0x07)"
  from Suc.IH [of ?f] obtain g where g: "forward n (hdr @ ?f # r) = Inr (hdr @ g # r)"
    "g AND 0xf8 = ?f AND 0xf8" "unat (g AND 7) = (unat (?f AND 7) + n) mod 8" by blast
  then have "unat (g AND 7) = (unat (f AND 7) + Suc n) mod 8"
    using hop_next [of f] by (simp add: mod_simps)
  with g assms show ?case by (simp add: incrementHops_parts hop_mask)
qed

text \<open>
  C2. Armor round trip across relays: a packet armored with a key, forwarded through any number of
  relays that each increment its hop count, is accepted by the receiver with the same key. The
  receiver recovers verb and payload, IV (up to the three counter bits) and addresses, and reads
  the number of hops modulo eight.
\<close>

theorem armor_forward_dearmor:
  assumes "27 \<le> length p"
  shows "\<exists>q q' r. armor key enc ctr p = Inr q \<and> forward n q = Inr q' \<and> dearmor key q' = Inr (True, r)
    \<and> length q = length p \<and> length r = length p
    \<and> drop 27 r = drop 27 p \<and> take 7 r = take 7 p \<and> sub 8 10 r = sub 8 10 p
    \<and> linkQualityCounter r = ctr mod 8
    \<and> cipher r = Inr (if enc then 1 else 0)
    \<and> hops r = Inr ((unat (p ! 18 AND 7) + n) mod 8)"
proof -
  from assms obtain hdr f mac body where p: "p = hdr @ f # mac @ body" "length hdr = 18" "length mac = 8"
    "f = p ! 18" by (rule packet_parts)
  define hdr' where "hdr' = hdr[7 := (hdr ! 7 AND 0xf8) OR (of_nat ctr AND 0x07)]"
  define f' where "f' = set_cipher_bits f (if enc then 1 else 0)"
  define s20 where "s20 = packet_key key hdr' f' (27 + length body)"
  define body' where "body' = (if enc then packet_crypt s20 body else body)"
  have h: "length hdr' = 18" by (simp add: hdr'_def p)
  have b: "length body' = length body" by (simp add: body'_def s20_def)
  have a: "armor key enc ctr p = Inr (hdr' @ f' # packet_tag s20 body' @ body')"
    unfolding body'_def s20_def f'_def hdr'_def p(1) by (rule armor_parts [OF p(2,3)])
  obtain g where g: "forward n (hdr' @ f' # packet_tag s20 body' @ body') = Inr (hdr' @ g # packet_tag s20 body' @ body')"
    "g AND 0xf8 = f' AND 0xf8" "unat (g AND 7) = (unat (f' AND 7) + n) mod 8"
    using forward_parts [OF h] by blast
  have cf: "cipher_bits f' = (if enc then 1 else 0)"
    by (simp add: f'_def cipher_set_bits)
  have hf: "f' AND 7 = f AND 7" by (simp add: f'_def hops_set_bits)
  have cg: "cipher_bits g = cipher_bits f'"
    using g(2) cipher_bits_mask [of g] cipher_bits_mask [of f'] by simp
  let ?r = "hdr' @ g # packet_tag s20 body' @ body"
  have d: "dearmor key (hdr' @ g # packet_tag s20 body' @ body') = Inr (True, ?r)"
    using dearmor_parts [OF h length_packet_tag g(2), of key s20 body' body']
    by (simp add: b cf body'_def flip: s20_def)
      (simp add: s20_def)
  have "(((x AND 0xf8) OR (y AND 0x07)) AND 7) = y AND (7 :: byte)" for x y
    by (rule byte_eqI; simp add: bit_simps)
  moreover have "unat (of_nat ctr AND 7 :: byte) = ctr mod 8"
    using mod_mod_cancel [of 8 256 ctr] by (simp add: unat_and_7 unat_of_nat take_bit_nat_def)
  ultimately have "unat (hdr' ! 7 AND 7) = ctr mod 8"
    by (simp add: hdr'_def p)
  then have "linkQualityCounter ?r = ctr mod 8"
    using h by (simp add: linkQualityCounter_def nth_append)
  moreover have "cipher ?r = Inr (if enc then 1 else 0)" "hops ?r = Inr ((unat (p ! 18 AND 7) + n) mod 8)"
    using h cg cf g(3) hf p(4) by (simp_all add: cipher_def hops_def nth_append)
  moreover have "take 7 ?r = take 7 p" "sub 8 10 ?r = sub 8 10 p" "drop 27 ?r = drop 27 p"
    using h p(1-3) by (simp_all add: hdr'_def sub_def)
  moreover have "length ?r = length p" "length (hdr' @ f' # packet_tag s20 body' @ body') = length p"
    using h b p(1-3) by simp_all
  ultimately show ?thesis using a g(1) d by blast
qed

theorem armor_forward_dearmor_witness:
  "\<exists>q q' r. armor (replicate 32 7) True 5 (replicate 40 0) = Inr q \<and> forward 2 q = Inr q'
    \<and> dearmor (replicate 32 7) q' = Inr (True, r) \<and> drop 27 r = replicate 13 0"
  using armor_forward_dearmor [of "replicate 40 0" "replicate 32 7" True 5 2] by auto

section \<open>Fragments and fields\<close>

lemma Fragment_init_ok:
  assumes "13 \<le> length p" and "a + n \<le> length p" and "n + 16 \<le> ZT_PROTO_MAX_PACKET_LENGTH"
  shows "Fragment_init p a n no tot =
    Inr (take 13 p @ [0xff, push_bit 4 (of_nat tot AND 0xf) OR (of_nat no AND 0xf), 0] @ sub a n p)"
  using assms by (simp add: Fragment_init_def bs_field_ok sub_def [of 0])

lemma Fragment_fields:
  fixes h body :: bytes and hp :: byte
  assumes "length h = 13" and "tot < 16" and "no < 16"
  defines "f \<equiv> h @ [0xff, push_bit 4 (of_nat tot AND 0xf) OR (of_nat no AND 0xf), hp] @ body"
  shows "totalFragments f = Inr tot" "fragmentNumber f = Inr no" "Fragment_hops f = Inr (unat hp)"
    "Fragment_packetId f = Inr (be_dec (take 8 h))" "Fragment_destination f = Inr (Address_setTo (drop 8 h))"
    "Fragment_payload f = Inr body" "f ! 13 = 0xff" "length f = 16 + length body"
  using assms frag_byte [of tot no]
  by (simp_all add: f_def totalFragments_def fragmentNumber_def Fragment_hops_def Fragment_packetId_def
      Fragment_destination_def bs_get_def bs_at_def bs_field_def nth_append sub_def)

text \<open>
  C30. A freshly built packet is its header: every field reads back what the constructor was given,
  flags and hop count are zero, whatever the uninitialised memory held.
\<close>

theorem Packet_make_fields:
  assumes "28 \<le> length raw" and "length iv = 8" and "Address_of dest = dest" and "Address_of src = src"
  shows "\<exists>p. Packet_make raw iv dest src v = Inr p \<and> length p = 28
    \<and> destination p = Inr dest \<and> source p = Inr src \<and> packetId p = Inr (be_dec iv)
    \<and> verb p = Inr (v AND 0x1f) \<and> hops p = Inr 0 \<and> fragmented p = Inr False \<and> cipher p = Inr 0"
proof -
  obtain hdr f mac body where raw: "take 28 raw = hdr @ f # mac @ body" "length hdr = 18" "length mac = 8"
    by (rule packet_parts [of "take 28 raw"]) (use assms(1) in simp)
  have "length (take 28 raw) = 28" using assms(1) by simp
  then have "length body = 1" by (simp add: raw)
  then obtain b where b: "body = [b]" by (cases body) auto
  define x y z where "x = take 8 hdr" "y = take 5 (drop 8 hdr)" "z = drop 13 hdr"
  then have hdr: "hdr = x @ y @ z" "length x = 8" "length y = 5" "length z = 5"
    using raw(2) append_take_drop_id [of 8 hdr] append_take_drop_id [of 5 "drop 8 hdr"] by simp_all
  let ?p = "iv @ Address_bytes dest @ Address_bytes src @ 0 # mac @ [v]"
  note len = assms(2) hdr(2-4) raw(3)
  have s1: "bs_write (x @ y @ z @ f # mac @ [b]) 0 iv = Inr (iv @ y @ z @ f # mac @ [b])"
    using len by (simp add: bs_write_def mem_write_def)
  have s2: "setDestination (iv @ y @ z @ f # mac @ [b]) dest = Inr (iv @ Address_bytes dest @ z @ f # mac @ [b])"
    using len by (simp add: setDestination_def bs_write_def mem_write_def)
  have s3: "setSource (iv @ Address_bytes dest @ z @ f # mac @ [b]) src
      = Inr (iv @ Address_bytes dest @ Address_bytes src @ f # mac @ [b])"
    using len by (simp add: setSource_def bs_write_def mem_write_def)
  have s4: "bs_put (iv @ Address_bytes dest @ Address_bytes src @ f # mac @ [b]) 18 0
      = Inr (iv @ Address_bytes dest @ Address_bytes src @ 0 # mac @ [b])"
    using len by (simp add: bs_put_def list_update_append)
  have s5: "setVerb (iv @ Address_bytes dest @ Address_bytes src @ 0 # mac @ [b]) v = Inr ?p"
    using len by (simp add: setVerb_def bs_put_def list_update_append)
  have "take 28 raw = x @ y @ z @ f # mac @ [b]" by (simp add: raw(1) b hdr(1))
  then have "Packet_make raw iv dest src v = Inr ?p"
    by (simp only: Packet_make_def s1 s2 s3 s4 s5 ebind.simps)
  moreover have "Address_setTo (Address_bytes dest) = dest" "Address_setTo (Address_bytes src) = src"
    using assms by (simp_all add: Address_setTo_bytes Address_of_def and_40)
  ultimately show ?thesis
    using assms raw(3) by (simp add: destination_def source_def packetId_def verb_def hops_def fragmented_def
        cipher_def cipher_bits_def bs_field_def bs_get_def bs_at_def nth_append sub_def)
qed

theorem Packet_make_fields_witness:
  "\<exists>p. Packet_make (replicate 28 9) [1, 2, 3, 4, 5, 6, 7, 8] 0x0102030405 0x1112131415 6 = Inr p
    \<and> destination p = Inr 0x0102030405 \<and> source p = Inr 0x1112131415"
  using Packet_make_fields [of "replicate 28 9" "[1, 2, 3, 4, 5, 6, 7, 8]" "0x0102030405" "0x1112131415" 6]
  by (auto simp: Address_of_def)

text \<open>Masking a region of a packet twice restores it, since only the eight bytes of the IV select the key stream.\<close>

lemma mem_write_sub: "i + n \<le> length m \<Longrightarrow> mem_write i (sub i n m) m = m"
  using append_take_drop_id [of i m] append_take_drop_id [of n "drop i m"]
  by (simp add: mem_write_def sub_def add.commute)

lemma cryptField_twice:
  assumes "cryptField key start len p = Inr q" and "8 \<le> start"
  shows "cryptField key start len q = Inr p"
proof -
  let ?s = "Salsa20_init key 256 ((take 8 p)[7 := take 8 p ! 7 AND 0xf8])"
  have len: "8 \<le> length p" "start + len \<le> length p"
    and q: "q = mem_write start (snd (salsa12 ?s (sub start len p))) p"
    using assms(1) by (auto simp: cryptField_def Let_def split: if_splits)
  have c: "length (snd (salsa12 ?s (sub start len p))) = len"
    using len by (simp add: s12.crypt_length)
  have t: "take 8 q = take 8 p"
    using assms(2) len by (simp add: q take_mem_write_before)
  have "sub start len q = snd (salsa12 ?s (sub start len p))"
    using sub_mem_write_same [of start "snd (salsa12 ?s (sub start len p))" p] len c by (simp add: q)
  moreover have "snd (salsa12 ?s (snd (salsa12 ?s (sub start len p)))) = sub start len p"
    by (rule s12.crypt_crypt) simp_all
  moreover have "mem_write start (sub start len p) q = p"
    using len c mem_write_twice [of start "snd (salsa12 ?s (sub start len p))" p "sub start len p"]
    by (simp add: q mem_write_sub)
  moreover have "length q = length p" using len c by (simp add: q)
  ultimately show ?thesis using len by (simp add: cryptField_def Let_def t)
qed

end
