(* ===== verification/Reassembly.thy ===== *)
theory Reassembly
  imports Packet
begin

text \<open>
  Fragmentation and reassembly of packets: the receive queue of \<^verbatim>\<open>zto/node/Switch.hpp\<close>, the parts of
  \<^verbatim>\<open>Switch::onRemotePacket\<close> that fill it, and the loop of \<^verbatim>\<open>Switch::_trySend\<close> that cuts a packet
  into datagrams. \<open>dec\<close> is the verdict of \<^verbatim>\<open>IncomingPacket::tryDecode\<close> on a packet; the operations
  return the queue and the packets that they hand to it, or \<open>MemFault\<close> for an access outside the
  array of fragments. The exceptions of packet buffers end an operation where they are thrown and
  are caught by \<^verbatim>\<open>onRemotePacket\<close>. The members of an unused entry are arbitrary, since its
  constructor only clears the time stamp.
\<close>

section \<open>The receive queue\<close>

abbreviation (input) ZT_RX_QUEUE_SIZE :: nat where "ZT_RX_QUEUE_SIZE \<equiv> 64"
abbreviation (input) ZT_RX_QUEUE_EXPIRE :: u64 where "ZT_RX_QUEUE_EXPIRE \<equiv> 4000"

record rx_entry =
  rx_timestamp :: u64
  rx_packetId :: u64
  rx_frag0 :: packet
  rx_frags :: "bytes list"
  rx_totalFragments :: nat
  rx_haveFragments :: u32
  rx_complete :: bool

type_synonym rx_queue = "rx_entry list"

fun find_loop :: "u64 \<Rightarrow> u64 \<Rightarrow> nat \<Rightarrow> nat \<Rightarrow> rx_queue \<Rightarrow> nat \<times> rx_queue" where
  "find_loop now pid 0 oldest q = (oldest, q)"
| "find_loop now pid (Suc i) oldest q =
     (let rq = q ! i in
      if rx_packetId rq = pid \<and> rx_timestamp rq \<noteq> 0 then (i, q)
      else let rq = (if now - rx_timestamp rq \<ge> ZT_RX_QUEUE_EXPIRE then rq\<lparr>rx_timestamp := 0\<rparr> else rq);
               q = q[i := rq]
           in find_loop now pid i (if rx_timestamp rq < rx_timestamp (q ! oldest) then i else oldest) q)"

definition findRXQueueEntry :: "u64 \<Rightarrow> u64 \<Rightarrow> rx_queue \<Rightarrow> nat \<times> rx_queue" where
  "findRXQueueEntry now pid q = find_loop now pid ZT_RX_QUEUE_SIZE (ZT_RX_QUEUE_SIZE - 1) q"

text \<open>
  The loop that appends the payloads of the fragments to the head: \<open>n\<close> iterations from the current
  place in the array on, of which \<open>fs\<close> is the rest. An iteration behind the end of the array faults;
  an exception of \<^verbatim>\<open>append\<close> ends the loop. The result is whether it ended without an exception, and
  the head as far as it got.
\<close>

fun assemble :: "packet \<Rightarrow> bytes list \<Rightarrow> nat \<Rightarrow> (bool \<times> packet) res" where
  "assemble frag0 fs 0 = Inr (True, frag0)"
| "assemble frag0 [] (Suc n) = Inl MemFault"
| "assemble frag0 (f # fs) (Suc n) =
     (case ebind (Fragment_payload f) (\<lambda>b. bs_append ZT_PROTO_MAX_PACKET_LENGTH frag0 (take (Fragment_payloadLength f) b)) of
        Inl _ \<Rightarrow> Inr (False, frag0)
      | Inr frag0 \<Rightarrow> assemble frag0 fs n)"

text \<open>Assembling and decoding: the entry afterwards and what went to \<^verbatim>\<open>tryDecode\<close>.\<close>

definition rx_finish :: "(packet \<Rightarrow> bool) \<Rightarrow> nat \<Rightarrow> rx_entry \<Rightarrow> (rx_entry \<times> packet list) res" where
  "rx_finish dec total_frags rq =
     ebind (assemble (rx_frag0 rq) (rx_frags rq) (total_frags - 1)) (\<lambda>(ok, p).
       let rq = rq\<lparr>rx_frag0 := p\<rparr>
       in if \<not> ok then Inr (rq, [])
          else if dec p then Inr (rq\<lparr>rx_timestamp := 0\<rparr>, [p])
          else Inr (rq\<lparr>rx_complete := True\<rparr>, [p]))"

text \<open>The assignment \<^verbatim>\<open>rq->frags[fragmentNumber - 1] = fragment\<close>, with the index in 32 bits.\<close>

definition store_frag :: "bytes list \<Rightarrow> nat \<Rightarrow> bytes \<Rightarrow> bytes list res" where
  "store_frag fs no f =
     (if u32_sub no 1 < length fs then Inr (fs[u32_sub no 1 := f]) else Inl MemFault)"

definition rx_fragment :: "(packet \<Rightarrow> bool) \<Rightarrow> u64 \<Rightarrow> bytes \<Rightarrow> rx_queue \<Rightarrow> (rx_queue \<times> packet list) res" where
  "rx_fragment dec now f q =
     (case (Fragment_packetId f, fragmentNumber f, totalFragments f) of
        (Inr pid, Inr no, Inr tot) \<Rightarrow>
          if tot \<le> ZT_MAX_PACKET_FRAGMENTS \<and> no < ZT_MAX_PACKET_FRAGMENTS \<and> no > 0 \<and> tot > 1 then
            (let (i, q) = findRXQueueEntry now pid q; rq = q ! i in
             if rx_timestamp rq = 0 \<or> rx_packetId rq \<noteq> pid then
               ebind (store_frag (rx_frags rq) no f) (\<lambda>fs.
                 Inr (q[i := rq\<lparr>rx_timestamp := now, rx_packetId := pid, rx_frags := fs,
                           rx_totalFragments := tot, rx_haveFragments := push_bit no 1, rx_complete := False\<rparr>], []))
             else if \<not> bit (rx_haveFragments rq) no then
               ebind (store_frag (rx_frags rq) no f) (\<lambda>fs.
                 let rq = rq\<lparr>rx_frags := fs, rx_totalFragments := tot,
                             rx_haveFragments := rx_haveFragments rq OR push_bit no 1\<rparr> in
                 if unat (countBits (rx_haveFragments rq)) = tot then
                   ebind (rx_finish dec tot rq) (\<lambda>(rq, out). Inr (q[i := rq], out))
                 else Inr (q[i := rq], []))
             else Inr (q, []))
          else Inr (q, [])
      | _ \<Rightarrow> Inr (q, []))"

definition rx_head :: "(packet \<Rightarrow> bool) \<Rightarrow> u64 \<Rightarrow> bytes \<Rightarrow> rx_queue \<Rightarrow> (rx_queue \<times> packet list) res" where
  "rx_head dec now d q =
     (let pid = be_dec (take 8 d); (i, q) = findRXQueueEntry now pid q; rq = q ! i in
      if rx_timestamp rq = 0 \<or> rx_packetId rq \<noteq> pid then
        (let rq = rq\<lparr>rx_timestamp := now, rx_packetId := pid\<rparr> in
         if length d > ZT_PROTO_MAX_PACKET_LENGTH then Inr (q[i := rq], [])
         else Inr (q[i := rq\<lparr>rx_frag0 := d, rx_totalFragments := 0, rx_haveFragments := 1, rx_complete := False\<rparr>], []))
      else if \<not> bit (rx_haveFragments rq) 0 then
        (let rq = (if rx_totalFragments rq > 1 then rq\<lparr>rx_haveFragments := rx_haveFragments rq OR 1\<rparr> else rq) in
         if length d > ZT_PROTO_MAX_PACKET_LENGTH then Inr (q[i := rq], [])
         else if rx_totalFragments rq > 1 \<and> unat (countBits (rx_haveFragments rq)) = rx_totalFragments rq then
           ebind (rx_finish dec (rx_totalFragments rq) (rq\<lparr>rx_frag0 := d\<rparr>)) (\<lambda>(rq, out). Inr (q[i := rq], out))
         else Inr (q[i := rq\<lparr>rx_frag0 := d\<rparr>], []))
      else Inr (q, []))"

text \<open>The entry for an undecodable unfragmented packet: the first free one from the end, or the oldest.\<close>

fun free_loop :: "rx_queue \<Rightarrow> nat \<Rightarrow> nat \<Rightarrow> nat" where
  "free_loop q 0 r = r"
| "free_loop q (Suc i) r =
     (if rx_timestamp (q ! r) \<noteq> 0 then
        free_loop q i (if rx_timestamp (q ! i) < rx_timestamp (q ! r) then i else r)
      else r)"

definition rx_whole :: "(packet \<Rightarrow> bool) \<Rightarrow> u64 \<Rightarrow> bytes \<Rightarrow> rx_queue \<Rightarrow> (rx_queue \<times> packet list) res" where
  "rx_whole dec now d q =
     (if length d > ZT_PROTO_MAX_PACKET_LENGTH then Inr (q, [])
      else if dec d then Inr (q, [d])
      else case packetId d of
             Inl _ \<Rightarrow> Inr (q, [d])
           | Inr pid \<Rightarrow>
               (let i = free_loop q (ZT_RX_QUEUE_SIZE - 1) (ZT_RX_QUEUE_SIZE - 1) in
                Inr (q[i := (q ! i)\<lparr>rx_timestamp := now, rx_packetId := pid, rx_frag0 := d,
                               rx_totalFragments := 1, rx_haveFragments := 1, rx_complete := True\<rparr>], [d])))"

text \<open>A datagram whose destination is this node, by its form; \<open>self\<close> is the own address.\<close>

definition rx_local ::
  "address \<Rightarrow> (packet \<Rightarrow> bool) \<Rightarrow> u64 \<Rightarrow> bytes \<Rightarrow> rx_queue \<Rightarrow> (rx_queue \<times> packet list) res" where
  "rx_local self dec now d q =
     (if length d > ZT_PROTO_MIN_FRAGMENT_LENGTH then
        if d ! 13 = 0xff then
          (if length d > ZT_PROTO_MAX_PACKET_LENGTH then Inr (q, []) else rx_fragment dec now d q)
        else if length d \<ge> ZT_PROTO_MIN_PACKET_LENGTH then
          (if Address_setTo (sub 13 5 d) = self then Inr (q, [])
           else if d ! 18 AND 0x40 \<noteq> 0 then rx_head dec now d q
           else rx_whole dec now d q)
        else Inr (q, [])
      else Inr (q, []))"

text \<open>Retrying the complete packets when an identity becomes known, from the last entry to the first.\<close>

fun rx_retry :: "(packet \<Rightarrow> bool) \<Rightarrow> nat \<Rightarrow> rx_queue \<Rightarrow> rx_queue \<times> packet list" where
  "rx_retry dec 0 q = (q, [])"
| "rx_retry dec (Suc i) q =
     (let rq = q ! i in
      if rx_timestamp rq \<noteq> 0 \<and> rx_complete rq then
        (let (q', out) = rx_retry dec i (if dec (rx_frag0 rq) then q[i := rq\<lparr>rx_timestamp := 0\<rparr>] else q)
         in (q', rx_frag0 rq # out))
      else rx_retry dec i q)"

section \<open>Fragmentation\<close>

text \<open>The loop over the fragments: the datagrams sent, and the exception that ended it, if any.\<close>

function frag_loop :: "packet \<Rightarrow> nat \<Rightarrow> nat \<Rightarrow> nat \<Rightarrow> nat \<Rightarrow> bytes list \<times> exn option" where
  "frag_loop p fno tot fragStart remaining =
     (if fno < tot then
        (let chunkSize = min remaining (ZT_UDP_DEFAULT_PAYLOAD_MTU - ZT_PROTO_MIN_FRAGMENT_LENGTH) in
         case Fragment_init p fragStart chunkSize fno tot of
           Inl e \<Rightarrow> ([], Some e)
         | Inr f \<Rightarrow> (let (fs, e) = frag_loop p (fno + 1) tot (fragStart + chunkSize) (remaining - chunkSize)
                    in (f # fs, e)))
      else ([], None))"
  by pat_completeness auto
termination by (relation "measure (\<lambda>(p, fno, tot, _, _). tot - fno)") auto

declare frag_loop.simps [simp del]

text \<open>The number of fragments, the head included, for a packet that needs more than one datagram.\<close>

definition fragment_count :: "nat \<Rightarrow> nat" where
  "fragment_count remaining =
     (let n = remaining div (ZT_UDP_DEFAULT_PAYLOAD_MTU - ZT_PROTO_MIN_FRAGMENT_LENGTH) in
      (if n * (ZT_UDP_DEFAULT_PAYLOAD_MTU - ZT_PROTO_MIN_FRAGMENT_LENGTH) < remaining then n + 1 else n) + 1)"

definition send_datagrams :: "packet \<Rightarrow> bytes list \<times> exn option" where
  "send_datagrams p =
     (let chunkSize = min (length p) ZT_UDP_DEFAULT_PAYLOAD_MTU; d = take chunkSize p in
      if chunkSize < length p then
        (let remaining = length p - chunkSize;
             (fs, e) = frag_loop p 1 (fragment_count remaining) chunkSize remaining
         in (d # fs, e))
      else ([d], None))"

section \<open>Cutting a packet\<close>

text \<open>The datagrams of a packet: its first 1444 bytes, and fragments of up to 1428 bytes each.\<close>

definition piece :: "packet \<Rightarrow> nat \<Rightarrow> nat \<Rightarrow> bytes" where
  "piece p tot k =
     (if k = 0 then take 1444 p
      else take 13 p @ [0xff, push_bit 4 (of_nat tot AND 0xf) OR (of_nat k AND 0xf), 0] @ sub (1444 + 1428 * (k - 1)) 1428 p)"

lemma frag_loop_pieces:
  assumes "13 \<le> length p" and "1 \<le> fno" and "tot \<le> fno + n" and "fno \<le> tot"
    and "start = min (length p) (1444 + 1428 * (fno - 1))" and "rem = length p - start"
    and "\<And>k. k < tot \<Longrightarrow> 1 \<le> k \<Longrightarrow> 1444 + 1428 * (k - 1) \<le> length p"
  shows "frag_loop p fno tot start rem = (map (piece p tot) [fno..<tot], None)"
  using assms
proof (induction n arbitrary: fno start rem)
  case 0
  then show ?case by (subst frag_loop.simps) simp
next
  case (Suc n)
  show ?case
  proof (cases "fno < tot")
    case True
    have st: "start = 1444 + 1428 * (fno - 1)" "start \<le> length p" using Suc.prems True by auto
    define c where "c = min rem 1428"
    have c: "start + c \<le> length p" "c + 16 \<le> 5776" "sub start c p = sub start 1428 p"
      using Suc.prems(6) st by (auto simp: c_def sub_def min_def)
    have n: "fno + 1 \<le> tot" "tot \<le> fno + 1 + n" using True Suc.prems by auto
    have nx: "start + c = min (length p) (1444 + 1428 * (fno + 1 - 1))" "rem - c = length p - (start + c)"
      using Suc.prems(2,6) st by (auto simp: c_def min_def)
    have "Fragment_init p start c fno tot = Inr (piece p tot fno)"
      using Fragment_init_ok [OF Suc.prems(1) c(1,2), of fno tot] Suc.prems(2) c(3) st by (simp add: piece_def)
    moreover have "frag_loop p (fno + 1) tot (start + c) (rem - c) = (map (piece p tot) [fno + 1..<tot], None)"
      using Suc.IH [OF Suc.prems(1) _ n(2,1) nx Suc.prems(7)] by simp
    ultimately show ?thesis
      using True by (subst frag_loop.simps) (simp add: c_def [symmetric] upt_conv_Cons)
  qed (use Suc.prems in \<open>subst frag_loop.simps; simp\<close>)
qed

lemma fragment_count_bounds:
  assumes "0 < rem"
  shows "2 \<le> fragment_count rem" "rem \<le> 1428 * (fragment_count rem - 1)" "1428 * (fragment_count rem - 2) < rem"
proof -
  define n where "n = rem div 1428"
  have r: "rem = 1428 * n + rem mod 1428" "rem mod 1428 < 1428" by (simp_all add: n_def)
  show "2 \<le> fragment_count rem" "rem \<le> 1428 * (fragment_count rem - 1)" "1428 * (fragment_count rem - 2) < rem"
    using assms r by (auto simp: fragment_count_def Let_def simp flip: n_def)
qed

lemma send_datagrams_pieces:
  assumes "1444 < length p"
  defines "tot \<equiv> fragment_count (length p - 1444)"
  shows "send_datagrams p = (map (piece p tot) [0..<tot], None)"
proof -
  have t: "2 \<le> tot" "1428 * (tot - 2) < length p - 1444"
    using fragment_count_bounds [of "length p - 1444"] assms by simp_all
  have "1444 + 1428 * (k - 1) \<le> length p" if "k < tot" "1 \<le> k" for k
  proof -
    have "1428 * (k - 1) \<le> 1428 * (tot - 2)" using that by simp
    then show ?thesis using t(2) by linarith
  qed
  then have loop: "frag_loop p 1 tot 1444 (length p - 1444) = (map (piece p tot) [1..<tot], None)"
    using assms t(1) by (intro frag_loop_pieces [where n = tot]) auto
  have u: "[0..<tot] = 0 # [1..<tot]" using t(1) by (simp add: upt_conv_Cons)
  have m: "min (length p) 1444 = 1444" and z: "piece p tot 0 = take 1444 p"
    using assms(1) by (simp_all add: piece_def)
  show ?thesis
    by (simp only: send_datagrams_def Let_def m if_P [OF assms(1)] tot_def [symmetric] loop u z list.map prod.case)
qed

lemma piece_payloads:
  "take 1444 p @ concat (map (\<lambda>k. sub (1444 + 1428 * (k - 1)) 1428 p) [1..<Suc n]) = take (1444 + 1428 * n) p"
proof (induction n)
  case (Suc n)
  have "take (1444 + 1428 * Suc n) p = take (1444 + 1428 * n) p @ sub (1444 + 1428 * n) 1428 p"
    by (simp add: sub_def take_add [symmetric])
  with Suc show ?case by simp
qed simp

text \<open>
  C9. Fragmentation: a packet longer than a datagram is sent without exception as a head of 1444
  bytes and numbered fragments; each datagram fits 1444 bytes, every fragment carries the packet
  id, the destination, its number and the number of datagrams, and head and payloads concatenate
  to the packet. With more than 5728 bytes the number is 5 or more.
\<close>

theorem send_datagrams_correct:
  assumes "1444 < length p" and "length p \<le> ZT_PROTO_MAX_PACKET_LENGTH"
  shows "\<exists>fs. send_datagrams p = (take 1444 p # fs, None)
    \<and> take 1444 p @ concat (map (drop 16) fs) = p
    \<and> (\<forall>d \<in> set fs. length d \<le> 1444)
    \<and> (\<forall>k < length fs. fragmentNumber (fs ! k) = Inr (Suc k) \<and> totalFragments (fs ! k) = Inr (Suc (length fs))
         \<and> Fragment_packetId (fs ! k) = packetId p \<and> Fragment_destination (fs ! k) = destination p)
    \<and> (length fs \<le> 3 \<longleftrightarrow> length p \<le> 5728)"
proof -
  define tot where "tot = fragment_count (length p - 1444)"
  define fs where "fs = map (piece p tot) [1..<tot]"
  have t: "2 \<le> tot" "length p - 1444 \<le> 1428 * (tot - 1)" "1428 * (tot - 2) < length p - 1444"
    using fragment_count_bounds [of "length p - 1444"] assms by (simp_all add: tot_def)
  have t5: "tot \<le> 5" using t(3) assms by linarith
  have "send_datagrams p = (take 1444 p # fs, None)"
  proof -
    have u: "[0..<tot] = 0 # [1..<tot]" using t(1) by (simp add: upt_conv_Cons)
    have z: "piece p tot 0 = take 1444 p" by (simp add: piece_def)
    show ?thesis
      using send_datagrams_pieces [OF assms(1)] by (simp only: tot_def [symmetric] u z list.map fs_def)
  qed
  moreover have "map (drop 16) fs = map (\<lambda>k. sub (1444 + 1428 * (k - 1)) 1428 p) [1..<tot]"
    using assms by (simp add: fs_def piece_def)
  then have "take 1444 p @ concat (map (drop 16) fs) = take (1444 + 1428 * (tot - 1)) p"
    using piece_payloads [of p "tot - 1"] t(1) by simp
  then have "take 1444 p @ concat (map (drop 16) fs) = p" using t(2) by simp
  moreover have "\<forall>d \<in> set fs. length d \<le> 1444" by (auto simp: fs_def piece_def)
  moreover have "fragmentNumber (fs ! k) = Inr (Suc k) \<and> totalFragments (fs ! k) = Inr (Suc (length fs))
      \<and> Fragment_packetId (fs ! k) = packetId p \<and> Fragment_destination (fs ! k) = destination p" if "k < length fs" for k
    using that Fragment_fields [of "take 13 p" tot "Suc k" 0 "sub (1444 + 1428 * k) 1428 p"] assms t5 t(1)
    by (simp add: fs_def piece_def packetId_def destination_def bs_at_def bs_field_def sub_def drop_take)
  moreover have "length fs \<le> 3 \<longleftrightarrow> length p \<le> 5728"
  proof -
    have "tot \<le> 4 \<longleftrightarrow> length p \<le> 5728"
    proof
      assume "tot \<le> 4"
      then have "1428 * (tot - 1) \<le> 1428 * 3" by simp
      then show "length p \<le> 5728" using t(2) by linarith
    next
      assume "length p \<le> 5728"
      then have "1428 * (tot - 2) < 1428 * 3" using t(3) by linarith
      then show "tot \<le> 4" by simp
    qed
    then show ?thesis using t(1) by (auto simp: fs_def)
  qed
  ultimately show ?thesis by blast
qed

theorem send_datagrams_correct_witness:
  "\<exists>fs. send_datagrams (replicate 3000 7) = (take 1444 (replicate 3000 7) # fs, None)
    \<and> take 1444 (replicate 3000 7) @ concat (map (drop 16) fs) = replicate 3000 7"
  using send_datagrams_correct [of "replicate 3000 7"] by auto

section \<open>Finding an entry\<close>

definition rx_match :: "u64 \<Rightarrow> rx_entry \<Rightarrow> bool" where
  "rx_match pid rq \<longleftrightarrow> rx_packetId rq = pid \<and> rx_timestamp rq \<noteq> 0"

text \<open>What the search may do to an entry on its way: let it expire.\<close>

definition faded :: "rx_entry \<Rightarrow> rx_entry \<Rightarrow> bool" where
  "faded rq rq' \<longleftrightarrow> rq' = rq \<or> rq' = rq\<lparr>rx_timestamp := 0\<rparr>"

lemma faded_match: "faded rq rq' \<Longrightarrow> rx_match pid rq' \<Longrightarrow> rx_match pid rq"
  by (auto simp: faded_def rx_match_def)

lemma faded_refl [simp]: "faded rq rq" by (simp add: faded_def)

lemma faded_trans: "faded a b \<Longrightarrow> faded b c \<Longrightarrow> faded a c"
  by (auto simp: faded_def)

lemma find_loop_Suc:
  assumes "\<not> rx_match pid (q ! n)"
  obtains e old' where "find_loop now pid (Suc n) old q = find_loop now pid n old' (q[n := e])"
    and "faded (q ! n) e" and "old' = n \<or> old' = old"
proof -
  define e where "e = (if now - rx_timestamp (q ! n) \<ge> 4000 then (q ! n)\<lparr>rx_timestamp := 0\<rparr> else q ! n)"
  have "faded (q ! n) e" by (simp add: e_def faded_def)
  moreover have "find_loop now pid (Suc n) old q =
      find_loop now pid n (if rx_timestamp e < rx_timestamp (q[n := e] ! old) then n else old) (q[n := e])"
  proof -
    have c: "\<not> (rx_packetId (q ! n) = pid \<and> rx_timestamp (q ! n) \<noteq> 0)" using assms by (simp add: rx_match_def)
    show ?thesis by (simp only: find_loop.simps Let_def if_not_P [OF c] e_def)
  qed
  ultimately show thesis by (intro that) auto
qed

lemma find_loop_faded:
  assumes "find_loop now pid n old q = (i, q')" and "n \<le> length q" and "old < length q"
  shows "i < length q \<and> length q' = length q \<and> (\<forall>j < length q. faded (q ! j) (q' ! j))"
  using assms
proof (induction n arbitrary: old q)
  case (Suc n)
  show ?case
  proof (cases "rx_match pid (q ! n)")
    case True
    with Suc.prems show ?thesis by (auto simp: rx_match_def)
  next
    case False
    then obtain e old' where e: "find_loop now pid n old' (q[n := e]) = (i, q')" "faded (q ! n) e" "old' < length q"
      using Suc.prems by (elim find_loop_Suc [of pid q n now old]) auto
    from Suc.IH [OF e(1)] e(3) Suc.prems(2)
    have "i < length q" "length q' = length q" "\<forall>j < length q. faded (q[n := e] ! j) (q' ! j)" by auto
    moreover have "faded (q ! j) (q[n := e] ! j)" if "j < length q" for j
      using e(2) that by (cases "j = n") simp_all
    ultimately show ?thesis using faded_trans by blast
  qed
qed simp

lemma find_loop_found:
  assumes "find_loop now pid n old q = (i, q')" and "n \<le> length q"
    and "k < n" and "rx_match pid (q ! k)" and "\<And>j. j < n \<Longrightarrow> rx_match pid (q ! j) \<Longrightarrow> j = k"
  shows "i = k \<and> q' ! k = q ! k"
  using assms
proof (induction n arbitrary: old q)
  case (Suc n)
  show ?case
  proof (cases "k = n")
    case True
    with Suc.prems show ?thesis by (simp add: rx_match_def)
  next
    case False
    then have n: "\<not> rx_match pid (q ! n)" "k < n" using Suc.prems(3) Suc.prems(5) [of n] by auto
    obtain e old' where e: "find_loop now pid n old' (q[n := e]) = (i, q')"
      using Suc.prems(1) n(1) by (elim find_loop_Suc [of pid q n now old]) auto
    have uniq: "j = k" if "j < n" "rx_match pid (q[n := e] ! j)" for j
      using that Suc.prems(5) [of j] by simp
    have "i = k \<and> q' ! k = q[n := e] ! k"
      by (rule Suc.IH [OF e _ n(2) _ uniq]) (use n Suc.prems(2,4) in simp_all)
    then show ?thesis using n by simp
  qed
qed simp

section \<open>Well-formed queues\<close>

text \<open>
  The arrays and buffers of C++ have fixed sizes. An entry in use has at most four fragments; the members of
  an entry that is not in use are arbitrary.
\<close>

definition rx_entry_ok :: "rx_entry \<Rightarrow> bool" where
  "rx_entry_ok rq \<longleftrightarrow> length (rx_frags rq) = 3 \<and> length (rx_frag0 rq) \<le> 5776 \<and> (rx_timestamp rq \<noteq> 0 \<longrightarrow> rx_totalFragments rq \<le> 4)"

definition rx_ok :: "rx_queue \<Rightarrow> bool" where
  "rx_ok q \<longleftrightarrow> length q = 64 \<and> (\<forall>rq \<in> set q. rx_entry_ok rq)"

lemma rx_ok_update: "rx_ok q \<Longrightarrow> rx_entry_ok rq \<Longrightarrow> rx_ok (q[i := rq])"
  using set_update_subset_insert [of q i rq] by (auto simp: rx_ok_def)

lemma findRXQueueEntry_ok:
  assumes "rx_ok q" and "findRXQueueEntry now pid q = (i, q')"
  shows "rx_ok q'" "i < 64" "rx_entry_ok (q' ! i)"
proof -
  have l: "length q = 64" using assms(1) by (simp add: rx_ok_def)
  have f: "i < 64" "length q' = 64" "\<And>j. j < 64 \<Longrightarrow> faded (q ! j) (q' ! j)"
    using find_loop_faded [of now pid 64 63 q i q'] assms(2) l by (simp_all add: findRXQueueEntry_def)
  have "rx_entry_ok (q' ! j)" if "j < 64" for j
    using f(3) [OF that] assms(1) l that nth_mem [of j q] by (auto simp: faded_def rx_entry_ok_def rx_ok_def)
  then show "rx_ok q'" "i < 64" "rx_entry_ok (q' ! i)"
    using f by (auto simp: rx_ok_def in_set_conv_nth)
qed

text \<open>As long as the loop stays inside the array, it appends to the head the payloads of a list of fragments.\<close>

fun append_payloads :: "packet \<Rightarrow> bytes list \<Rightarrow> bool \<times> packet" where
  "append_payloads h [] = (True, h)"
| "append_payloads h (f # fs) =
     (if length h + length (drop 16 f) > 5776 then (False, h) else append_payloads (h @ drop 16 f) fs)"

declare append_payloads.simps(2) [simp del]

lemma assemble_Cons:
  "assemble h (f # fs) (Suc n) =
    (if length h + length (drop 16 f) > 5776 then Inr (False, h) else assemble (h @ drop 16 f) fs n)"
  by (simp add: bs_append_def Fragment_payloadLength_def)

lemma assemble_inside: "n \<le> length fs \<Longrightarrow> assemble h fs n = Inr (append_payloads h (take n fs))"
proof (induction h fs n rule: assemble.induct)
  case (3 h f fs n)
  have IH: "assemble (h @ drop 16 f) fs n = Inr (append_payloads (h @ drop 16 f) (take n fs))"
    if "\<not> length h + length (drop 16 f) > 5776"
    using 3(1) [of "h @ drop 16 f"] that 3(2) by (simp add: bs_append_def Fragment_payloadLength_def)
  show ?case unfolding assemble_Cons take_Suc_Cons append_payloads.simps using IH by presburger
qed simp_all

text \<open>When the loop would leave the array, it depends on the sizes whether an exception ends it before.\<close>

lemma assemble_outside:
  "length fs < n \<Longrightarrow> assemble h fs n =
     (if fst (append_payloads h fs) then Inl MemFault else Inr (append_payloads h fs))"
proof (induction fs arbitrary: h n)
  case Nil
  then show ?case by (cases n) simp_all
next
  case (Cons f fs)
  then obtain k where k: "n = Suc k" "length fs < k" by (cases n) auto
  show ?case unfolding k(1) assemble_Cons append_payloads.simps using Cons.IH [OF k(2)] by simp
qed

lemma append_payloads_length: "length h \<le> 5776 \<Longrightarrow> length (snd (append_payloads h fs)) \<le> 5776"
proof (induction fs arbitrary: h)
  case (Cons f fs)
  then show ?case by (simp only: append_payloads.simps) (simp split: if_splits)
qed simp

lemma append_payloads_fit:
  "length h \<le> 5776 \<Longrightarrow> fst (append_payloads h fs) \<longleftrightarrow> length h + length (concat (map (drop 16) fs)) \<le> 5776"
proof (induction fs arbitrary: h)
  case (Cons f fs)
  show ?case
  proof (cases "length h + length (drop 16 f) > 5776")
    case True
    then show ?thesis by (simp add: append_payloads.simps del: length_drop)
  next
    case False
    then have "fst (append_payloads (h @ drop 16 f) fs) \<longleftrightarrow>
        length (h @ drop 16 f) + length (concat (map (drop 16) fs)) \<le> 5776"
      by (intro Cons.IH) (simp del: length_drop)
    with False show ?thesis by (simp add: append_payloads.simps add.assoc del: length_drop)
  qed
qed simp

lemma store_frag_ok:
  "0 < no \<Longrightarrow> no \<le> length fs \<Longrightarrow> no < 2 ^ 32 \<Longrightarrow> store_frag fs no f = Inr (fs[no - 1 := f])"
  by (simp add: store_frag_def u32_sub_exact)

lemma rx_finish_ok:
  assumes "rx_entry_ok rq" and "t \<le> 4" and "rx_totalFragments rq \<le> 4"
  obtains rq' out where "rx_finish dec t rq = Inr (rq', out)" and "rx_entry_ok rq'"
    and "\<And>p. p \<in> set out \<Longrightarrow> length p \<le> 5776"
proof -
  obtain ok p where a: "append_payloads (rx_frag0 rq) (take (t - 1) (rx_frags rq)) = (ok, p)" by fastforce
  have p: "length p \<le> 5776"
    using append_payloads_length [of "rx_frag0 rq"] assms(1) a by (metis rx_entry_ok_def snd_conv)
  have t: "t - 1 \<le> length (rx_frags rq)" using assms(1,2) by (simp add: rx_entry_ok_def)
  note f = rx_finish_def [of dec t rq, unfolded assemble_inside [OF t] a ebind.simps Let_def prod.case]
  consider "\<not> ok" | "ok" "dec p" | "ok" "\<not> dec p" by blast
  then show thesis
  proof cases
    case 1
    with f p assms show thesis by (intro that [of "rq\<lparr>rx_frag0 := p\<rparr>" "[]"]) (simp_all add: rx_entry_ok_def)
  next
    case 2
    with f p assms show thesis
      by (intro that [of "rq\<lparr>rx_frag0 := p, rx_timestamp := 0\<rparr>" "[p]"]) (simp_all add: rx_entry_ok_def)
  next
    case 3
    with f p assms show thesis
      by (intro that [of "rq\<lparr>rx_frag0 := p, rx_complete := True\<rparr>" "[p]"]) (simp_all add: rx_entry_ok_def)
  qed
qed

text \<open>The result of an operation that does not fault.\<close>

definition rx_result_ok :: "(rx_queue \<times> packet list) res \<Rightarrow> bool" where
  "rx_result_ok r \<longleftrightarrow> (\<exists>q out. r = Inr (q, out) \<and> rx_ok q \<and> (\<forall>p \<in> set out. length p \<le> 5776))"

lemma rx_result_ok_Inr [simp]: "rx_result_ok (Inr (q, out)) \<longleftrightarrow> rx_ok q \<and> (\<forall>p \<in> set out. length p \<le> 5776)"
  by (simp add: rx_result_ok_def)

lemma rx_finish_update:
  assumes "rx_ok q" and "rx_entry_ok rq" and "t \<le> 4" and "rx_totalFragments rq \<le> 4"
  shows "rx_result_ok (ebind (rx_finish dec t rq) (\<lambda>(rq, out). Inr (q[i := rq], out)))"
proof -
  obtain rq' out where "rx_finish dec t rq = Inr (rq', out)" "rx_entry_ok rq'" "\<And>p. p \<in> set out \<Longrightarrow> length p \<le> 5776"
    using rx_finish_ok [OF assms(2-4)] by metis
  then show ?thesis using rx_ok_update [OF assms(1)] by simp
qed

text \<open>The two handlers after the search.\<close>

lemma rx_fragment_eq:
  assumes "Fragment_packetId f = Inr pid" and "fragmentNumber f = Inr no" and "totalFragments f = Inr tot"
    and "tot \<le> 4 \<and> no < 4 \<and> no > 0 \<and> tot > 1" and "findRXQueueEntry now pid q = (i, q')"
    and "length (rx_frags (q' ! i)) = 3"
  defines "rq \<equiv> (q' ! i)\<lparr>rx_frags := (rx_frags (q' ! i))[no - 1 := f], rx_totalFragments := tot,
      rx_haveFragments := rx_haveFragments (q' ! i) OR push_bit no 1\<rparr>"
  shows "rx_fragment dec now f q =
    (if rx_timestamp (q' ! i) = 0 \<or> rx_packetId (q' ! i) \<noteq> pid then
       Inr (q'[i := (q' ! i)\<lparr>rx_timestamp := now, rx_packetId := pid, rx_frags := (rx_frags (q' ! i))[no - 1 := f],
              rx_totalFragments := tot, rx_haveFragments := push_bit no 1, rx_complete := False\<rparr>], [])
     else if \<not> bit (rx_haveFragments (q' ! i)) no then
       if unat (countBits (rx_haveFragments rq)) = tot then
         ebind (rx_finish dec tot rq) (\<lambda>(rq, out). Inr (q'[i := rq], out))
       else Inr (q'[i := rq], [])
     else Inr (q', []))"
proof -
  have st: "store_frag (rx_frags (q' ! i)) no f = Inr ((rx_frags (q' ! i))[no - 1 := f])"
    using assms(4,6) by (intro store_frag_ok) auto
  show ?thesis
    by (simp only: rx_fragment_def assms(1-3) prod.case sum.case if_P [OF assms(4)] assms(5) Let_def rq_def st
        ebind.simps)
qed

lemma rx_head_eq:
  assumes "findRXQueueEntry now (be_dec (take 8 d)) q = (i, q')" and "length d \<le> 5776"
  defines "rq \<equiv> (if rx_totalFragments (q' ! i) > 1
    then (q' ! i)\<lparr>rx_haveFragments := rx_haveFragments (q' ! i) OR 1\<rparr> else q' ! i)"
  shows "rx_head dec now d q =
    (if rx_timestamp (q' ! i) = 0 \<or> rx_packetId (q' ! i) \<noteq> be_dec (take 8 d) then
       Inr (q'[i := (q' ! i)\<lparr>rx_timestamp := now, rx_packetId := be_dec (take 8 d), rx_frag0 := d,
              rx_totalFragments := 0, rx_haveFragments := 1, rx_complete := False\<rparr>], [])
     else if \<not> bit (rx_haveFragments (q' ! i)) 0 then
       if rx_totalFragments rq > 1 \<and> unat (countBits (rx_haveFragments rq)) = rx_totalFragments rq then
         ebind (rx_finish dec (rx_totalFragments rq) (rq\<lparr>rx_frag0 := d\<rparr>)) (\<lambda>(rq, out). Inr (q'[i := rq], out))
       else Inr (q'[i := rq\<lparr>rx_frag0 := d\<rparr>], [])
     else Inr (q', []))"
proof -
  have l: "\<not> length d > 5776" using assms(2) by simp
  show ?thesis by (simp only: rx_head_def Let_def assms(1) prod.case if_not_P [OF l] rq_def)
qed

lemma rx_fragment_ok:
  assumes "rx_ok q"
  shows "rx_result_ok (rx_fragment dec now f q)"
proof (cases "(Fragment_packetId f, fragmentNumber f, totalFragments f)")
  case (fields a b c)
  show ?thesis
  proof (cases "\<exists>pid no tot. a = Inr pid \<and> b = Inr no \<and> c = Inr tot \<and> tot \<le> 4 \<and> no < 4 \<and> no > 0 \<and> tot > 1")
    case True
    then obtain pid no tot where v: "Fragment_packetId f = Inr pid" "fragmentNumber f = Inr no" "totalFragments f = Inr tot"
      "tot \<le> 4" "no < 4" "no > 0" "tot > 1"
      using fields by blast
    obtain i q' where f: "findRXQueueEntry now pid q = (i, q')" by fastforce
    note ok = findRXQueueEntry_ok [OF assms f]
    have len: "length (rx_frags (q' ! i)) = 3" using ok(3) by (simp add: rx_entry_ok_def)
    define rq where "rq = (q' ! i)\<lparr>rx_frags := (rx_frags (q' ! i))[no - 1 := f], rx_totalFragments := tot,
      rx_haveFragments := rx_haveFragments (q' ! i) OR push_bit no 1\<rparr>"
    have rq: "rx_entry_ok rq" "rx_totalFragments rq \<le> 4"
      using ok(3) v by (simp_all add: rq_def rx_entry_ok_def)
    have new: "rx_entry_ok ((q' ! i)\<lparr>rx_timestamp := now, rx_packetId := pid, rx_frags := (rx_frags (q' ! i))[no - 1 := f],
        rx_totalFragments := tot, rx_haveFragments := push_bit no 1, rx_complete := False\<rparr>)"
      using ok(3) v by (simp add: rx_entry_ok_def)
    show ?thesis
      using v ok(1) rx_ok_update [OF ok(1) new] rx_ok_update [OF ok(1) rq(1)]
        rx_finish_update [OF ok(1) rq(1) v(4) rq(2)]
      unfolding rx_fragment_eq [OF v(1-3) _ f len, simplified v, simplified] rq_def [symmetric]
      by simp
  next
    case False
    then show ?thesis using assms unfolding rx_fragment_def fields by (auto split: sum.splits)
  qed
qed

lemma rx_head_ok:
  assumes "rx_ok q" and "length d \<le> 5776"
  shows "rx_result_ok (rx_head dec now d q)"
proof -
  define pid :: u64 where "pid = be_dec (take 8 d)"
  obtain i q' where f: "findRXQueueEntry now pid q = (i, q')" by fastforce
  note ok = findRXQueueEntry_ok [OF assms(1) f]
  define rq where "rq = (if rx_totalFragments (q' ! i) > 1
    then (q' ! i)\<lparr>rx_haveFragments := rx_haveFragments (q' ! i) OR 1\<rparr> else q' ! i)"
  have rq: "rx_entry_ok (rq\<lparr>rx_frag0 := d\<rparr>)" "rx_timestamp rq = rx_timestamp (q' ! i)"
    "rx_totalFragments rq = rx_totalFragments (q' ! i)"
    using ok(3) assms(2) by (simp_all add: rq_def rx_entry_ok_def)
  have new: "rx_entry_ok ((q' ! i)\<lparr>rx_timestamp := now, rx_packetId := pid, rx_frag0 := d,
      rx_totalFragments := 0, rx_haveFragments := 1, rx_complete := False\<rparr>)"
    using ok(3) assms(2) by (simp add: rx_entry_ok_def)
  note eq = rx_head_eq [OF f [unfolded pid_def] assms(2), folded pid_def rq_def]
  show ?thesis
  proof (cases "rx_timestamp (q' ! i) = 0 \<or> rx_packetId (q' ! i) \<noteq> pid")
    case True
    then show ?thesis using rx_ok_update [OF ok(1) new, of i] unfolding eq by simp
  next
    case False
    then have t: "rx_totalFragments rq \<le> 4" using ok(3) by (simp add: rx_entry_ok_def rq)
    show ?thesis
      using rx_ok_update [OF ok(1) rq(1), of i] ok(1) t rx_finish_update [OF ok(1) rq(1) t, of dec i]
      unfolding eq if_not_P [OF False] by simp
  qed
qed

lemma rx_whole_ok:
  assumes "rx_ok q"
  shows "rx_result_ok (rx_whole dec now d q)"
proof -
  have "rx_entry_ok (q ! i)" if "i < 64" for i using assms that by (simp add: rx_ok_def)
  moreover have "free_loop q n r < 64" if "n \<le> 64" "r < 64" for n r
    using that by (induction q n r rule: free_loop.induct) auto
  ultimately have "rx_entry_ok (q ! free_loop q 63 63)" by simp
  then show ?thesis
    using assms by (auto simp: rx_whole_def Let_def rx_entry_ok_def intro!: rx_ok_update split: sum.splits)
qed

lemma rx_local_ok:
  assumes "rx_ok q" and "length d \<le> 5776"
  shows "rx_result_ok (rx_local self dec now d q)"
  using assms rx_fragment_ok rx_head_ok rx_whole_ok by (simp add: rx_local_def)

section \<open>Reassembly\<close>

text \<open>A packet that a peer sends to this node in two to four datagrams, and the number of them.\<close>

definition fragmentable :: "address \<Rightarrow> packet \<Rightarrow> bool" where
  "fragmentable self p \<longleftrightarrow> 1444 < length p \<and> length p \<le> 5728 \<and> p ! 13 \<noteq> 0xff \<and> p ! 18 AND 0x40 \<noteq> 0
     \<and> Address_setTo (sub 13 5 p) \<noteq> self"

abbreviation pieces :: "packet \<Rightarrow> nat" where
  "pieces p \<equiv> fragment_count (length p - 1444)"

abbreviation id_of :: "packet \<Rightarrow> u64" where
  "id_of p \<equiv> be_dec (take 8 p)"

text \<open>An entry that has received the pieces \<open>S\<close> of a packet, and a queue with one such entry.\<close>

definition rx_holds :: "packet \<Rightarrow> nat set \<Rightarrow> rx_entry \<Rightarrow> bool" where
  "rx_holds p S rq \<longleftrightarrow> rx_match (id_of p) rq \<and> length (rx_frags rq) = 3
     \<and> (\<forall>k. bit (rx_haveFragments rq) k \<longleftrightarrow> k \<in> S)
     \<and> (0 \<in> S \<longrightarrow> rx_frag0 rq = piece p (pieces p) 0)
     \<and> (\<forall>k \<in> S. 0 < k \<longrightarrow> rx_frags rq ! (k - 1) = piece p (pieces p) k)
     \<and> rx_totalFragments rq = (if S = {0} then 0 else pieces p)"

definition rx_waiting :: "packet \<Rightarrow> nat set \<Rightarrow> rx_queue \<Rightarrow> bool" where
  "rx_waiting p S q \<longleftrightarrow> length q = 64 \<and> (\<forall>j < 64. length (rx_frags (q ! j)) = 3)
     \<and> (if S = {} then \<forall>j < 64. \<not> rx_match (id_of p) (q ! j)
        else \<exists>i < 64. rx_holds p S (q ! i) \<and> (\<forall>j < 64. j \<noteq> i \<longrightarrow> \<not> rx_match (id_of p) (q ! j)))"

lemma fragmentable_pieces:
  assumes "fragmentable self p"
  shows "2 \<le> pieces p" "pieces p \<le> 4" "length p \<le> 1444 + 1428 * (pieces p - 1)"
    "\<And>k. k < pieces p \<Longrightarrow> 0 < k \<Longrightarrow> 1444 + 1428 * (k - 1) < length p"
proof -
  have l: "1444 < length p" "length p \<le> 5728" using assms by (simp_all add: fragmentable_def)
  note b = fragment_count_bounds [of "length p - 1444"]
  show "2 \<le> pieces p" "length p \<le> 1444 + 1428 * (pieces p - 1)" using b l by simp_all
  have c: "1428 * (pieces p - 2) < length p - 1444" using b(3) l by simp
  then have "1428 * (pieces p - 2) < 1428 * 3" using l by linarith
  then show "pieces p \<le> 4" by simp
  fix k assume "k < pieces p" "0 < k"
  then have "1428 * (k - 1) \<le> 1428 * (pieces p - 2)" by simp
  then show "1444 + 1428 * (k - 1) < length p" using c by linarith
qed

lemma find_waiting:
  assumes "rx_waiting p S q" and "findRXQueueEntry now (id_of p) q = (i, q')"
  shows "length q' = 64" "i < 64" "\<And>j. j < 64 \<Longrightarrow> length (rx_frags (q' ! j)) = 3"
    "\<And>j. j < 64 \<Longrightarrow> j \<noteq> i \<Longrightarrow> \<not> rx_match (id_of p) (q' ! j)"
    "S = {} \<Longrightarrow> \<not> rx_match (id_of p) (q' ! i)" "S \<noteq> {} \<Longrightarrow> rx_holds p S (q' ! i)"
proof -
  have l: "length q = 64" "\<And>j. j < 64 \<Longrightarrow> length (rx_frags (q ! j)) = 3" using assms(1) by (simp_all add: rx_waiting_def)
  have f: "i < 64 \<and> length q' = 64 \<and> (\<forall>j < 64. faded (q ! j) (q' ! j))"
    using find_loop_faded [of now "id_of p" 64 63 q i q'] assms(2) l(1) by (simp add: findRXQueueEntry_def)
  then show "length q' = 64" "i < 64" "\<And>j. j < 64 \<Longrightarrow> length (rx_frags (q' ! j)) = 3"
    using l(2) by (auto simp: faded_def)
  have n: "\<not> rx_match (id_of p) (q' ! j)" if "\<not> rx_match (id_of p) (q ! j)" "j < 64" for j
    using that f faded_match by blast
  show "S = {} \<Longrightarrow> \<not> rx_match (id_of p) (q' ! i)" using assms(1) n f by (simp add: rx_waiting_def)
  have found: "i = k \<and> q' ! k = q ! k"
    if "k < 64" "rx_holds p S (q ! k)" "\<forall>j < 64. j \<noteq> k \<longrightarrow> \<not> rx_match (id_of p) (q ! j)" for k
  proof (rule find_loop_found [of now "id_of p" 64 63 q i q' k])
    show "find_loop now (id_of p) 64 63 q = (i, q')" using assms(2) by (simp add: findRXQueueEntry_def)
    show "rx_match (id_of p) (q ! k)" using that(2) by (simp add: rx_holds_def)
    show "j = k" if "j < 64" "rx_match (id_of p) (q ! j)" for j
      using that \<open>\<forall>j < 64. j \<noteq> k \<longrightarrow> \<not> rx_match (id_of p) (q ! j)\<close> by blast
  qed (use that(1) l(1) in simp_all)
  show "S \<noteq> {} \<Longrightarrow> rx_holds p S (q' ! i)" using assms(1) found by (auto simp: rx_waiting_def)
  show "\<not> rx_match (id_of p) (q' ! j)" if "j < 64" "j \<noteq> i" for j
  proof (cases "S = {}")
    case True
    then show ?thesis using assms(1) n that by (simp add: rx_waiting_def)
  next
    case False
    then obtain k where k: "k < 64" "rx_holds p S (q ! k)" "\<forall>j < 64. j \<noteq> k \<longrightarrow> \<not> rx_match (id_of p) (q ! j)"
      using assms(1) by (auto simp: rx_waiting_def)
    then have "i = k" using found by blast
    then show ?thesis using k(3) n that by simp
  qed
qed

lemma waiting_update:
  assumes "length q' = 64" "i < 64" "\<And>j. j < 64 \<Longrightarrow> length (rx_frags (q' ! j)) = 3"
    "\<And>j. j < 64 \<Longrightarrow> j \<noteq> i \<Longrightarrow> \<not> rx_match (id_of p) (q' ! j)" and "rx_holds p S e" and "S \<noteq> {}"
  shows "rx_waiting p S (q'[i := e])"
proof -
  have "length (rx_frags e) = 3" using assms(5) by (simp add: rx_holds_def)
  then have "\<forall>j < 64. length (rx_frags (q'[i := e] ! j)) = 3"
    using assms(1-3) by (metis nth_list_update)
  moreover have "\<forall>j < 64. j \<noteq> i \<longrightarrow> \<not> rx_match (id_of p) (q'[i := e] ! j)" using assms(4) by simp
  ultimately show ?thesis
    using assms(1,2,5,6) unfolding rx_waiting_def by auto
qed

lemma countBits_card:
  assumes "\<And>k. bit h k \<longleftrightarrow> k \<in> S" and "S \<subseteq> {0..<4}"
  shows "unat (countBits h) = card S"
proof -
  have "take_bit 4 h = h" using assms by (intro bit_word_eqI) (auto simp: bit_simps)
  then have "unat h = take_bit 4 (unat h)" by (metis unsigned_take_bit_eq)
  then have "unat h < 16" using take_bit_nat_less_exp [of 4 "unat h"] by simp
  then have "h < 16" by (simp add: word_less_nat_alt)
  moreover have "length (filter (bit h) [0..<4]) = card S"
  proof -
    have "set (filter (bit h) [0..<4]) = S" using assms by auto
    then show ?thesis by (metis distinct_card distinct_filter distinct_upt)
  qed
  moreover have "card S \<le> 4" using card_mono [OF _ assms(2)] by simp
  ultimately show ?thesis by (simp add: countBits_small unat_of_nat take_bit_nat_eq_self)
qed

lemma full_iff_card: "S \<subseteq> {0..<n} \<Longrightarrow> card S = n \<longleftrightarrow> S = {0..<n :: nat}"
  by (metis card_atLeastLessThan card_subset_eq diff_zero finite_atLeastLessThan)

lemma append_payloads_all:
  "length h + length (concat (map (drop 16) fs)) \<le> 5776 \<Longrightarrow>
   append_payloads h fs = (True, h @ concat (map (drop 16) fs))"
proof (induction fs arbitrary: h)
  case (Cons f fs)
  have "append_payloads h (f # fs) = append_payloads (h @ drop 16 f) fs"
    unfolding append_payloads.simps using Cons.prems by (simp del: length_drop)
  also have "\<dots> = (True, (h @ drop 16 f) @ concat (map (drop 16) fs))"
    using Cons.prems by (intro Cons.IH) simp
  finally show ?case by simp
qed simp

lemma rx_finish_full:
  assumes "fragmentable self p" and "length (rx_frags rq) = 3" and "rx_frag0 rq = piece p (pieces p) 0"
    and "\<And>k. 0 < k \<Longrightarrow> k < pieces p \<Longrightarrow> rx_frags rq ! (k - 1) = piece p (pieces p) k"
  shows "\<exists>rq'. rx_finish dec (pieces p) rq = Inr (rq', [p])"
proof -
  note t = fragmentable_pieces [OF assms(1)]
  have l: "1444 < length p" "length p \<le> 5728" using assms(1) by (simp_all add: fragmentable_def)
  have fs: "take (pieces p - 1) (rx_frags rq) = map (piece p (pieces p)) [1..<pieces p]"
  proof (rule nth_equalityI)
    fix k assume "k < length (take (pieces p - 1) (rx_frags rq))"
    then have k: "Suc k < pieces p" "k < pieces p - 1" by auto
    then show "take (pieces p - 1) (rx_frags rq) ! k = map (piece p (pieces p)) [1..<pieces p] ! k"
      using assms(4) [of "Suc k"] by simp
  qed (use t(2) assms(2) in simp)
  have m: "map (drop 16) (map (piece p (pieces p)) [1..<pieces p]) = map (\<lambda>k. sub (1444 + 1428 * (k - 1)) 1428 p) [1..<pieces p]"
    using l by (simp add: piece_def)
  have p: "piece p (pieces p) 0 @ concat (map (drop 16) (map (piece p (pieces p)) [1..<pieces p])) = p"
    unfolding m using piece_payloads [of p "pieces p - 1"] t(1,3) by (simp add: piece_def)
  have "length (piece p (pieces p) 0) + length (concat (map (drop 16) (map (piece p (pieces p)) [1..<pieces p]))) = length p"
    using arg_cong [OF p, of length] by (simp only: length_append)
  then have len: "length (piece p (pieces p) 0) + length (concat (map (drop 16) (map (piece p (pieces p)) [1..<pieces p]))) \<le> 5776"
    using l(2) by linarith
  have "pieces p - 1 \<le> length (rx_frags rq)" using t(2) assms(2) by simp
  from assemble_inside [OF this, of "rx_frag0 rq"]
  have "assemble (rx_frag0 rq) (rx_frags rq) (pieces p - 1) = Inr (True, p)"
    unfolding assms(3) fs append_payloads_all [OF len] p .
  then show ?thesis by (cases "dec p") (simp_all add: rx_finish_def Let_def)
qed

lemma rx_local_head:
  assumes "fragmentable self p"
  shows "rx_local self dec now (piece p (pieces p) 0) q = rx_head dec now (take 1444 p) q"
proof -
  have l: "1444 < length p" using assms by (simp add: fragmentable_def)
  have "sub 13 5 (take 1444 p) = sub 13 5 p" using l by (simp add: sub_def drop_take)
  then show ?thesis using assms l by (simp add: rx_local_def piece_def fragmentable_def)
qed

lemma piece_fields:
  assumes "fragmentable self p" and "0 < k" and "k < pieces p"
  shows "Fragment_packetId (piece p (pieces p) k) = Inr (id_of p)" "fragmentNumber (piece p (pieces p) k) = Inr k"
    "totalFragments (piece p (pieces p) k) = Inr (pieces p)"
    "rx_local self dec now (piece p (pieces p) k) q = rx_fragment dec now (piece p (pieces p) k) q"
proof -
  note t = fragmentable_pieces [OF assms(1)]
  have l: "1444 < length p" using assms(1) by (simp add: fragmentable_def)
  define b where "b = sub (1444 + 1428 * (k - 1)) 1428 p"
  have b: "0 < length b" "length b \<le> 1428" using t(4) [OF assms(3,2)] by (auto simp: b_def)
  have f: "piece p (pieces p) k = take 13 p @ [0xff, push_bit 4 (of_nat (pieces p) AND 0xf) OR (of_nat k AND 0xf), 0] @ b"
    using assms(2) by (simp add: piece_def b_def)
  have n: "pieces p < 16" "k < 16" using t(2) assms(3) by simp_all
  note F = Fragment_fields [of "take 13 p", OF _ n, of 0 b, folded f]
  show "Fragment_packetId (piece p (pieces p) k) = Inr (id_of p)" "fragmentNumber (piece p (pieces p) k) = Inr k"
    "totalFragments (piece p (pieces p) k) = Inr (pieces p)"
    using F(1,2,4) l by simp_all
  show "rx_local self dec now (piece p (pieces p) k) q = rx_fragment dec now (piece p (pieces p) k) q"
    using F(7,8) l b by (simp add: rx_local_def)
qed

text \<open>One datagram of the packet, whether it is new or a duplicate, while the packet is incomplete.\<close>

abbreviation rx_progress :: "packet \<Rightarrow> nat set \<Rightarrow> (rx_queue \<times> packet list) res \<Rightarrow> bool" where
  "rx_progress p S r \<equiv>
     \<exists>q out. r = Inr (q, out) \<and> (if S = {0..<pieces p} then out = [p] else out = [] \<and> rx_waiting p S q)"

lemma rx_fragment_step:
  assumes "fragmentable self p" and "rx_waiting p S q" and "S \<subseteq> {0..<pieces p}" and "S \<noteq> {0..<pieces p}"
    and "0 < k" and "k < pieces p" and "now \<noteq> 0"
  shows "rx_progress p (insert k S) (rx_local self dec now (piece p (pieces p) k) q)"
proof -
  note t = fragmentable_pieces [OF assms(1)]
  note F = piece_fields [OF assms(1,5,6)]
  let ?f = "piece p (pieces p) k" and ?S = "insert k S"
  obtain i q' where f: "findRXQueueEntry now (id_of p) q = (i, q')" by fastforce
  note w = find_waiting [OF assms(2) f]
  have upd: "rx_waiting p T (q'[i := e])" if "rx_holds p T e" "T \<noteq> {}" for T e
    by (rule waiting_update [OF w(1,2) _ _ that]) (use w(3,4) in auto)
  have v: "pieces p \<le> 4 \<and> k < 4 \<and> k > 0 \<and> pieces p > 1" using t(1,2) assms(5,6) by auto
  note eq = rx_fragment_eq [OF F(1-3) v f w(3) [OF w(2)], of dec]
  have sub4: "?S \<subseteq> {0..<pieces p}" "?S \<subseteq> {0..<4}" using assms(3,6) t(2) by auto
  show ?thesis
  proof (cases "S = {}")
    case True
    have "{k} \<noteq> {0..<pieces p}" using assms(5,6) by auto
    moreover have "rx_waiting p {k} (q'[i := (q' ! i)\<lparr>rx_timestamp := now, rx_packetId := id_of p,
        rx_frags := (rx_frags (q' ! i))[k - 1 := ?f], rx_totalFragments := pieces p,
        rx_haveFragments := push_bit k 1, rx_complete := False\<rparr>])"
      using w(2,3) assms(5,7) v by (intro upd) (auto simp: rx_holds_def rx_match_def bit_simps)
    moreover have "rx_timestamp (q' ! i) = 0 \<or> rx_packetId (q' ! i) \<noteq> id_of p"
      using w(5) [OF True] by (auto simp: rx_match_def)
    ultimately show ?thesis unfolding F(4) eq using True by simp
  next
    case False
    note h = w(6) [OF False, unfolded rx_holds_def]
    then have m: "\<not> (rx_timestamp (q' ! i) = 0 \<or> rx_packetId (q' ! i) \<noteq> id_of p)" by (auto simp: rx_match_def)
    show ?thesis
    proof (cases "k \<in> S")
      case True
      then have "rx_local self dec now ?f q = Inr (q', [])" unfolding F(4) eq if_not_P [OF m] using h by simp
      moreover have "rx_waiting p S q'" using upd [of S "q' ! i"] w(6) [OF False] False by simp
      ultimately show ?thesis using True assms(4) by (simp add: insert_absorb)
    next
      case new: False
      define rq where "rq = (q' ! i)\<lparr>rx_frags := (rx_frags (q' ! i))[k - 1 := ?f], rx_totalFragments := pieces p,
        rx_haveFragments := rx_haveFragments (q' ! i) OR push_bit k 1\<rparr>"
      have inj: "k - Suc 0 = j - Suc 0 \<longleftrightarrow> j = k" if "0 < j" for j using assms(5) that by auto
      have rq: "rx_holds p ?S rq"
        using h assms(5) v new by (auto simp: rq_def rx_holds_def rx_match_def bit_simps nth_list_update inj)
      have b: "bit (rx_haveFragments rq) j \<longleftrightarrow> j \<in> ?S" for j using rq by (simp add: rx_holds_def)
      have c: "unat (countBits (rx_haveFragments rq)) = pieces p \<longleftrightarrow> ?S = {0..<pieces p}"
        using countBits_card [OF b sub4(2)] full_iff_card [OF sub4(1)] by simp
      have e: "rx_local self dec now ?f q = (if ?S = {0..<pieces p}
          then ebind (rx_finish dec (pieces p) rq) (\<lambda>(rq, out). Inr (q'[i := rq], out)) else Inr (q'[i := rq], []))"
        unfolding F(4) eq if_not_P [OF m] rq_def [symmetric] c using h new by simp
      show ?thesis
      proof (cases "?S = {0..<pieces p}")
        case True
        then have "\<exists>rq'. rx_finish dec (pieces p) rq = Inr (rq', [p])"
          using rq assms(5,6) by (intro rx_finish_full [OF assms(1)]) (auto simp: rx_holds_def)
        then show ?thesis using e True by auto
      next
        case False
        then show ?thesis using e upd [OF rq] by simp
      qed
    qed
  qed
qed

lemma rx_head_step:
  assumes "fragmentable self p" and "rx_waiting p S q" and "S \<subseteq> {0..<pieces p}" and "S \<noteq> {0..<pieces p}"
    and "now \<noteq> 0"
  shows "rx_progress p (insert 0 S) (rx_local self dec now (piece p (pieces p) 0) q)"
proof -
  note t = fragmentable_pieces [OF assms(1)]
  let ?h = "take 1444 p" and ?S = "insert 0 S"
  have h0: "piece p (pieces p) 0 = ?h" "be_dec (take 8 ?h) = id_of p" "length ?h \<le> 5776" by (simp_all add: piece_def)
  obtain i q' where f: "findRXQueueEntry now (id_of p) q = (i, q')" by fastforce
  note w = find_waiting [OF assms(2) f]
  have upd: "rx_waiting p T (q'[i := e])" if "rx_holds p T e" "T \<noteq> {}" for T e
    by (rule waiting_update [OF w(1,2) _ _ that]) (use w(3,4) in auto)
  note eq = rx_head_eq [of now ?h q i q' dec, unfolded h0(2), OF f h0(3)]
  have sub4: "?S \<subseteq> {0..<pieces p}" "?S \<subseteq> {0..<4}" using assms(3) t(1,2) by auto
  show ?thesis
  proof (cases "S = {}")
    case True
    have "{0} \<noteq> {0..<pieces p}"
    proof
      assume "{0} = {0..<pieces p}"
      then have "1 \<in> {0 :: nat}" using t(1) by auto
      then show False by simp
    qed
    moreover have "rx_waiting p {0} (q'[i := (q' ! i)\<lparr>rx_timestamp := now, rx_packetId := id_of p, rx_frag0 := ?h,
        rx_totalFragments := 0, rx_haveFragments := 1, rx_complete := False\<rparr>])"
      using w(2,3) assms(5) by (intro upd) (auto simp: rx_holds_def rx_match_def bit_simps piece_def)
    moreover have "rx_timestamp (q' ! i) = 0 \<or> rx_packetId (q' ! i) \<noteq> id_of p"
      using w(5) [OF True] by (auto simp: rx_match_def)
    ultimately show ?thesis unfolding rx_local_head [OF assms(1)] eq using True by simp
  next
    case False
    note h = w(6) [OF False, unfolded rx_holds_def]
    then have m: "\<not> (rx_timestamp (q' ! i) = 0 \<or> rx_packetId (q' ! i) \<noteq> id_of p)" by (auto simp: rx_match_def)
    show ?thesis
    proof (cases "0 \<in> S")
      case True
      then have "rx_local self dec now (piece p (pieces p) 0) q = Inr (q', [])"
        unfolding rx_local_head [OF assms(1)] eq if_not_P [OF m] using h by simp
      moreover have "rx_waiting p S q'" using upd [of S "q' ! i"] w(6) [OF False] False by simp
      ultimately show ?thesis using True assms(4) by (simp add: insert_absorb)
    next
      case new: False
      then have tot: "rx_totalFragments (q' ! i) = pieces p" "rx_totalFragments (q' ! i) > 1"
        using h False t(1) by auto
      define rq where "rq = (q' ! i)\<lparr>rx_haveFragments := rx_haveFragments (q' ! i) OR 1\<rparr>"
      have rq: "rx_holds p ?S (rq\<lparr>rx_frag0 := ?h\<rparr>)"
        using h False new by (auto simp: rq_def rx_holds_def rx_match_def bit_simps piece_def)
      have b: "bit (rx_haveFragments rq) j \<longleftrightarrow> j \<in> ?S" for j using rq by (simp add: rx_holds_def)
      have c: "unat (countBits (rx_haveFragments rq)) = pieces p \<longleftrightarrow> ?S = {0..<pieces p}"
        using countBits_card [OF b sub4(2)] full_iff_card [OF sub4(1)] by simp
      have tr: "rx_totalFragments rq = pieces p" "pieces p > 1" using tot by (simp_all add: rq_def)
      have e: "rx_local self dec now (piece p (pieces p) 0) q = (if ?S = {0..<pieces p}
          then ebind (rx_finish dec (pieces p) (rq\<lparr>rx_frag0 := ?h\<rparr>)) (\<lambda>(rq, out). Inr (q'[i := rq], out))
          else Inr (q'[i := rq\<lparr>rx_frag0 := ?h\<rparr>], []))"
        unfolding rx_local_head [OF assms(1)] eq if_not_P [OF m] if_P [OF tot(2)] rq_def [symmetric] tr(1) c
        using h new tr(2) by simp
      show ?thesis
      proof (cases "?S = {0..<pieces p}")
        case True
        then have "\<exists>rq'. rx_finish dec (pieces p) (rq\<lparr>rx_frag0 := ?h\<rparr>) = Inr (rq', [p])"
          using rq by (intro rx_finish_full [OF assms(1)]) (auto simp: rx_holds_def piece_def)
        then show ?thesis using e True by auto
      next
        case False
        then show ?thesis using e upd [OF rq] by simp
      qed
    qed
  qed
qed

text \<open>Receiving a list of datagrams, each at its time.\<close>

fun rx_run :: "address \<Rightarrow> (packet \<Rightarrow> bool) \<Rightarrow> (u64 \<times> bytes) list \<Rightarrow> rx_queue \<Rightarrow> (rx_queue \<times> packet list) res" where
  "rx_run self dec [] q = Inr (q, [])"
| "rx_run self dec ((now, d) # ds) q =
     ebind (rx_local self dec now d q) (\<lambda>(q, out).
       ebind (rx_run self dec ds q) (\<lambda>(q, out'). Inr (q, out @ out')))"

lemma ebind_Inr_right [simp]: "ebind m Inr = m"
  by (cases m) simp_all

lemma rx_run_append:
  "rx_run self dec (ds @ es) q =
    ebind (rx_run self dec ds q) (\<lambda>(q, out). ebind (rx_run self dec es q) (\<lambda>(q, out'). Inr (q, out @ out')))"
  by (induction self dec ds q rule: rx_run.induct)
    (auto simp: ebind_assoc split_beta intro!: arg_cong2 [where f = ebind])

lemma rx_step:
  assumes "fragmentable self p" and "rx_waiting p S q" and "S \<subseteq> {0..<pieces p}" and "S \<noteq> {0..<pieces p}"
    and "k < pieces p" and "now \<noteq> 0"
  shows "rx_progress p (insert k S) (rx_local self dec now (piece p (pieces p) k) q)"
proof (cases "k = 0")
  case True
  show ?thesis unfolding True by (rule rx_head_step [OF assms(1-4,6)])
next
  case False
  then have "0 < k" by simp
  from rx_fragment_step [OF assms(1-4) this assms(5,6)] show ?thesis .
qed

lemma rx_run_waiting:
  assumes "fragmentable self p" and "rx_waiting p S q"
    and "\<And>now k. (now, k) \<in> set ks \<Longrightarrow> now \<noteq> 0 \<and> k < pieces p"
    and "S \<union> snd ` set ks \<subset> {0..<pieces p}"
  shows "\<exists>q'. rx_run self dec (map (\<lambda>(now, k). (now, piece p (pieces p) k)) ks) q = Inr (q', [])
    \<and> rx_waiting p (S \<union> snd ` set ks) q'"
  using assms
proof (induction ks arbitrary: S q)
  case (Cons nk ks)
  obtain now k where nk: "nk = (now, k)" by (cases nk)
  have k: "now \<noteq> 0" "k < pieces p" using Cons.prems(3) [of now k] by (simp_all add: nk)
  have S: "S \<subseteq> {0..<pieces p}" "S \<noteq> {0..<pieces p}" "insert k S \<noteq> {0..<pieces p}"
    using Cons.prems(4) by (auto simp: nk)
  obtain q1 where q1: "rx_local self dec now (piece p (pieces p) k) q = Inr (q1, [])" "rx_waiting p (insert k S) q1"
    using rx_step [OF Cons.prems(1,2) S(1,2) k(2,1), of dec] S(3) by auto
  have u: "insert k S \<union> snd ` set ks = S \<union> snd ` set (nk # ks)" by (auto simp: nk)
  have "\<exists>q'. rx_run self dec (map (\<lambda>(now, k). (now, piece p (pieces p) k)) ks) q1 = Inr (q', [])
    \<and> rx_waiting p (insert k S \<union> snd ` set ks) q'"
  proof (rule Cons.IH [OF Cons.prems(1) q1(2)])
    show "now' \<noteq> 0 \<and> k' < pieces p" if "(now', k') \<in> set ks" for now' k'
      using Cons.prems(3) [of now' k'] that by simp
    show "insert k S \<union> snd ` set ks \<subset> {0..<pieces p}" unfolding u by (rule Cons.prems(4))
  qed
  then show ?case using q1(1) by (auto simp: nk u [unfolded nk])
qed simp

text \<open>
  C1. Reassembly: the datagrams into which a peer cuts a packet of up to 5728 bytes, received in any
  order and with any repetitions up to the one that completes it, on any receive queue that holds
  nothing under its packet id, give \<^verbatim>\<open>tryDecode\<close> exactly that packet, once. Nothing is handed over
  before.
\<close>

theorem reassembly:
  assumes "fragmentable self p" and "length q = 64" and "\<forall>rq \<in> set q. length (rx_frags rq) = 3"
    and "\<forall>rq \<in> set q. rx_packetId rq = id_of p \<longrightarrow> rx_timestamp rq = 0"
    and "\<forall>(now, k) \<in> set (ks @ [(t, l)]). now \<noteq> 0 \<and> k < length (fst (send_datagrams p))"
    and "l \<notin> snd ` set ks" and "set (map snd (ks @ [(t, l)])) = {0..<length (fst (send_datagrams p))}"
  defines "arrivals \<equiv> map (\<lambda>(now, k). (now, fst (send_datagrams p) ! k))"
  shows "(\<exists>q'. rx_run self dec (arrivals ks) q = Inr (q', []))
    \<and> (\<exists>q'. rx_run self dec (arrivals (ks @ [(t, l)])) q = Inr (q', [p]))"
proof -
  have s: "fst (send_datagrams p) = map (piece p (pieces p)) [0..<pieces p]"
    using send_datagrams_pieces [of p] assms(1) by (simp add: fragmentable_def)
  have n: "length (fst (send_datagrams p)) = pieces p" by (simp add: s)
  have w: "rx_waiting p {} q" using assms(2-4) by (auto simp: rx_waiting_def rx_match_def)
  have b: "now \<noteq> 0 \<and> k < pieces p" if "(now, k) \<in> set (ks @ [(t, l)])" for now k
    using assms(5) that unfolding n by auto
  have c: "insert l (snd ` set ks) = {0..<pieces p}" using assms(7) unfolding n by auto
  then have "{} \<union> snd ` set ks \<subset> {0..<pieces p}" using assms(6) by auto
  from rx_run_waiting [OF assms(1) w _ this, of dec] b
  obtain q1 where q1: "rx_run self dec (map (\<lambda>(now, k). (now, piece p (pieces p) k)) ks) q = Inr (q1, [])"
    "rx_waiting p (snd ` set ks) q1" by auto
  have l: "t \<noteq> 0" "l < pieces p" using b [of t l] by simp_all
  have S: "snd ` set ks \<subseteq> {0..<pieces p}" "snd ` set ks \<noteq> {0..<pieces p}" using c assms(6) l(2) by auto
  obtain q2 where q2: "rx_local self dec t (piece p (pieces p) l) q1 = Inr (q2, [p])"
    using rx_step [OF assms(1) q1(2) S l(2,1), of dec] c by auto
  have a: "arrivals xs = map (\<lambda>(now, k). (now, piece p (pieces p) k)) xs" if "\<And>now k. (now, k) \<in> set xs \<Longrightarrow> k < pieces p" for xs
    using that by (auto simp: arrivals_def s)
  have "arrivals ks = map (\<lambda>(now, k). (now, piece p (pieces p) k)) ks" using b by (intro a) auto
  moreover have "arrivals [(t, l)] = [(t, piece p (pieces p) l)]" using a [of "[(t, l)]"] l by simp
  moreover have "arrivals (ks @ [(t, l)]) = arrivals ks @ arrivals [(t, l)]" by (simp add: arrivals_def)
  ultimately show ?thesis using q1(1) q2 by (simp add: rx_run_append)
qed

theorem reassembly_witness:
  "\<exists>q'. rx_run 0 (\<lambda>_. True)
      [(6, fst (send_datagrams (replicate 18 1 @ 0x40 # replicate 1481 1)) ! 1),
       (7, fst (send_datagrams (replicate 18 1 @ 0x40 # replicate 1481 1)) ! 0)]
      (replicate 64 \<lparr>rx_timestamp = 0, rx_packetId = 0, rx_frag0 = [], rx_frags = [[], [], []],
         rx_totalFragments = 0, rx_haveFragments = 0, rx_complete = False\<rparr>)
    = Inr (q', [replicate 18 1 @ 0x40 # replicate 1481 1])"
proof -
  define p :: packet where "p = replicate 18 1 @ 0x40 # replicate 1481 1"
  have l: "length p = 1500" by (simp add: p_def)
  have "sub 13 5 p = [1, 1, 1, 1, 1]" by (simp add: p_def sub_def eval_nat_numeral)
  then have f: "fragmentable 0 p"
    by (simp add: fragmentable_def l Address_setTo_def) (simp add: p_def nth_append)
  have "length (fst (send_datagrams p)) = 2"
    using send_datagrams_pieces [of p] by (simp add: l fragment_count_def)
  moreover have "{Suc 0, 0} = {0..<2}" by auto
  ultimately show ?thesis
    using reassembly [OF f, of "replicate 64 \<lparr>rx_timestamp = 0, rx_packetId = 0, rx_frag0 = [], rx_frags = [[], [], []],
         rx_totalFragments = 0, rx_haveFragments = 0, rx_complete = False\<rparr>" "[(6, 1)]" 7 0 "\<lambda>_. True"]
    by (auto simp del: rx_run.simps simp flip: p_def)
qed

section \<open>Safety\<close>

lemma rx_run_ok:
  assumes "rx_ok q" and "\<And>now d. (now, d) \<in> set ds \<Longrightarrow> length d \<le> 5776"
  shows "rx_result_ok (rx_run self dec ds q)"
  using assms
proof (induction ds arbitrary: q)
  case (Cons nd ds)
  obtain now d where nd: "nd = (now, d)" by (cases nd)
  obtain q1 o1 where s: "rx_local self dec now d q = Inr (q1, o1)" "rx_ok q1" "\<forall>p \<in> set o1. length p \<le> 5776"
    using rx_local_ok [OF Cons.prems(1), of d self dec now] Cons.prems(2) [of now d] by (auto simp: rx_result_ok_def nd)
  have "rx_result_ok (rx_run self dec ds q1)" by (rule Cons.IH [OF s(2)]) (use Cons.prems(2) in auto)
  then show ?case using s by (auto simp: rx_result_ok_def nd)
qed simp

text \<open>
  C3. Memory safety of the receive queue: starting with entries that are not in use, whatever
  their other members hold, no sequence of datagrams of at most 5776 bytes makes storing a fragment
  write, or the assembly read, outside the array of fragments, and no packet handed to
  \<^verbatim>\<open>tryDecode\<close> exceeds the packet buffer.
\<close>

theorem rx_queue_safe:
  assumes "length q = 64" and "\<forall>rq \<in> set q. rx_timestamp rq = 0 \<and> length (rx_frags rq) = 3 \<and> length (rx_frag0 rq) \<le> 5776"
    and "\<forall>(now, d) \<in> set ds. length d \<le> ZT_PROTO_MAX_PACKET_LENGTH"
  shows "\<exists>q' out. rx_run self dec ds q = Inr (q', out) \<and> (\<forall>p \<in> set out. length p \<le> ZT_PROTO_MAX_PACKET_LENGTH)"
proof -
  have "rx_ok q" using assms(1,2) by (simp add: rx_ok_def rx_entry_ok_def)
  then have "rx_result_ok (rx_run self dec ds q)" using assms(3) by (intro rx_run_ok) auto
  then show ?thesis by (auto simp: rx_result_ok_def)
qed

theorem rx_queue_safe_witness:
  "\<exists>q' out. rx_run 0 (\<lambda>_. True) [(1, replicate 30 0)]
      (replicate 64 \<lparr>rx_timestamp = 0, rx_packetId = 9, rx_frag0 = [], rx_frags = [[], [], []],
         rx_totalFragments = 77, rx_haveFragments = 5, rx_complete = True\<rparr>) = Inr (q', out)"
  using rx_queue_safe [of "replicate 64 \<lparr>rx_timestamp = 0, rx_packetId = 9, rx_frag0 = [], rx_frags = [[], [], []],
         rx_totalFragments = 77, rx_haveFragments = 5, rx_complete = True\<rparr>" "[(1, replicate 30 0)]" 0 "\<lambda>_. True"]
  by auto

section \<open>Limits\<close>

text \<open>
  C17. Packets of 5729 to 5776 bytes fit the packet buffer but cannot be reassembled: the sender cuts
  them into five datagrams, and the receiver ignores every fragment of a packet of more than four.
\<close>

theorem long_packets_ignored:
  assumes "5728 < length p" and "length p \<le> ZT_PROTO_MAX_PACKET_LENGTH"
  shows "length (fst (send_datagrams p)) = 5
    \<and> (\<forall>k. 0 < k \<and> k < 5 \<longrightarrow> rx_local self dec now (fst (send_datagrams p) ! k) q = Inr (q, []))"
proof -
  define tot where "tot = fragment_count (length p - 1444)"
  have t: "length p - 1444 \<le> 1428 * (tot - 1)" "1428 * (tot - 2) < length p - 1444"
    using fragment_count_bounds [of "length p - 1444"] assms by (simp_all add: tot_def)
  have "tot = 5" using t assms by linarith
  moreover have s: "fst (send_datagrams p) = map (piece p tot) [0..<tot]"
    using send_datagrams_pieces [of p] assms by (simp add: tot_def)
  moreover have "rx_local self dec now (piece p 5 k) q = Inr (q, [])" if "0 < k" "k < 5" for k
    using Fragment_fields [of "take 13 p" 5 k 0 "sub (1444 + 1428 * (k - 1)) 1428 p"] that assms
    by (auto simp: rx_local_def rx_fragment_def piece_def split: sum.splits)
  ultimately show ?thesis by simp
qed

theorem long_packets_ignored_witness:
  "rx_local 0 (\<lambda>_. True) 9 (fst (send_datagrams (replicate 5729 1)) ! 4) [] = Inr ([], [])"
  using long_packets_ignored [of "replicate 5729 1" 0 "\<lambda>_. True" 9 "[]"] by simp

lemma faded_unused: "faded rq rq' \<Longrightarrow> rx_timestamp rq = 0 \<Longrightarrow> rq' = rq"
  by (auto simp: faded_def)

text \<open>
  C18. A head longer than the packet buffer leaves its entry half written: time stamp and packet id
  are set when the copy throws, the fragment count and mask keep what they held before. On a queue
  whose unused entries hold a count above four and a fitting mask, a second head with that packet
  id then makes the assembly read outside the array of fragments, unless the payloads that the
  three stale fragments hold do not fit behind the head: then appending one of them throws before.
\<close>

theorem oversized_head_fault:
  assumes "rx_timestamp e = 0" and "length (rx_frags e) = 3" and "4 < rx_totalFragments e"
    and "\<not> bit (rx_haveFragments e) 0" and "unat (countBits (rx_haveFragments e OR 1)) = rx_totalFragments e"
    and "ZT_PROTO_MAX_PACKET_LENGTH < length d1" and "28 \<le> length d2" and "length d2 \<le> ZT_PROTO_MAX_PACKET_LENGTH"
    and "take 8 d1 = take 8 d2" and "d1 ! 13 \<noteq> 0xff" and "d2 ! 13 \<noteq> 0xff"
    and "d1 ! 18 AND 0x40 \<noteq> 0" and "d2 ! 18 AND 0x40 \<noteq> 0"
    and "Address_setTo (sub 13 5 d1) \<noteq> self" and "Address_setTo (sub 13 5 d2) \<noteq> self" and "t1 \<noteq> 0"
  shows "rx_run self dec [(t1, d1), (t2, d2)] (replicate 64 e) = Inl MemFault
    \<longleftrightarrow> length d2 + length (concat (map (drop 16) (rx_frags e))) \<le> ZT_PROTO_MAX_PACKET_LENGTH"
proof -
  let ?q = "replicate 64 e" and ?pid = "be_dec (take 8 d1) :: u64"
  define e1 where "e1 = e\<lparr>rx_timestamp := t1, rx_packetId := ?pid\<rparr>"
  obtain i q0 where f: "findRXQueueEntry t1 ?pid ?q = (i, q0)" by fastforce
  have i: "i < 64" "length q0 = 64" "\<And>j. j < 64 \<Longrightarrow> faded (?q ! j) (q0 ! j)"
    using find_loop_faded [of t1 ?pid 64 63 ?q i q0] f by (simp_all add: findRXQueueEntry_def)
  then have q0: "q0 = ?q" using faded_unused assms(1) by (intro nth_equalityI) auto
  have "rx_head dec t1 d1 ?q = Inr (?q[i := e1], [])"
    using f assms(1,6) i(1) by (simp add: rx_head_def Let_def q0 e1_def)
  then have r1: "rx_local self dec t1 d1 ?q = Inr (?q[i := e1], [])"
    using assms(6,10,12,14) by (simp add: rx_local_def)
  obtain j q2 where g: "findRXQueueEntry t2 ?pid (?q[i := e1]) = (j, q2)" by fastforce
  have j: "j = i \<and> q2 ! i = ?q[i := e1] ! i"
  proof (rule find_loop_found [of t2 ?pid 64 63 "?q[i := e1]" j q2 i])
    show "find_loop t2 ?pid 64 63 (?q[i := e1]) = (j, q2)" using g by (simp add: findRXQueueEntry_def)
    show "rx_match ?pid (?q[i := e1] ! i)" using i(1) assms(16) by (simp add: rx_match_def e1_def)
    show "k = i" if "k < 64" "rx_match ?pid (?q[i := e1] ! k)" for k
      using that assms(1) by (cases "k = i") (simp_all add: rx_match_def)
  qed (use i(1) in simp_all)
  then have "q2 ! j = e1" using i(1) by simp
  then have h: "rx_head dec t2 d2 (?q[i := e1]) =
      ebind (rx_finish dec (rx_totalFragments e) (e1\<lparr>rx_haveFragments := rx_haveFragments e OR 1, rx_frag0 := d2\<rparr>))
        (\<lambda>(rq, out). Inr (q2[j := rq], out))"
    using rx_head_eq [of t2 d2 "?q[i := e1]" j q2 dec] g assms(3-5,8,9,16) by (simp add: e1_def)
  have "length (rx_frags e) < rx_totalFragments e - 1" using assms(2,3) by simp
  from assemble_outside [OF this, of d2] append_payloads_fit [of d2 "rx_frags e"] assms(8)
  have "rx_head dec t2 d2 (?q[i := e1]) = Inl MemFault \<longleftrightarrow>
      length d2 + length (concat (map (drop 16) (rx_frags e))) \<le> 5776"
    unfolding h by (auto simp: rx_finish_def e1_def Let_def split: prod.splits)
  then have "rx_local self dec t2 d2 (?q[i := e1]) = Inl MemFault \<longleftrightarrow>
      length d2 + length (concat (map (drop 16) (rx_frags e))) \<le> 5776"
    using assms(7,11,13,15) by (simp add: rx_local_def)
  with r1 show ?thesis by (cases "rx_local self dec t2 d2 (?q[i := e1])") auto
qed

theorem oversized_head_fault_witness:
  "rx_run 0 (\<lambda>_. True) [(1, replicate 18 1 @ 0x40 # replicate 5758 1), (2, replicate 18 1 @ 0x40 # replicate 81 1)]
     (replicate 64 \<lparr>rx_timestamp = 0, rx_packetId = 9, rx_frag0 = [], rx_frags = [[], [], []],
         rx_totalFragments = 5, rx_haveFragments = 0x1e, rx_complete = True\<rparr>) = Inl MemFault"
proof -
  have s: "sub 13 5 (replicate 18 1 @ x :: bytes) = [1, 1, 1, 1, 1]" for x
    by (simp add: sub_def eval_nat_numeral)
  have a: "Address_setTo [1, 1, 1, 1, 1] \<noteq> 0" by (simp add: Address_setTo_def)
  have c: "unat (countBits 31) = 5" by (simp add: countBits_def)
  show ?thesis
    by (rule iffD2 [OF oversized_head_fault]) (simp_all add: nth_append s a c bit_numeral_word_iff del: bit_numeral_word_iff)
qed

end
