(* ===== verification/Hashtable.thy ===== *)
theory Hashtable
  imports Prelude
begin

text \<open>
  \<^verbatim>\<open>zto/node/Hashtable.hpp\<close>: the chained hash table of the core. A chain is a list of key/value
  pairs, the table a list of chains. \<open>hc\<close> is the overload of \<^verbatim>\<open>_hc\<close> for the key type; \<open>ok\<close> tells
  whether \<^verbatim>\<open>malloc\<close> gives memory for a larger table. The table refines a finite map: the locale
  \<open>key_value_table\<close> is the contract its clients rely on.
\<close>

section \<open>Definitions\<close>

record ('k, 'v) hashtable =
  ht_t :: "('k \<times> 'v) list list"
  ht_bc :: nat
  ht_s :: nat

definition ht_new :: "nat \<Rightarrow> ('k, 'v) hashtable" where
  "ht_new bc = \<lparr>ht_t = replicate bc [], ht_bc = bc, ht_s = 0\<rparr>"

text \<open>The key hashes \<^verbatim>\<open>_hc\<close> of integers.\<close>

definition hc_u64 :: "u64 \<Rightarrow> nat" where
  "hc_u64 i = unat i"

definition hc_u32 :: "u32 \<Rightarrow> nat" where
  "hc_u32 i = unat (ucast i * (0x9e3779b1 :: u64))"

fun chain_get :: "'k \<Rightarrow> ('k \<times> 'v) list \<Rightarrow> 'v option" where
  "chain_get k [] = None"
| "chain_get k ((k', v) # b) = (if k' = k then Some v else chain_get k b)"

definition ht_get :: "('k \<Rightarrow> nat) \<Rightarrow> ('k, 'v) hashtable \<Rightarrow> 'k \<Rightarrow> 'v option" where
  "ht_get hc h k = chain_get k (ht_t h ! (hc k mod ht_bc h))"

definition ht_contains :: "('k \<Rightarrow> nat) \<Rightarrow> ('k, 'v) hashtable \<Rightarrow> 'k \<Rightarrow> bool" where
  "ht_contains hc h k = (chain_get k (ht_t h ! (hc k mod ht_bc h)) \<noteq> None)"

text \<open>Unlinking the first bucket of the key from a chain.\<close>

fun chain_erase :: "'k \<Rightarrow> ('k \<times> 'v) list \<Rightarrow> (('k \<times> 'v) list) option" where
  "chain_erase k [] = None"
| "chain_erase k ((k', v) # b) =
     (if k' = k then Some b
      else case chain_erase k b of None \<Rightarrow> None | Some b' \<Rightarrow> Some ((k', v) # b'))"

definition ht_erase :: "('k \<Rightarrow> nat) \<Rightarrow> ('k, 'v) hashtable \<Rightarrow> 'k \<Rightarrow> bool \<times> ('k, 'v) hashtable" where
  "ht_erase hc h k =
     (let bidx = hc k mod ht_bc h in
      case chain_erase k (ht_t h ! bidx) of
        None \<Rightarrow> (False, h)
      | Some b \<Rightarrow> (True, h\<lparr>ht_t := (ht_t h)[bidx := b], ht_s := ht_s h - 1\<rparr>))"

text \<open>Moving the buckets of one chain, then of all chains, to the new table.\<close>

fun grow_chain :: "('k \<Rightarrow> nat) \<Rightarrow> nat \<Rightarrow> ('k \<times> 'v) list \<Rightarrow> ('k \<times> 'v) list list \<Rightarrow> ('k \<times> 'v) list list" where
  "grow_chain hc nc [] nt = nt"
| "grow_chain hc nc ((k, v) # b) nt =
     (let nidx = hc k mod nc in grow_chain hc nc b (nt[nidx := (k, v) # nt ! nidx]))"

definition ht_grow :: "('k \<Rightarrow> nat) \<Rightarrow> bool \<Rightarrow> ('k, 'v) hashtable \<Rightarrow> ('k, 'v) hashtable" where
  "ht_grow hc ok h =
     (let nc = ht_bc h * 2 in
      if ok then
        h\<lparr>ht_t := fold (grow_chain hc nc) (ht_t h) (replicate nc []), ht_bc := nc\<rparr>
      else h)"

fun chain_put :: "'k \<Rightarrow> 'v \<Rightarrow> ('k \<times> 'v) list \<Rightarrow> ('k \<times> 'v) list" where
  "chain_put k v [] = []"
| "chain_put k v ((k', v') # b) = (if k' = k then (k', v) # b else (k', v') # chain_put k v b)"

text \<open>The part that \<^verbatim>\<open>set\<close> and \<^verbatim>\<open>operator[]\<close> share: a new bucket at the head of its chain.\<close>

definition ht_insert ::
  "('k \<Rightarrow> nat) \<Rightarrow> bool \<Rightarrow> ('k, 'v) hashtable \<Rightarrow> 'k \<Rightarrow> 'v \<Rightarrow> ('k, 'v) hashtable" where
  "ht_insert hc ok h k v =
     (let h = (if ht_s h \<ge> ht_bc h then ht_grow hc ok h else h);
          bidx = hc k mod ht_bc h
      in h\<lparr>ht_t := (ht_t h)[bidx := (k, v) # ht_t h ! bidx], ht_s := ht_s h + 1\<rparr>)"

definition ht_set ::
  "('k \<Rightarrow> nat) \<Rightarrow> bool \<Rightarrow> ('k, 'v) hashtable \<Rightarrow> 'k \<Rightarrow> 'v \<Rightarrow> ('k, 'v) hashtable" where
  "ht_set hc ok h k v =
     (let bidx = hc k mod ht_bc h in
      case chain_get k (ht_t h ! bidx) of
        Some _ \<Rightarrow> h\<lparr>ht_t := (ht_t h)[bidx := chain_put k v (ht_t h ! bidx)]\<rparr>
      | None \<Rightarrow> ht_insert hc ok h k v)"

text \<open>\<^verbatim>\<open>operator[]\<close>: the value referred to and the table, \<open>d\<close> being the value of \<^verbatim>\<open>V()\<close>.\<close>

definition ht_ref ::
  "('k \<Rightarrow> nat) \<Rightarrow> bool \<Rightarrow> 'v \<Rightarrow> ('k, 'v) hashtable \<Rightarrow> 'k \<Rightarrow> 'v \<times> ('k, 'v) hashtable" where
  "ht_ref hc ok d h k =
     (case chain_get k (ht_t h ! (hc k mod ht_bc h)) of
        Some v \<Rightarrow> (v, h)
      | None \<Rightarrow> (d, ht_insert hc ok h k d))"

definition ht_clear :: "('k, 'v) hashtable \<Rightarrow> ('k, 'v) hashtable" where
  "ht_clear h =
     (if ht_s h \<noteq> 0 then h\<lparr>ht_t := map (\<lambda>_. []) (ht_t h), ht_s := 0\<rparr> else h)"

definition ht_keys :: "('k, 'v) hashtable \<Rightarrow> 'k list" where
  "ht_keys h = (if ht_s h \<noteq> 0 then concat (map (map fst) (ht_t h)) else [])"

definition ht_appendKeys :: "('k, 'v) hashtable \<Rightarrow> 'k list \<Rightarrow> 'k list" where
  "ht_appendKeys h v = (if ht_s h \<noteq> 0 then v @ concat (map (map fst) (ht_t h)) else v)"

definition ht_entries :: "('k, 'v) hashtable \<Rightarrow> ('k \<times> 'v) list" where
  "ht_entries h = (if ht_s h \<noteq> 0 then concat (ht_t h) else [])"

text \<open>The copy constructor pushes each bucket at the head of its new chain.\<close>

definition ht_copy :: "('k, 'v) hashtable \<Rightarrow> ('k, 'v) hashtable" where
  "ht_copy h = \<lparr>ht_t = map (\<lambda>b. fold (#) b []) (ht_t h), ht_bc = ht_bc h, ht_s = ht_s h\<rparr>"

text \<open>Assignment from another table.\<close>

definition ht_assign ::
  "('k \<Rightarrow> nat) \<Rightarrow> bool \<Rightarrow> ('k, 'v) hashtable \<Rightarrow> ('k, 'v) hashtable \<Rightarrow> ('k, 'v) hashtable" where
  "ht_assign hc ok this h =
     (let this = ht_clear this in
      if ht_s h \<noteq> 0 then fold (\<lambda>(k, v) t. ht_set hc ok t k v) (concat (ht_t h)) this else this)"

text \<open>
  Assigning a table to itself: source and target are one object, so that the source is empty when
  it is read.
\<close>

definition ht_self_assign :: "('k \<Rightarrow> nat) \<Rightarrow> bool \<Rightarrow> ('k, 'v) hashtable \<Rightarrow> ('k, 'v) hashtable" where
  "ht_self_assign hc ok this =
     (let this = ht_clear this in
      if ht_s this \<noteq> 0 then fold (\<lambda>(k, v) t. ht_set hc ok t k v) (concat (ht_t this)) this else this)"

lemma ht_self_assign_clears: "ht_self_assign hc ok h = ht_clear h"
  by (simp add: ht_self_assign_def ht_clear_def)

text \<open>\<^verbatim>\<open>Hashtable::Iterator\<close>: the index and the rest of the current chain.\<close>

type_synonym ('k, 'v) ht_iterator = "nat \<times> ('k \<times> 'v) list"

definition iter_start :: "('k, 'v) hashtable \<Rightarrow> ('k, 'v) ht_iterator" where
  "iter_start h = (0, ht_t h ! 0)"

function iter_next :: "('k, 'v) hashtable \<Rightarrow> ('k, 'v) ht_iterator \<Rightarrow> ('k \<times> 'v) option \<times> ('k, 'v) ht_iterator" where
  "iter_next h (idx, kv # b) = (Some kv, (idx, b))"
| "iter_next h (idx, []) =
     (if idx + 1 \<ge> ht_bc h then (None, (idx + 1, []))
      else iter_next h (idx + 1, ht_t h ! (idx + 1)))"
  by pat_completeness auto
termination by (relation "measure (\<lambda>(h, idx, b). ht_bc h - idx)") auto

text \<open>Calling \<^verbatim>\<open>next\<close> \<open>n\<close> times.\<close>

fun iter_take :: "nat \<Rightarrow> ('k, 'v) hashtable \<Rightarrow> ('k, 'v) ht_iterator \<Rightarrow> ('k \<times> 'v) option list" where
  "iter_take 0 h it = []"
| "iter_take (Suc n) h it = (let (r, it') = iter_next h it in r # iter_take n h it')"

section \<open>Invariant and abstraction\<close>

text \<open>Every chain holds distinct keys that hash to its index.\<close>

definition placed :: "('k \<Rightarrow> nat) \<Rightarrow> nat \<Rightarrow> ('k \<times> 'v) list list \<Rightarrow> bool" where
  "placed hc n t \<longleftrightarrow> 0 < n \<and> length t = n \<and>
     (\<forall>i < n. distinct (map fst (t ! i)) \<and> (\<forall>kv \<in> set (t ! i). hc (fst kv) mod n = i))"

definition ht_ok :: "('k \<Rightarrow> nat) \<Rightarrow> ('k, 'v) hashtable \<Rightarrow> bool" where
  "ht_ok hc h \<longleftrightarrow> placed hc (ht_bc h) (ht_t h) \<and> ht_s h = length (concat (ht_t h))"

lemma chain_get_map_of: "chain_get k b = map_of b k"
  by (induction k b rule: chain_get.induct) auto

lemma length_concat_update:
  "i < length t \<Longrightarrow> length (concat (t[i := b])) + length (t ! i) = length (concat t) + length b"
  by (induction t arbitrary: i) (auto split: nat.splits)

lemma placed_update:
  assumes "placed hc n t" and "i < n" and "distinct (map fst b)" and "\<And>kv. kv \<in> set b \<Longrightarrow> hc (fst kv) mod n = i"
  shows "placed hc n (t[i := b])"
  using assms by (auto simp: placed_def nth_list_update)

lemma placed_key_index:
  assumes "placed hc n t" and "kv \<in> set (t ! i)" and "i < n"
  shows "hc (fst kv) mod n = i"
  using assms by (auto simp: placed_def)

lemma placed_concat_distinct:
  assumes "placed hc n t"
  shows "distinct (map fst (concat t))"
proof -
  have "distinct (map fst (concat (take m t)))" if "m \<le> n" for m
    using that
  proof (induction m)
    case (Suc m)
    then have m: "m < n" "m < length t" using assms by (auto simp: placed_def)
    have "False" if x: "x \<in> set (concat (take m t))" and y: "y \<in> set (t ! m)" "fst x = fst y" for x y
    proof -
      from x obtain c where c: "c \<in> set (take m t)" "x \<in> set c" by auto
      then obtain j where j: "j < m" "x \<in> set (t ! j)"
        using m by (auto simp: set_conv_nth [of "take m t"])
      with y m show False
        using placed_key_index [OF assms, of x j] placed_key_index [OF assms, of y m] by simp
    qed
    then have "fst ` set (concat (take m t)) \<inter> fst ` set (t ! m) = {}" by blast
    moreover have "distinct (map fst (t ! m))" using assms m by (auto simp: placed_def)
    ultimately show ?case using Suc m by (simp add: take_Suc_conv_app_nth)
  qed simp
  then show ?thesis using assms by (metis order_refl placed_def take_all_iff)
qed

lemma placed_lookup:
  assumes "placed hc n t"
  shows "map_of (t ! (hc k mod n)) k = map_of (concat t) k"
proof (cases "map_of (concat t) k")
  case None
  have "t ! (hc k mod n) \<in> set t" using assms by (simp add: placed_def)
  then have "set (t ! (hc k mod n)) \<subseteq> set (concat t)" by auto
  with None have "map_of (t ! (hc k mod n)) k = None" unfolding map_of_eq_None_iff by blast
  with None show ?thesis by simp
next
  case (Some v)
  then obtain i where i: "i < n" "(k, v) \<in> set (t ! i)"
    using assms map_of_SomeD [OF Some] by (auto simp: set_conv_nth [of t] placed_def)
  then have "hc k mod n = i" using placed_key_index [OF assms] by fastforce
  with i assms Some show ?thesis by (simp add: placed_def)
qed

abbreviation ht_abs :: "('k, 'v) hashtable \<Rightarrow> 'k \<rightharpoonup> 'v" where
  "ht_abs h \<equiv> map_of (concat (ht_t h))"

lemma ht_get_abs: "ht_ok hc h \<Longrightarrow> ht_get hc h k = ht_abs h k"
  by (simp add: ht_get_def chain_get_map_of ht_ok_def placed_lookup)

lemma ht_contains_abs: "ht_ok hc h \<Longrightarrow> ht_contains hc h k \<longleftrightarrow> k \<in> dom (ht_abs h)"
  by (simp add: ht_contains_def chain_get_map_of ht_ok_def placed_lookup domIff)

lemma ht_size_abs:
  assumes "ht_ok hc h"
  shows "ht_s h = card (dom (ht_abs h))"
proof -
  have "distinct (map fst (concat (ht_t h)))"
    using assms placed_concat_distinct by (auto simp: ht_ok_def simp del: map_concat)
  from distinct_card [OF this] have "length (concat (ht_t h)) = card (fst ` set (concat (ht_t h)))"
    by (simp only: length_map list.set_map)
  then show ?thesis
    using assms by (simp only: ht_ok_def dom_map_of_conv_image_fst)
qed

section \<open>Operations\<close>

text \<open>Writing one chain changes the map exactly as it changes that chain.\<close>

lemma placed_write:
  assumes "placed hc n t" and "placed hc n (t[hc k mod n := b])"
    and "\<And>k'. k' \<noteq> k \<Longrightarrow> map_of b k' = map_of (t ! (hc k mod n)) k'"
  shows "map_of (concat (t[hc k mod n := b])) = (map_of (concat t))(k := map_of b k)"
proof
  fix k'
  have i: "hc k mod n < length t" using assms(1) by (simp add: placed_def)
  show "map_of (concat (t[hc k mod n := b])) k' = ((map_of (concat t))(k := map_of b k)) k'"
    using assms(3) [of k'] i
    by (cases "k' = k"; cases "hc k' mod n = hc k mod n")
      (simp_all flip: placed_lookup [OF assms(1)] placed_lookup [OF assms(2)])
qed

lemma placed_push:
  assumes "placed hc n t" and "map_of (concat t) k = None"
  shows "placed hc n (t[hc k mod n := (k, v) # t ! (hc k mod n)])"
    and "map_of (concat (t[hc k mod n := (k, v) # t ! (hc k mod n)])) = (map_of (concat t))(k \<mapsto> v)"
    and "length (concat (t[hc k mod n := (k, v) # t ! (hc k mod n)])) = Suc (length (concat t))"
proof -
  have i: "hc k mod n < n" "hc k mod n < length t" using assms(1) by (simp_all add: placed_def)
  have "map_of (t ! (hc k mod n)) k = None" using assms placed_lookup by metis
  then show p: "placed hc n (t[hc k mod n := (k, v) # t ! (hc k mod n)])"
    using assms(1) i by (intro placed_update) (auto simp: placed_def map_of_eq_None_iff)
  show "map_of (concat (t[hc k mod n := (k, v) # t ! (hc k mod n)])) = (map_of (concat t))(k \<mapsto> v)"
    using placed_write [OF assms(1) p] by simp
  show "length (concat (t[hc k mod n := (k, v) # t ! (hc k mod n)])) = Suc (length (concat t))"
    using length_concat_update [OF i(2), of "(k, v) # t ! (hc k mod n)"] by simp
qed

lemma grow_chain_placed:
  assumes "placed hc n nt" and "distinct (map fst b)" and "fst ` set b \<inter> dom (map_of (concat nt)) = {}"
  shows "placed hc n (grow_chain hc n b nt)
    \<and> map_of (concat (grow_chain hc n b nt)) = map_of (concat nt) ++ map_of b
    \<and> length (concat (grow_chain hc n b nt)) = length (concat nt) + length b"
  using assms
proof (induction hc n b nt rule: grow_chain.induct)
  case (2 hc n k v b nt)
  have None: "map_of (concat nt) k = None" using 2(4) by (auto simp: domIff)
  note push = placed_push [OF 2(2) None, of v]
  have "fst ` set b \<inter> dom (map_of (concat (nt[hc k mod n := (k, v) # nt ! (hc k mod n)]))) = {}"
    using 2(3, 4) by (auto simp: push(2))
  from 2(1) [OF refl push(1) _ this] have "placed hc n (grow_chain hc n ((k, v) # b) nt)
    \<and> map_of (concat (grow_chain hc n ((k, v) # b) nt)) = (map_of (concat nt))(k \<mapsto> v) ++ map_of b
    \<and> length (concat (grow_chain hc n ((k, v) # b) nt)) = length (concat nt) + Suc (length b)"
    using 2(3) push by (simp add: Let_def fun_upd_def)
  moreover have "map_of b k = None" using 2(3) by (simp add: map_of_eq_None_iff)
  then have "(map_of (concat nt))(k \<mapsto> v) ++ map_of b = map_of (concat nt) ++ map_of ((k, v) # b)"
    by (auto simp: map_add_def fun_eq_iff split: option.splits)
  ultimately show ?case by (simp only: list.size add_Suc_right add_0_right)
qed simp

lemma fold_grow_chain: "fold (grow_chain hc n) ts nt = grow_chain hc n (concat ts) nt"
proof -
  have app: "grow_chain hc n (xs @ ys) nt = grow_chain hc n ys (grow_chain hc n xs nt)" for xs ys nt
    by (induction hc n xs nt rule: grow_chain.induct) (simp_all add: Let_def)
  show ?thesis by (induction ts arbitrary: nt) (simp_all add: app)
qed

lemma ht_grow_ok:
  assumes "ht_ok hc h"
  shows "ht_ok hc (ht_grow hc ok h)" "ht_abs (ht_grow hc ok h) = ht_abs h" "ht_s (ht_grow hc ok h) = ht_s h"
proof -
  let ?n = "ht_bc h * 2"
  have p: "placed hc (ht_bc h) (ht_t h)" using assms by (simp add: ht_ok_def)
  then have "placed hc ?n (replicate ?n [])" by (auto simp: placed_def)
  from grow_chain_placed [OF this placed_concat_distinct [OF p]] assms
  show "ht_ok hc (ht_grow hc ok h)" "ht_abs (ht_grow hc ok h) = ht_abs h" "ht_s (ht_grow hc ok h) = ht_s h"
    by (auto simp: ht_grow_def Let_def ht_ok_def fold_grow_chain)
qed

lemma ht_insert_ok:
  assumes "ht_ok hc h" and "ht_abs h k = None"
  shows "ht_ok hc (ht_insert hc ok h k v)" "ht_abs (ht_insert hc ok h k v) = (ht_abs h)(k \<mapsto> v)"
proof -
  define g where "g = (if ht_s h \<ge> ht_bc h then ht_grow hc ok h else h)"
  have g: "ht_ok hc g" "ht_abs g = ht_abs h" using assms ht_grow_ok by (auto simp: g_def)
  then have p: "placed hc (ht_bc g) (ht_t g)" "map_of (concat (ht_t g)) k = None"
    using assms(2) by (simp_all add: ht_ok_def)
  show "ht_ok hc (ht_insert hc ok h k v)" "ht_abs (ht_insert hc ok h k v) = (ht_abs h)(k \<mapsto> v)"
    using placed_push [OF p, of v] g by (simp_all add: ht_insert_def Let_def ht_ok_def flip: g_def)
qed

lemma map_of_chain_put:
  "map_of b k = Some w \<Longrightarrow> map_of (chain_put k v b) = (map_of b)(k \<mapsto> v)"
  by (induction k v b rule: chain_put.induct) (auto simp: fun_eq_iff)

lemma map_fst_chain_put: "map fst (chain_put k v b) = map fst b"
  by (induction k v b rule: chain_put.induct) auto

lemma placed_same_keys:
  assumes "placed hc n t" and "map fst b = map fst (t ! i)" and "i < n"
  shows "placed hc n (t[i := b])"
proof (rule placed_update [OF assms(1,3)])
  show "distinct (map fst b)" using assms by (simp add: placed_def)
  fix kv assume "kv \<in> set b"
  then have "fst kv \<in> fst ` set (t ! i)" using assms(2) by (metis imageI list.set_map)
  then obtain kv' where "kv' \<in> set (t ! i)" "fst kv = fst kv'" by auto
  then show "hc (fst kv) mod n = i" using placed_key_index [OF assms(1) _ assms(3)] by simp
qed

lemma ht_set_ok:
  assumes "ht_ok hc h"
  shows "ht_ok hc (ht_set hc ok h k v)" "ht_abs (ht_set hc ok h k v) = (ht_abs h)(k \<mapsto> v)"
proof -
  let ?i = "hc k mod ht_bc h"
  have p: "placed hc (ht_bc h) (ht_t h)" using assms by (simp add: ht_ok_def)
  then have i: "?i < ht_bc h" "?i < length (ht_t h)" by (simp_all add: placed_def)
  have "ht_ok hc (ht_set hc ok h k v) \<and> ht_abs (ht_set hc ok h k v) = (ht_abs h)(k \<mapsto> v)"
  proof (cases "map_of (ht_t h ! ?i) k")
    case None
    then show ?thesis
      using ht_insert_ok [OF assms] placed_lookup [OF p, of k] by (simp add: ht_set_def Let_def chain_get_map_of)
  next
    case (Some w)
    let ?b = "chain_put k v (ht_t h ! ?i)"
    have q: "placed hc (ht_bc h) ((ht_t h)[?i := ?b])"
      by (rule placed_same_keys [OF p map_fst_chain_put i(1)])
    have "length ?b = length (ht_t h ! ?i)" 
      using arg_cong [OF map_fst_chain_put [of k v "ht_t h ! ?i"], of length] by (simp only: length_map)
    then have "length (concat ((ht_t h)[?i := ?b])) = length (concat (ht_t h))"
      using length_concat_update [OF i(2), of ?b] by simp
    moreover have "map_of (concat ((ht_t h)[?i := ?b])) = (ht_abs h)(k \<mapsto> v)"
      using placed_write [OF p q] map_of_chain_put [OF Some, of v] by simp
    ultimately show ?thesis
      using assms q Some by (simp add: ht_set_def Let_def chain_get_map_of ht_ok_def)
  qed
  then show "ht_ok hc (ht_set hc ok h k v)" "ht_abs (ht_set hc ok h k v) = (ht_abs h)(k \<mapsto> v)" by simp_all
qed

lemma ht_ref_ok:
  assumes "ht_ok hc h" and "ht_ref hc ok d h k = (v, h')"
  shows "ht_ok hc h'" "ht_abs h' = (ht_abs h)(k \<mapsto> v)" "v = (case ht_abs h k of Some w \<Rightarrow> w | None \<Rightarrow> d)"
proof -
  have p: "placed hc (ht_bc h) (ht_t h)" using assms by (simp add: ht_ok_def)
  have "ht_ok hc h' \<and> ht_abs h' = (ht_abs h)(k \<mapsto> v) \<and> v = (case ht_abs h k of Some w \<Rightarrow> w | None \<Rightarrow> d)"
    using assms ht_insert_ok [OF assms(1), of k ok d]
    by (auto simp: ht_ref_def chain_get_map_of placed_lookup [OF p] fun_eq_iff split: option.splits)
  then show "ht_ok hc h'" "ht_abs h' = (ht_abs h)(k \<mapsto> v)" "v = (case ht_abs h k of Some w \<Rightarrow> w | None \<Rightarrow> d)"
    by simp_all
qed

lemma chain_erase_map_of:
  "distinct (map fst b) \<Longrightarrow>
   (case chain_erase k b of None \<Rightarrow> map_of b k = None
    | Some b' \<Rightarrow> map_of b k \<noteq> None \<and> map_of b' = (map_of b)(k := None) \<and> length b = Suc (length b')
        \<and> distinct (map fst b') \<and> set b' \<subseteq> set b)"
proof (induction k b rule: chain_erase.induct)
  case (2 k k' v b)
  then show ?case
    by (cases "k' = k"; cases "chain_erase k b") (auto simp: fun_eq_iff map_of_eq_None_iff)
qed simp

lemma ht_erase_ok:
  assumes "ht_ok hc h" and "ht_erase hc h k = (r, h')"
  shows "ht_ok hc h'" "ht_abs h' = (ht_abs h)(k := None)" "r \<longleftrightarrow> k \<in> dom (ht_abs h)"
proof -
  let ?i = "hc k mod ht_bc h"
  have p: "placed hc (ht_bc h) (ht_t h)" using assms by (simp add: ht_ok_def)
  then have i: "?i < ht_bc h" "?i < length (ht_t h)" and d: "distinct (map fst (ht_t h ! ?i))"
    by (simp_all add: placed_def)
  have "ht_ok hc h' \<and> ht_abs h' = (ht_abs h)(k := None) \<and> (r \<longleftrightarrow> k \<in> dom (ht_abs h))"
  proof (cases "chain_erase k (ht_t h ! ?i)")
    case None
    then have "map_of (concat (ht_t h)) k = None" "r = False" "h' = h"
      using assms(2) chain_erase_map_of [OF d, of k] placed_lookup [OF p, of k]
      by (simp_all add: ht_erase_def Let_def)
    then show ?thesis using assms(1) by (metis domIff fun_upd_triv)
  next
    case (Some b)
    then have b: "map_of (ht_t h ! ?i) k \<noteq> None" "map_of b = (map_of (ht_t h ! ?i))(k := None)"
      "length (ht_t h ! ?i) = Suc (length b)" "distinct (map fst b)" "set b \<subseteq> set (ht_t h ! ?i)"
      using chain_erase_map_of [OF d, of k] by auto
    have q: "placed hc (ht_bc h) ((ht_t h)[?i := b])"
      using b(4,5) placed_key_index [OF p _ i(1)] by (intro placed_update [OF p i(1)]) auto
    have "length (concat ((ht_t h)[?i := b])) = length (concat (ht_t h)) - 1"
      using length_concat_update [OF i(2), of b] b(3) by simp
    moreover have "map_of (concat ((ht_t h)[?i := b])) = (ht_abs h)(k := None)"
      using placed_write [OF p q] b(2) by simp
    moreover have "r = True" "h' = h\<lparr>ht_t := (ht_t h)[?i := b], ht_s := ht_s h - 1\<rparr>"
      using assms(2) Some by (simp_all add: ht_erase_def Let_def)
    moreover have "map_of (concat (ht_t h)) k \<noteq> None" using b(1) placed_lookup [OF p, of k] by simp
    ultimately show ?thesis using assms(1) q by (simp add: ht_ok_def domIff)
  qed
  then show "ht_ok hc h'" "ht_abs h' = (ht_abs h)(k := None)" "r \<longleftrightarrow> k \<in> dom (ht_abs h)" by simp_all
qed

lemma ht_new_ok: "0 < bc \<Longrightarrow> ht_ok hc (ht_new bc)" "ht_abs (ht_new bc) = Map.empty"
proof -
  have "concat (replicate bc []) = []" by simp
  then show "0 < bc \<Longrightarrow> ht_ok hc (ht_new bc)" "ht_abs (ht_new bc) = Map.empty"
    by (simp_all add: ht_ok_def ht_new_def placed_def)
qed

lemma ht_clear_ok:
  assumes "ht_ok hc h"
  shows "ht_ok hc (ht_clear h)" "ht_abs (ht_clear h) = Map.empty"
proof -
  have "concat (map (\<lambda>_. []) (ht_t h)) = []" by (simp add: concat_eq_Nil_conv)
  then show "ht_ok hc (ht_clear h)" "ht_abs (ht_clear h) = Map.empty"
    using assms by (auto simp: ht_clear_def ht_ok_def placed_def)
qed

section \<open>The contract of a table\<close>

locale key_value_table =
  fixes get :: "'t \<Rightarrow> 'k \<Rightarrow> 'v option"
    and put :: "'t \<Rightarrow> 'k \<Rightarrow> 'v \<Rightarrow> 't"
    and del :: "'t \<Rightarrow> 'k \<Rightarrow> 't"
    and inv :: "'t \<Rightarrow> bool"
  assumes inv_put: "inv t \<Longrightarrow> inv (put t k v)"
    and inv_del: "inv t \<Longrightarrow> inv (del t k)"
    and get_put: "inv t \<Longrightarrow> get (put t k v) k' = (if k' = k then Some v else get t k')"
    and get_del: "inv t \<Longrightarrow> get (del t k) k' = (if k' = k then None else get t k')"
begin

definition put_all :: "('k \<times> 'v) list \<Rightarrow> 't \<Rightarrow> 't" where
  "put_all kvs t = fold (\<lambda>(k, v) t. put t k v) kvs t"

lemma put_all_inv: "inv t \<Longrightarrow> inv (put_all kvs t)"
  by (induction kvs arbitrary: t) (auto simp: put_all_def inv_put)

lemma put_all_get:
  "inv t \<Longrightarrow> distinct (map fst kvs) \<Longrightarrow>
   get (put_all kvs t) k = (case map_of kvs k of Some v \<Rightarrow> Some v | None \<Rightarrow> get t k)"
proof (induction kvs arbitrary: t)
  case (Cons kv kvs)
  obtain k' v where kv: "kv = (k', v)" by (cases kv)
  have "get (put_all kvs (put t k' v)) k =
    (case map_of kvs k of Some v \<Rightarrow> Some v | None \<Rightarrow> get (put t k' v) k)"
    using Cons.prems by (intro Cons.IH) (auto simp: inv_put)
  moreover have "map_of kvs k' = None" using Cons.prems by (simp add: kv map_of_eq_None_iff)
  ultimately show ?case
    using Cons.prems by (auto simp: kv put_all_def get_put split: option.splits)
qed (simp add: put_all_def)

lemma erase_all_get:
  "inv t \<Longrightarrow> inv (fold (\<lambda>k t. del t k) ks t)
    \<and> get (fold (\<lambda>k t. del t k) ks t) k = (if k \<in> set ks then None else get t k)"
  by (induction ks arbitrary: t) (auto simp: inv_del get_del)

end

interpretation ht: key_value_table "ht_get hc" "ht_set hc ok" "\<lambda>h k. snd (ht_erase hc h k)" "ht_ok hc"
  for hc ok
proof unfold_locales
  fix h :: "('a, 'b) hashtable" and k k' v
  assume h: "ht_ok hc h"
  obtain r h' where e: "ht_erase hc h k = (r, h')" by (cases "ht_erase hc h k")
  show "ht_ok hc (ht_set hc ok h k v)" "ht_ok hc (snd (ht_erase hc h k))"
    using ht_set_ok [OF h] ht_erase_ok [OF h e] e by simp_all
  then show "ht_get hc (ht_set hc ok h k v) k' = (if k' = k then Some v else ht_get hc h k')"
    "ht_get hc (snd (ht_erase hc h k)) k' = (if k' = k then None else ht_get hc h k')"
    using h ht_set_ok(2) [OF h, of ok k v] ht_erase_ok(2) [OF h e] e by (simp_all add: ht_get_abs)
qed

section \<open>Copies and enumeration\<close>

lemma fold_Cons_rev: "fold (#) b a = rev b @ a"
  by (induction b arbitrary: a) simp_all

lemma map_of_rev_distinct: "distinct (map fst b) \<Longrightarrow> map_of (rev b) = map_of b"
  by (rule map_of_eqI) (auto simp: distinct_map inj_on_def map_of_eq_Some_iff rev_map [symmetric] dest: map_of_SomeD
      intro!: map_of_is_SomeI)

lemma ht_copy_ok:
  assumes "ht_ok hc h"
  shows "ht_ok hc (ht_copy h)" "ht_abs (ht_copy h) = ht_abs h"
proof -
  have p: "placed hc (ht_bc h) (ht_t h)" using assms by (simp add: ht_ok_def)
  then have q: "placed hc (ht_bc h) (map rev (ht_t h))"
    by (simp add: placed_def flip: rev_map)
  have t: "ht_t (ht_copy h) = map rev (ht_t h)"
    by (simp add: ht_copy_def fold_Cons_rev)
  have "length (concat (map rev (ht_t h))) = length (concat (ht_t h))"
    by (induction "ht_t h") (simp_all add: length_concat comp_def)
  then show "ht_ok hc (ht_copy h)"
    using assms q by (simp add: ht_ok_def t) (simp add: ht_copy_def)
  show "ht_abs (ht_copy h) = ht_abs h"
  proof
    fix k
    have i: "hc k mod ht_bc h < length (ht_t h)" "distinct (map fst (ht_t h ! (hc k mod ht_bc h)))"
      using p by (simp_all add: placed_def)
    show "ht_abs (ht_copy h) k = ht_abs h k"
      using placed_lookup [OF p, of k] placed_lookup [OF q, of k] i
      by (simp add: t map_of_rev_distinct)
  qed
qed

lemma ht_entries_concat: "ht_ok hc h \<Longrightarrow> ht_entries h = concat (ht_t h)"
  by (auto simp: ht_entries_def ht_ok_def)

lemma ht_assign_ok:
  assumes "ht_ok hc this" and "ht_ok hc h"
  shows "ht_ok hc (ht_assign hc ok this h)" "ht_abs (ht_assign hc ok this h) = ht_abs h"
proof -
  have e: "ht_assign hc ok this h = ht.put_all hc ok (concat (ht_t h)) (ht_clear this)"
    using assms(2)
    by (cases "concat (ht_t h) = []")
      (simp_all add: ht_assign_def ht.put_all_def ht_ok_def Let_def del: concat_eq_Nil_conv)
  have c: "ht_ok hc (ht_clear this)" "ht_abs (ht_clear this) = Map.empty"
    using ht_clear_ok [OF assms(1)] by simp_all
  show ok': "ht_ok hc (ht_assign hc ok this h)"
    unfolding e by (rule ht.put_all_inv [OF c(1)])
  have d: "distinct (map fst (concat (ht_t h)))"
    using assms(2) placed_concat_distinct unfolding ht_ok_def by blast
  show "ht_abs (ht_assign hc ok this h) = ht_abs h"
  proof
    fix k
    show "ht_abs (ht_assign hc ok this h) k = ht_abs h k"
      using ht.put_all_get [OF c(1) d, of ok k] ht_get_abs [OF ok', of k] ht_get_abs [OF c(1), of k] c(2)
      by (simp add: e split: option.splits)
  qed
qed

fun iter_rest :: "('k, 'v) hashtable \<Rightarrow> ('k, 'v) ht_iterator \<Rightarrow> ('k \<times> 'v) list" where
  "iter_rest h (idx, b) = b @ concat (drop (idx + 1) (ht_t h))"

lemma iter_next_rest:
  assumes "length (ht_t h) = ht_bc h"
  shows "(case iter_rest h it of
            [] \<Rightarrow> fst (iter_next h it) = None
          | kv # r \<Rightarrow> fst (iter_next h it) = Some kv \<and> iter_rest h (snd (iter_next h it)) = r)"
  using assms
proof (induction h it rule: iter_next.induct)
  case (2 h idx)
  show ?case
  proof (cases "idx + 1 < ht_bc h")
    case True
    have "drop (idx + 1) (ht_t h) = ht_t h ! (idx + 1) # drop (idx + 1 + 1) (ht_t h)"
      using True 2(2) by (simp add: Cons_nth_drop_Suc)
    then have "iter_rest h (idx, []) = iter_rest h (idx + 1, ht_t h ! (idx + 1))" by simp
    moreover have "iter_next h (idx, []) = iter_next h (idx + 1, ht_t h ! (idx + 1))" using True by simp
    ultimately show ?thesis using 2 True by (simp only: not_le not_True_eq_False)
  qed (use 2 in simp)
qed simp

lemma iter_take_rest:
  assumes "length (ht_t h) = ht_bc h"
  shows "iter_take (Suc (length (iter_rest h it))) h it = map Some (iter_rest h it) @ [None]"
proof (induction "iter_rest h it" arbitrary: it)
  case Nil
  then show ?case using iter_next_rest [OF assms, of it] by (simp add: split_beta flip: Nil)
next
  case (Cons kv r)
  then have "fst (iter_next h it) = Some kv" "iter_rest h (snd (iter_next h it)) = r"
    using iter_next_rest [OF assms, of it] by (simp_all flip: Cons(2))
  with Cons(1) [of "snd (iter_next h it)"] show ?case by (simp add: split_beta flip: Cons(2))
qed

lemma iter_start_rest: "ht_ok hc h \<Longrightarrow> iter_rest h (iter_start h) = concat (ht_t h)"
  by (cases "ht_t h") (auto simp: iter_start_def ht_ok_def placed_def)

section \<open>Properties\<close>

text \<open>
  C5. The hash table refines a finite map: on a well-formed table every operation, through chain
  surgery, growth of the table or its failure for lack of memory, computes the corresponding map
  operation and keeps the table well-formed; the stored size is the number of keys.
\<close>

theorem Hashtable_refines_map:
  assumes "ht_ok hc h" and "ht_ok hc g"
  shows "ht_get hc h k = ht_abs h k
    \<and> (ht_contains hc h k \<longleftrightarrow> k \<in> dom (ht_abs h))
    \<and> ht_s h = card (dom (ht_abs h))
    \<and> ht_ok hc (ht_set hc ok h k v) \<and> ht_abs (ht_set hc ok h k v) = (ht_abs h)(k \<mapsto> v)
    \<and> (\<exists>w h'. ht_ref hc ok d h k = (w, h') \<and> ht_ok hc h'
         \<and> w = (case ht_abs h k of Some w \<Rightarrow> w | None \<Rightarrow> d) \<and> ht_abs h' = (ht_abs h)(k \<mapsto> w))
    \<and> (\<exists>r h'. ht_erase hc h k = (r, h') \<and> ht_ok hc h'
         \<and> (r \<longleftrightarrow> k \<in> dom (ht_abs h)) \<and> ht_abs h' = (ht_abs h)(k := None))
    \<and> ht_ok hc (ht_clear h) \<and> ht_abs (ht_clear h) = Map.empty
    \<and> ht_ok hc (ht_copy h) \<and> ht_abs (ht_copy h) = ht_abs h
    \<and> ht_ok hc (ht_assign hc ok g h) \<and> ht_abs (ht_assign hc ok g h) = ht_abs h"
proof -
  obtain w h1 r h2 where e: "ht_ref hc ok d h k = (w, h1)" "ht_erase hc h k = (r, h2)"
    by (metis surj_pair)
  note laws = ht_get_abs [OF assms(1)] ht_contains_abs [OF assms(1)] ht_size_abs [OF assms(1)]
    ht_set_ok [OF assms(1)] ht_ref_ok [OF assms(1) e(1)] ht_erase_ok [OF assms(1) e(2)]
    ht_clear_ok [OF assms(1)] ht_copy_ok [OF assms(1)] ht_assign_ok [OF assms(2,1)]
  show ?thesis using laws e by blast
qed

theorem Hashtable_refines_map_witness:
  "ht_abs (ht_set hc_u64 True (ht_new 1 :: (u64, nat) hashtable) 7 5) = [7 \<mapsto> 5]
   \<and> ht_get hc_u64 (ht_set hc_u64 True (ht_set hc_u64 True (ht_new 1 :: (u64, nat) hashtable) 7 5) 8 6) 7 = Some 5"
  using Hashtable_refines_map [of hc_u64 "ht_new 1 :: (u64, nat) hashtable" "ht_new 1" 7 True 5 0]
    Hashtable_refines_map [of hc_u64 "ht_set hc_u64 True (ht_set hc_u64 True (ht_new 1 :: (u64, nat) hashtable) 7 5) 8 6" "ht_new 1" 7 True 5 0]
    ht_set_ok [of hc_u64 "ht_set hc_u64 True (ht_new 1 :: (u64, nat) hashtable) 7 5" True 8 6]
  by (simp add: ht_new_ok)

text \<open>
  C26. The iterator of a well-formed table returns every entry exactly once and then reports the
  end, in the order of \<^verbatim>\<open>entries()\<close>; \<^verbatim>\<open>keys()\<close> lists each key once.
\<close>

theorem Hashtable_enumeration:
  assumes "ht_ok hc h"
  shows "iter_take (Suc (ht_s h)) h (iter_start h) = map Some (ht_entries h) @ [None]
    \<and> distinct (ht_keys h) \<and> set (ht_keys h) = dom (ht_abs h)
    \<and> map_of (ht_entries h) = ht_abs h \<and> ht_appendKeys h ks = ks @ ht_keys h"
proof -
  have l: "length (ht_t h) = ht_bc h" "ht_s h = length (concat (ht_t h))"
    using assms by (simp_all add: ht_ok_def placed_def)
  have k: "ht_keys h = map fst (concat (ht_t h))" "ht_appendKeys h ks = ks @ map fst (concat (ht_t h))"
    using l(2) by (auto simp: ht_keys_def ht_appendKeys_def map_concat)
  have "distinct (map fst (concat (ht_t h)))"
    using assms placed_concat_distinct unfolding ht_ok_def by blast
  moreover have "iter_take (Suc (ht_s h)) h (iter_start h) = map Some (ht_entries h) @ [None]"
    using iter_take_rest [OF l(1), of "iter_start h"]
    by (simp only: iter_start_rest [OF assms] ht_entries_concat [OF assms] l(2))
  moreover have "set (map fst (concat (ht_t h))) = dom (ht_abs h)"
    by (simp only: dom_map_of_conv_image_fst list.set_map)
  ultimately show ?thesis by (simp only: k ht_entries_concat [OF assms])
qed

theorem Hashtable_enumeration_witness:
  "iter_take 2 (ht_set hc_u64 True (ht_new 1) 7 (5 :: nat)) (iter_start (ht_set hc_u64 True (ht_new 1) 7 5))
    = [Some (7, 5), None]"
proof -
  have "ht_ok hc_u64 (ht_set hc_u64 True (ht_new 1) 7 (5 :: nat))"
    by (rule ht_set_ok) (rule ht_new_ok, simp)
  moreover have e: "ht_set hc_u64 True (ht_new 1) 7 (5 :: nat) = \<lparr>ht_t = [[(7, 5)]], ht_bc = 1, ht_s = 1\<rparr>"
    by (simp add: ht_set_def ht_new_def ht_insert_def Let_def)
  ultimately show ?thesis
    using Hashtable_enumeration [of hc_u64 "ht_set hc_u64 True (ht_new 1) 7 (5 :: nat)" "[]"]
    by (simp add: e ht_entries_def numeral_2_eq_2 del: iter_take.simps)
qed

end
