(* ===== verification/InetAddress.thy ===== *)
theory InetAddress
  imports Addressing
begin

text \<open>
  IP addresses with ports: \<^verbatim>\<open>zto/node/InetAddress.hpp\<close> and \<^verbatim>\<open>InetAddress.cpp\<close>. A value is the null
  address, an IPv4 or an IPv6 socket address; the address octets and the port are kept in host
  order, so \<^verbatim>\<open>sin_addr\<close> in memory is \<open>be_enc 4 ip\<close> and \<^verbatim>\<open>s6_addr\<close> is \<open>be_enc 16 ip\<close>. The fields
  that the code compares in their raw form are loads on a little-endian host. Shifts by the operand
  width, which C++ leaves undefined, give \<open>BadShift\<close>. \<^verbatim>\<open>inet_pton\<close> is a parameter.
\<close>

section \<open>Representation\<close>

type_synonym u128 = "128 word"

datatype inet = Inet_null | Inet4 u32 u16 | Inet6 u128 u16 u32 u32

datatype ip_scope =
  IP_SCOPE_NONE | IP_SCOPE_MULTICAST | IP_SCOPE_LOOPBACK | IP_SCOPE_PSEUDOPRIVATE
  | IP_SCOPE_GLOBAL | IP_SCOPE_LINK_LOCAL | IP_SCOPE_SHARED | IP_SCOPE_PRIVATE

fun scope_rank :: "ip_scope \<Rightarrow> nat" where
  "scope_rank IP_SCOPE_NONE = 0"
| "scope_rank IP_SCOPE_MULTICAST = 1"
| "scope_rank IP_SCOPE_LOOPBACK = 2"
| "scope_rank IP_SCOPE_PSEUDOPRIVATE = 3"
| "scope_rank IP_SCOPE_GLOBAL = 4"
| "scope_rank IP_SCOPE_LINK_LOCAL = 5"
| "scope_rank IP_SCOPE_SHARED = 6"
| "scope_rank IP_SCOPE_PRIVATE = 7"

text \<open>Checked shifts.\<close>

definition c_shl :: "'a::len word \<Rightarrow> nat \<Rightarrow> 'a word res" where
  "c_shl x n = (if n \<ge> LENGTH('a) then Inl BadShift else Inr (push_bit n x))"

definition c_shr :: "'a::len word \<Rightarrow> nat \<Rightarrow> 'a word res" where
  "c_shr x n = (if n \<ge> LENGTH('a) then Inl BadShift else Inr (drop_bit n x))"

abbreviation s6_addr :: "u128 \<Rightarrow> bytes" where
  "s6_addr ip \<equiv> be_enc 16 ip"

section \<open>Classification\<close>

definition ipScope4 :: "u32 \<Rightarrow> ip_scope" where
  "ipScope4 ip =
     (let a = drop_bit 24 ip; b = drop_bit 28 ip in
      if a = 0x00 then IP_SCOPE_NONE
      else if a \<in> set [0x06, 0x0b, 0x15, 0x16, 0x19, 0x1a, 0x1c, 0x1d, 0x1e, 0x2c, 0x33, 0x37, 0x38]
        then IP_SCOPE_PSEUDOPRIVATE
      else if a = 0x0a then IP_SCOPE_PRIVATE
      else if a = 0x64 \<and> ip AND 0xffc00000 = 0x64400000 then IP_SCOPE_SHARED
      else if a = 0x7f then IP_SCOPE_LOOPBACK
      else if a = 0xa9 \<and> ip AND 0xffff0000 = 0xa9fe0000 then IP_SCOPE_LINK_LOCAL
      else if a = 0xac \<and> ip AND 0xfff00000 = 0xac100000 then IP_SCOPE_PRIVATE
      else if a = 0xc0 \<and> ip AND 0xffff0000 = 0xc0a80000 then IP_SCOPE_PRIVATE
      else if a = 0xff then IP_SCOPE_NONE
      else if b = 0xe then IP_SCOPE_MULTICAST
      else if b = 0xf then IP_SCOPE_PSEUDOPRIVATE
      else IP_SCOPE_GLOBAL)"

text \<open>The loop \<^verbatim>\<open>while ((!ip[k])&&(k < 15)) ++k\<close>.\<close>

function first_nonzero :: "bytes \<Rightarrow> nat \<Rightarrow> nat" where
  "first_nonzero ip k = (if ip ! k = 0 \<and> k < 15 then first_nonzero ip (k + 1) else k)"
  by pat_completeness auto
termination by (relation "measure (\<lambda>(ip, k). 15 - k)") auto

declare first_nonzero.simps [simp del]

definition ipScope6 :: "bytes \<Rightarrow> ip_scope" where
  "ipScope6 ip =
     (if ip ! 0 AND 0xf0 = 0xf0 \<and> ip ! 0 = 0xff then IP_SCOPE_MULTICAST
      else if ip ! 0 AND 0xf0 = 0xf0 \<and> ip ! 0 = 0xfe \<and> ip ! 1 AND 0xc0 = 0x80 then
        (if first_nonzero ip 2 = 15 \<and> ip ! 15 = 0x01 then IP_SCOPE_LOOPBACK else IP_SCOPE_LINK_LOCAL)
      else if ip ! 0 AND 0xf0 = 0xf0 \<and> ip ! 0 AND 0xfe = 0xfc then IP_SCOPE_PRIVATE
      else if first_nonzero ip 0 = 15 \<and> ip ! 15 = 0x01 then IP_SCOPE_LOOPBACK
      else if first_nonzero ip 0 = 15 \<and> ip ! 15 = 0x00 then IP_SCOPE_NONE
      else IP_SCOPE_GLOBAL)"

fun ipScope :: "inet \<Rightarrow> ip_scope" where
  "ipScope (Inet4 ip _) = ipScope4 ip"
| "ipScope (Inet6 ip _ _ _) = ipScope6 (s6_addr ip)"
| "ipScope Inet_null = IP_SCOPE_NONE"

section \<open>Construction and fields\<close>

definition InetAddress_set :: "bytes \<Rightarrow> u16 \<Rightarrow> inet" where
  "InetAddress_set ipBytes port =
     (if length ipBytes = 4 then Inet4 (be_dec ipBytes) port
      else if length ipBytes = 16 then Inet6 (be_dec ipBytes) port 0 0
      else Inet_null)"

fun setPort :: "inet \<Rightarrow> u16 \<Rightarrow> inet" where
  "setPort (Inet4 ip _) p = Inet4 ip p"
| "setPort (Inet6 ip _ f s) p = Inet6 ip p f s"
| "setPort Inet_null p = Inet_null"

fun inet_port :: "inet \<Rightarrow> nat" where
  "inet_port (Inet4 _ p) = unat p"
| "inet_port (Inet6 _ p _ _) = unat p"
| "inet_port Inet_null = 0"

fun isDefaultRoute :: "inet \<Rightarrow> bool" where
  "isDefaultRoute (Inet4 ip p) = (ip = 0 \<and> p = 0)"
| "isDefaultRoute (Inet6 ip p _ _) = (isZero (s6_addr ip) \<and> p = 0)"
| "isDefaultRoute Inet_null = False"

fun netmaskBitsValid :: "inet \<Rightarrow> bool" where
  "netmaskBitsValid (Inet4 ip p) = (unat p \<le> 32)"
| "netmaskBitsValid (Inet6 ip p _ _) = (unat p \<le> 128)"
| "netmaskBitsValid Inet_null = False"

fun rawIpData :: "inet \<Rightarrow> bytes option" where
  "rawIpData (Inet4 ip _) = Some (be_enc 4 ip)"
| "rawIpData (Inet6 ip _ _ _) = Some (s6_addr ip)"
| "rawIpData Inet_null = None"

fun ipOnly :: "inet \<Rightarrow> inet" where
  "ipOnly (Inet4 ip _) = Inet4 ip 0"
| "ipOnly (Inet6 ip _ _ _) = Inet6 ip 0 0 0"
| "ipOnly Inet_null = Inet_null"

fun ipsEqual :: "inet \<Rightarrow> inet \<Rightarrow> bool" where
  "ipsEqual (Inet4 a _) (Inet4 b _) = (be_enc 4 a = be_enc 4 b)"
| "ipsEqual (Inet6 a _ _ _) (Inet6 b _ _ _) = (s6_addr a = s6_addr b)"
| "ipsEqual Inet_null Inet_null = True"
| "ipsEqual _ _ = False"

section \<open>Masks and routes\<close>

fun netmask :: "inet \<Rightarrow> inet res" where
  "netmask (Inet4 ip p) =
     ebind (c_shl (0xffffffff :: u32) (u32_sub 32 (unat p))) (\<lambda>m. Inr (Inet4 m p))"
| "netmask (Inet6 ip p f s) =
     (let bits = unat p in
      if bits \<noteq> 0 then
        ebind (if bits \<ge> 64 then Inr (0xffffffffffffffff :: u64) else c_shl 0xffffffffffffffff (64 - bits)) (\<lambda>nm0.
        ebind (if bits \<le> 64 then Inr (0 :: u64) else c_shl 0xffffffffffffffff (u32_sub 128 bits)) (\<lambda>nm1.
        Inr (Inet6 (be_dec (be_enc 8 nm0 @ be_enc 8 nm1)) p f s)))
      else Inr (Inet6 (be_dec (be_enc 8 (0 :: u64) @ be_enc 8 (0 :: u64))) p f s))"
| "netmask Inet_null = Inr Inet_null"

fun broadcast :: "inet \<Rightarrow> inet res" where
  "broadcast (Inet4 ip p) = ebind (c_shr (0xffffffff :: u32) (unat p)) (\<lambda>m. Inr (Inet4 (ip OR m) p))"
| "broadcast _ = Inr Inet_null"

fun network :: "inet \<Rightarrow> inet res" where
  "network (Inet4 ip p) =
     ebind (c_shl (0xffffffff :: u32) (u32_sub 32 (unat p))) (\<lambda>m. Inr (Inet4 (ip AND m) p))"
| "network (Inet6 ip p f s) =
     (let bits = unat p in
      ebind (if bits \<ge> 64 then Inr (0xffffffffffffffff :: u64) else c_shl 0xffffffffffffffff (64 - bits)) (\<lambda>m0.
      ebind (if bits \<le> 64 then Inr (0 :: u64) else c_shl 0xffffffffffffffff (u32_sub 128 bits)) (\<lambda>m1.
      Inr (Inet6 (be_dec (map2 (AND) (s6_addr ip) (be_enc 8 m0 @ be_enc 8 m1))) p f s))))"
| "network Inet_null = Inr Inet_null"

fun containsAddress :: "inet \<Rightarrow> inet \<Rightarrow> bool res" where
  "containsAddress (Inet4 ip p) (Inet4 a _) =
     (let bits = unat p in
      if bits = 0 then Inr True
      else ebind (c_shr a (u32_sub 32 bits)) (\<lambda>x. ebind (c_shr ip (u32_sub 32 bits)) (\<lambda>y. Inr (x = y))))"
| "containsAddress (Inet6 ip p f s) (Inet6 a _ _ _) =
     ebind (netmask (Inet6 ip p f s)) (\<lambda>mask.
       case mask of
         Inet6 m _ _ _ \<Rightarrow> Inr (list_all (\<lambda>i. s6_addr a ! i AND s6_addr m ! i = s6_addr ip ! i) [0..<16])
       | _ \<Rightarrow> Inr False)"
| "containsAddress _ _ = Inr False"

fun isNetwork :: "inet \<Rightarrow> bool" where
  "isNetwork (Inet4 ip p) =
     (let bits = unat p in
      if bits = 0 then False else if bits \<ge> 32 then False
      else ip AND drop_bit bits 0xffffffff = 0)"
| "isNetwork (Inet6 ip p _ _) =
     (let bits = unat p; n = bits div 8 in
      if bits = 0 then False else if bits \<ge> 128 then False
      else if s6_addr ip ! n AND drop_bit (bits mod 8) 0xff \<noteq> 0 then False
      else isZero (drop (n + 1) (s6_addr ip)))"
| "isNetwork Inet_null = False"

section \<open>Comparison and hashing\<close>

text \<open>The value of a field in network order that a little-endian host loads.\<close>

definition raw :: "'a::len word \<Rightarrow> 'a word" where
  "raw x = be_dec (rev (be_enc (LENGTH('a) div 8) x))"

fun memcmp :: "bytes \<Rightarrow> bytes \<Rightarrow> int" where
  "memcmp (x # xs) (y # ys) = (if x < y then -1 else if y < x then 1 else memcmp xs ys)"
| "memcmp _ _ = 0"

fun InetAddress_eq :: "inet \<Rightarrow> inet \<Rightarrow> bool" where
  "InetAddress_eq (Inet4 a p) (Inet4 b q) = (p = q \<and> a = b)"
| "InetAddress_eq (Inet6 a p f s) (Inet6 b q g t) =
     (p = q \<and> f = g \<and> memcmp (s6_addr a) (s6_addr b) = 0 \<and> s = t)"
| "InetAddress_eq Inet_null Inet_null = True"
| "InetAddress_eq _ _ = False"

fun ss_family :: "inet \<Rightarrow> nat" where
  "ss_family Inet_null = 0"
| "ss_family (Inet4 _ _) = 2"
| "ss_family (Inet6 _ _ _ _) = 10"

fun InetAddress_less :: "inet \<Rightarrow> inet \<Rightarrow> bool" where
  "InetAddress_less (Inet4 a p) (Inet4 b q) =
     (if raw p < raw q then True
      else if raw p = raw q then (if raw a < raw b then True else False)
      else False)"
| "InetAddress_less (Inet6 a p f s) (Inet6 b q g t) =
     (if raw p < raw q then True
      else if raw p = raw q then
        (if f < g then True
         else if f = g then
           (if memcmp (s6_addr a) (s6_addr b) < 0 then True
            else if memcmp (s6_addr a) (s6_addr b) = 0 then (if s < t then True else False)
            else False)
         else False)
      else False)"
| "InetAddress_less a b = (ss_family a < ss_family b)"

fun InetAddress_hashCode :: "inet \<Rightarrow> u64" where
  "InetAddress_hashCode (Inet4 ip p) = ucast (raw ip) + ucast (raw p)"
| "InetAddress_hashCode (Inet6 ip p _ _) =
     fold (\<lambda>i tmp. tmp XOR push_bit (8 * (i mod 8)) (ucast (s6_addr ip ! i))) [0..<16] (ucast (raw p))"
| "InetAddress_hashCode Inet_null = 0"

fun rateGateHash :: "inet \<Rightarrow> u64" where
  "rateGateHash (Inet4 ip _) =
     (let h = ucast (drop_bit 8 (ip AND 0xffffff00)) in (h XOR drop_bit 14 h) AND 0x3fff)"
| "rateGateHash (Inet6 ip _ _ _) =
     (let a = (\<lambda>i. ucast (s6_addr ip ! i));
          h = push_bit 1 (a 0);
          h = push_bit 1 (h + a 1);
          h = push_bit 1 (h + a 2);
          h = push_bit 1 (h + a 3);
          h = push_bit 1 (h + a 4);
          h = h + a 5
      in h AND 0x3fff)"
| "rateGateHash Inet_null = 0 AND 0x3fff"

section \<open>Wire format\<close>

fun InetAddress_serialize :: "nat \<Rightarrow> bytes \<Rightarrow> inet \<Rightarrow> bytes res" where
  "InetAddress_serialize C b (Inet4 ip p) =
     ebind (bs_append C b [0x04]) (\<lambda>b. ebind (bs_append C b (be_enc 4 ip)) (\<lambda>b. bs_append C b (be_enc 2 p)))"
| "InetAddress_serialize C b (Inet6 ip p _ _) =
     ebind (bs_append C b [0x06]) (\<lambda>b. ebind (bs_append C b (s6_addr ip)) (\<lambda>b. bs_append C b (be_enc 2 p)))"
| "InetAddress_serialize C b Inet_null = bs_append C b [0]"

text \<open>The address and the number of bytes consumed.\<close>

definition InetAddress_deserialize :: "bytes \<Rightarrow> nat \<Rightarrow> (inet \<times> nat) res" where
  "InetAddress_deserialize b startAt =
     ebind (bs_get b startAt) (\<lambda>t.
       let p = startAt + 1 in
       if t = 0 then Inr (Inet_null, 1)
       else if t = 0x01 then Inr (Inet_null, 7)
       else if t = 0x02 then Inr (Inet_null, 7)
       else if t = 0x03 then ebind (bs_at b p) (\<lambda>n :: u16. Inr (Inet_null, unat n + 3))
       else if t = 0x04 then
         ebind (bs_field b p 4) (\<lambda>ip. ebind (bs_at b (p + 4)) (\<lambda>port.
           Inr (Inet4 (be_dec ip) port, p + 6 - startAt)))
       else if t = 0x06 then
         ebind (bs_field b p 16) (\<lambda>ip. ebind (bs_at b (p + 16)) (\<lambda>port.
           Inr (Inet6 (be_dec ip) port 0 0, p + 18 - startAt)))
       else Inl InvalidArg)"

section \<open>Generated IPv6 addresses\<close>

text \<open>\<open>fl\<close> and \<open>sc\<close> are the uninitialised flow label and scope of the local \<^verbatim>\<open>sockaddr_in6\<close>.\<close>

definition makeIpv6LinkLocal :: "u32 \<Rightarrow> u32 \<Rightarrow> mac \<Rightarrow> inet" where
  "makeIpv6LinkLocal fl sc m =
     Inet6 (be_dec [0xfe, 0x80, 0, 0, 0, 0, 0, 0, MAC_nth m 0 AND 0xfd, MAC_nth m 1, MAC_nth m 2,
                    0xff, 0xfe, MAC_nth m 3, MAC_nth m 4, MAC_nth m 5]) 64 fl sc"

definition makeIpv6rfc4193 :: "u64 \<Rightarrow> u64 \<Rightarrow> inet" where
  "makeIpv6rfc4193 nwid zeroTierAddress =
     Inet6 (be_dec
       [0xfd, ucast (drop_bit 56 nwid), ucast (drop_bit 48 nwid), ucast (drop_bit 40 nwid),
        ucast (drop_bit 32 nwid), ucast (drop_bit 24 nwid), ucast (drop_bit 16 nwid),
        ucast (drop_bit 8 nwid), ucast nwid, 0x99, 0x93, ucast (drop_bit 32 zeroTierAddress),
        ucast (drop_bit 24 zeroTierAddress), ucast (drop_bit 16 zeroTierAddress),
        ucast (drop_bit 8 zeroTierAddress), ucast zeroTierAddress]) 88 0 0"

definition makeIpv66plane :: "u64 \<Rightarrow> u64 \<Rightarrow> inet" where
  "makeIpv66plane nwid zeroTierAddress =
     (let nwid = nwid XOR drop_bit 32 nwid in
      Inet6 (be_dec
        [0xfc, ucast (drop_bit 24 nwid), ucast (drop_bit 16 nwid), ucast (drop_bit 8 nwid), ucast nwid,
         ucast (drop_bit 32 zeroTierAddress), ucast (drop_bit 24 zeroTierAddress),
         ucast (drop_bit 16 zeroTierAddress), ucast (drop_bit 8 zeroTierAddress), ucast zeroTierAddress,
         0, 0, 0, 0, 0, 0x01]) 40 0 0)"

section \<open>Text\<close>

text \<open>The conversions \<^verbatim>\<open>%d\<close> of a nonnegative and \<^verbatim>\<open>%.2x\<close> of a byte; characters are their codes.\<close>

fun dec_string :: "nat \<Rightarrow> bytes" where
  "dec_string n = (if n < 10 then [48 + of_nat n] else dec_string (n div 10) @ [48 + of_nat (n mod 10)])"

declare dec_string.simps [simp del]

text \<open>Joining the parts of an address with a separator character.\<close>

fun join :: "byte \<Rightarrow> bytes list \<Rightarrow> bytes" where
  "join c [] = []"
| "join c [x] = x"
| "join c (x # y # zs) = x @ c # join c (y # zs)"

fun toIpString :: "inet \<Rightarrow> bytes" where
  "toIpString (Inet4 ip _) = join 46 (map (\<lambda>b. dec_string (unat b)) (be_enc 4 ip))"
| "toIpString (Inet6 ip _ _ _) =
     join 58 (map (\<lambda>i. hex [s6_addr ip ! (2 * i), s6_addr ip ! (2 * i + 1)]) [0..<8])"
| "toIpString Inet_null = []"

fun InetAddress_toString :: "inet \<Rightarrow> bytes" where
  "InetAddress_toString (Inet4 ip p) = toIpString (Inet4 ip p) @ 47 # dec_string (unat p)"
| "InetAddress_toString (Inet6 ip p f s) = toIpString (Inet6 ip p f s) @ 47 # dec_string (unat p)"
| "InetAddress_toString Inet_null = []"

text \<open>\<^verbatim>\<open>inet_pton\<close> for the two families: the octets, or \<open>None\<close> for a text that it rejects.\<close>

definition InetAddress_set_string ::
  "(bytes \<Rightarrow> u32 option) \<Rightarrow> (bytes \<Rightarrow> u128 option) \<Rightarrow> bytes \<Rightarrow> u16 \<Rightarrow> inet" where
  "InetAddress_set_string pton4 pton6 ip port =
     (if 58 \<in> set ip then (case pton6 ip of Some a \<Rightarrow> Inet6 a port 0 0 | None \<Rightarrow> Inet_null)
      else if 46 \<in> set ip then (case pton4 ip of Some a \<Rightarrow> Inet4 a port | None \<Rightarrow> Inet_null)
      else Inet_null)"

text \<open>
  \<^verbatim>\<open>strtol(s,0,10)\<close>: white space, a sign and decimal digits. The library saturates at the bounds of
  \<^verbatim>\<open>long\<close>; the caller only tells values up to 65535 apart, so the unbounded value serves.
\<close>

fun strtol_digits :: "int \<Rightarrow> bytes \<Rightarrow> int" where
  "strtol_digits acc [] = acc"
| "strtol_digits acc (c # s) =
     (if 48 \<le> c \<and> c \<le> 57 then strtol_digits (10 * acc + int (unat (c - 48))) s else acc)"

definition strtol :: "bytes \<Rightarrow> int" where
  "strtol s =
     (case dropWhile (\<lambda>c. c = 32 \<or> 9 \<le> c \<and> c \<le> 13) s of
        [] \<Rightarrow> 0
      | c # r \<Rightarrow> if c = 45 then - strtol_digits 0 r else if c = 43 then strtol_digits 0 r
                else strtol_digits 0 (c # r))"

definition InetAddress_fromString ::
  "(bytes \<Rightarrow> u32 option) \<Rightarrow> (bytes \<Rightarrow> u128 option) \<Rightarrow> bytes \<Rightarrow> inet" where
  "InetAddress_fromString pton4 pton6 s =
     (if 47 \<notin> set s then InetAddress_set_string pton4 pton6 s 0
      else let p = strtol (tl (dropWhile (\<lambda>c. c \<noteq> 47) s)); ip = takeWhile (\<lambda>c. c \<noteq> 47) s in
           if p > 0 \<and> p \<le> 0xffff then InetAddress_set_string pton4 pton6 ip (of_int p)
           else InetAddress_set_string pton4 pton6 ip 0)"

section \<open>Wire format\<close>

text \<open>What the wire format carries of an address: not the flow label and the scope.\<close>

fun inet_wire :: "inet \<Rightarrow> inet" where
  "inet_wire (Inet6 ip p _ _) = Inet6 ip p 0 0"
| "inet_wire a = a"

fun inet_wire_length :: "inet \<Rightarrow> nat" where
  "inet_wire_length Inet_null = 1"
| "inet_wire_length (Inet4 _ _) = 7"
| "inet_wire_length (Inet6 _ _ _ _) = 19"

text \<open>
  Wire round trip: serializing an address into a buffer with room for it appends 1, 7 or 19
  bytes, and deserializing at that position, whatever follows, gives back the address and port and
  consumes exactly those bytes. Without room the call throws.
\<close>

lemma InetAddress_roundtrip:
  shows "(length b + inet_wire_length a \<le> C \<longrightarrow>
      (\<exists>w. InetAddress_serialize C b a = Inr (b @ w) \<and> length w = inet_wire_length a
        \<and> (\<forall>rest. InetAddress_deserialize (b @ w @ rest) (length b) = Inr (inet_wire a, inet_wire_length a))))
    \<and> (C < length b + inet_wire_length a \<longrightarrow> InetAddress_serialize C b a = Inl OutOfRange)"
proof (cases a)
  case (Inet4 ip p)
  let ?w = "0x04 # be_enc 4 ip @ be_enc 2 p"
  have "InetAddress_deserialize (b @ ?w @ rest) (length b) = Inr (Inet4 ip p, 7)" for rest
    by (simp add: InetAddress_deserialize_def bs_field_def bs_at_def sub_def nth_append be_dec_enc_id
        del: be_enc_numeral)
  moreover have "length b + 7 \<le> C \<Longrightarrow> InetAddress_serialize C b a = Inr (b @ ?w)"
    by (simp add: Inet4 bs_append_def del: be_enc_numeral)
  moreover have "C < length b + 7 \<Longrightarrow> InetAddress_serialize C b a = Inl OutOfRange"
    by (simp add: Inet4 bs_append_def del: be_enc_numeral)
  ultimately show ?thesis by (auto simp: Inet4 simp del: be_enc_numeral intro!: exI [of _ ?w])
next
  case (Inet6 ip p f s)
  let ?w = "0x06 # be_enc 16 ip @ be_enc 2 p"
  have "InetAddress_deserialize (b @ ?w @ rest) (length b) = Inr (Inet6 ip p 0 0, 19)" for rest
    by (simp add: InetAddress_deserialize_def bs_field_def bs_at_def sub_def nth_append be_dec_enc_id
        del: be_enc_numeral)
  moreover have "length b + 19 \<le> C \<Longrightarrow> InetAddress_serialize C b a = Inr (b @ ?w)"
    by (simp add: Inet6 bs_append_def del: be_enc_numeral)
  moreover have "C < length b + 19 \<Longrightarrow> InetAddress_serialize C b a = Inl OutOfRange"
    by (simp add: Inet6 bs_append_def del: be_enc_numeral)
  ultimately show ?thesis by (auto simp: Inet6 simp del: be_enc_numeral intro!: exI [of _ ?w])
next
  case Inet_null
  then show ?thesis by (simp add: bs_append_def InetAddress_deserialize_def nth_append)
qed

section \<open>Order\<close>

lemma raw_inject: "8 dvd LENGTH('a) \<Longrightarrow> raw x = raw y \<longleftrightarrow> x = (y :: 'a::len word)"
proof
  assume d: "8 dvd LENGTH('a)" and e: "raw x = raw y"
  let ?n = "LENGTH('a) div 8"
  have l: "8 * length (rev (be_enc ?n z)) \<le> LENGTH('a)" for z :: "'a word" by simp
  have "rev (be_enc ?n x) = rev (be_enc ?n y)"
    using e be_enc_dec [OF l [of x]] be_enc_dec [OF l [of y]] by (simp add: raw_def)
  then have "be_enc ?n x = be_enc ?n y" by simp
  then show "x = y" using d be_enc_inject [where n = ?n and v = x and w = y] by simp
qed simp

lemma memcmp_refl [simp]: "memcmp xs xs = 0"
  by (induction xs) auto

lemma memcmp_eq_0: "length xs = length ys \<Longrightarrow> memcmp xs ys = 0 \<longleftrightarrow> xs = ys"
  by (induction xs ys rule: list_induct2) auto

lemma memcmp_swap: "memcmp ys xs = - memcmp xs ys"
  by (induction xs ys rule: memcmp.induct) auto

lemma memcmp_trans: "length xs = length ys \<Longrightarrow> length ys = length zs \<Longrightarrow>
    memcmp xs ys < 0 \<Longrightarrow> memcmp ys zs < 0 \<Longrightarrow> memcmp xs zs < 0"
proof (induction xs ys zs rule: list_induct3)
  case (Cons x xs y ys z zs)
  then show ?case by (auto split: if_splits)
qed simp

lemma s6_addr_inject: "s6_addr a = s6_addr b \<longleftrightarrow> a = b"
  by (rule be_enc_inject) simp

lemma InetAddress_eq_iff: "InetAddress_eq a b \<longleftrightarrow> a = b"
  by (cases a; cases b)
    (auto simp: memcmp_eq_0 s6_addr_inject simp del: be_enc_numeral)

lemma InetAddress_less_irrefl: "\<not> InetAddress_less a a"
  by (cases a) (simp_all del: be_enc_numeral)

lemma memcmp_total: "memcmp xs ys < 0 \<or> memcmp xs ys = 0 \<or> memcmp ys xs < 0"
  using memcmp_swap [of ys xs] by linarith

lemma InetAddress_less_total: "InetAddress_less a b \<or> a = b \<or> InetAddress_less b a"
proof (cases a)
  case a: (Inet6 ip p f s)
  show ?thesis
  proof (cases b)
    case b: (Inet6 ip' p' f' s')
    have "memcmp (s6_addr ip) (s6_addr ip') < 0 \<or> ip = ip' \<or> memcmp (s6_addr ip') (s6_addr ip) < 0"
      using memcmp_total [of "s6_addr ip" "s6_addr ip'"] memcmp_eq_0 [of "s6_addr ip" "s6_addr ip'"]
      by (auto simp: s6_addr_inject simp del: be_enc_numeral)
    then show ?thesis by (auto simp: a b raw_inject simp del: be_enc_numeral)
  qed (simp_all add: a)
next
  case (Inet4 ip p)
  then show ?thesis by (cases b) (auto simp: raw_inject)
next
  case Inet_null
  then show ?thesis by (cases b) auto
qed

lemma InetAddress_less_asym: "InetAddress_less a b \<Longrightarrow> \<not> InetAddress_less b a"
proof (cases "(a, b)" rule: InetAddress_less.cases)
  case (2 ip p f s ip' p' f' s')
  assume "InetAddress_less a b"
  with 2 show ?thesis
    using memcmp_swap [of "s6_addr ip" "s6_addr ip'"] by (auto simp del: be_enc_numeral split: if_splits)
qed (auto split: if_splits)

lemma InetAddress_less_family: "InetAddress_less a b \<Longrightarrow> ss_family a \<le> ss_family b"
  by (cases a; cases b) auto

lemma InetAddress_less_trans: "InetAddress_less a b \<Longrightarrow> InetAddress_less b c \<Longrightarrow> InetAddress_less a c"
proof (cases a; cases b; cases c)
  fix ip1 p1 f1 s1 ip2 p2 f2 s2 ip3 p3 f3 s3
  assume l: "InetAddress_less a b" "InetAddress_less b c"
    and e: "a = Inet6 ip1 p1 f1 s1" "b = Inet6 ip2 p2 f2 s2" "c = Inet6 ip3 p3 f3 s3"
  let ?m = "\<lambda>x y. memcmp (s6_addr x) (s6_addr y)"
  have m: "?m x y = 0 \<longleftrightarrow> x = y" for x y
    using memcmp_eq_0 [of "s6_addr x" "s6_addr y"] by (simp add: s6_addr_inject del: be_enc_numeral)
  have t: "?m ip1 ip2 < 0 \<Longrightarrow> ?m ip2 ip3 < 0 \<Longrightarrow> ?m ip1 ip3 < 0"
    using memcmp_trans [of "s6_addr ip1" "s6_addr ip2" "s6_addr ip3"] by (simp del: be_enc_numeral)
  show ?thesis
    using l t unfolding e InetAddress_less.simps m raw_inject
    by (auto simp del: be_enc_numeral split: if_splits)
qed (auto split: if_splits)

instantiation inet :: linorder
begin

definition less_inet :: "inet \<Rightarrow> inet \<Rightarrow> bool" where
  "less_inet a b = InetAddress_less a b"

definition less_eq_inet :: "inet \<Rightarrow> inet \<Rightarrow> bool" where
  "less_eq_inet a b = (\<not> InetAddress_less b a)"

instance
proof
  fix a b c :: inet
  show "(a < b) = (a \<le> b \<and> \<not> b \<le> a)"
    using InetAddress_less_asym by (auto simp: less_inet_def less_eq_inet_def)
  show "a \<le> a" by (simp add: less_eq_inet_def InetAddress_less_irrefl)
  show "a \<le> b \<Longrightarrow> b \<le> c \<Longrightarrow> a \<le> c"
    using InetAddress_less_total InetAddress_less_trans unfolding less_eq_inet_def by metis
  show "a \<le> b \<Longrightarrow> b \<le> a \<Longrightarrow> a = b"
    using InetAddress_less_total unfolding less_eq_inet_def by blast
  show "a \<le> b \<or> b \<le> a"
    using InetAddress_less_asym unfolding less_eq_inet_def by blast
qed

end

section \<open>Routes\<close>

lemma nth_be_enc: "i < n \<Longrightarrow> be_enc n v ! i = ucast (drop_bit (8 * (n - 1 - i)) v)"
  by (induction n v arbitrary: i rule: be_enc.induct) (auto simp: nth_Cons split: nat.splits)

lemma be_enc_and:
  fixes v w :: "'a::len word"
  shows "be_enc n (v AND w) = map2 (AND) (be_enc n v) (be_enc n w)"
proof (induction n)
  case (Suc n)
  have "(ucast (drop_bit (8 * n) (v AND w)) :: byte)
      = ucast (drop_bit (8 * n) v) AND ucast (drop_bit (8 * n) w)"
    by (rule bit_word_eqI) (simp add: bit_simps)
  with Suc show ?case by simp
qed simp

lemma be_enc_ucast: "be_enc 8 (ucast (x :: u64) :: u128) = be_enc 8 x"
proof (rule nth_equalityI)
  fix i assume "i < length (be_enc 8 (ucast x :: u128))"
  then have i: "i < 8" by (simp del: be_enc_numeral)
  then show "be_enc 8 (ucast x :: u128) ! i = be_enc 8 x ! i"
    by (auto simp: nth_be_enc simp del: be_enc_numeral intro!: bit_word_eqI simp: bit_simps)
qed (simp del: be_enc_numeral)

lemma be_dec_halves:
  "be_dec (be_enc 8 (x :: u64) @ be_enc 8 (y :: u64)) = (push_bit 64 (ucast x) OR ucast y :: u128)"
proof -
  have app: "be_fold v (as @ bs) = be_fold (be_fold v as) bs" for v :: u128 and as bs
    by (induction v as rule: be_fold.induct) simp_all
  have t: "take_bit 64 (ucast z :: u128) = ucast z" for z :: u64
    by (rule bit_word_eqI) (auto simp: bit_simps dest: bit_imp_le_length)
  show ?thesis
    unfolding be_dec_def app be_enc_ucast [symmetric] be_fold_enc by (simp add: t)
qed

text \<open>The mask of a prefix length: its bits are the highest ones.\<close>

definition prefix_mask :: "nat \<Rightarrow> 'a::len word" where
  "prefix_mask n = NOT (mask (LENGTH('a) - n))"

lemma bit_prefix_mask: "bit (prefix_mask n :: 'a::len word) i \<longleftrightarrow> i < LENGTH('a) \<and> LENGTH('a) - n \<le> i"
  by (auto simp: prefix_mask_def bit_simps)

lemma netmask4:
  assumes "1 \<le> unat p" and "unat p \<le> 32"
  shows "c_shl (0xffffffff :: u32) (u32_sub 32 (unat p)) = Inr (prefix_mask (unat p))"
proof -
  have "u32_sub 32 (unat p) = 32 - unat p" using assms by (intro u32_sub_exact) auto
  moreover have "push_bit (32 - unat p) (0xffffffff :: u32) = prefix_mask (unat p)"
  proof -
    have f: "(0xffffffff :: u32) = mask 32" by (simp add: mask_eq_exp_minus_1)
    show ?thesis unfolding f by (rule bit_word_eqI) (auto simp: bit_prefix_mask bit_simps)
  qed
  ultimately show ?thesis using assms by (simp add: c_shl_def)
qed

lemma unat_u16: "unat (p :: u16) < 65536"
  by (rule order_less_le_trans [OF unsigned_less]) simp

lemma u32_sub_large: "a < unat (p :: u16) \<Longrightarrow> 65536 \<le> u32_sub a (unat p)"
  using unat_u16 [of p] by (simp add: u32_sub_wraps)

lemma netmask6:
  assumes "unat p \<le> 128"
  shows "netmask (Inet6 ip p f s) = Inr (Inet6 (prefix_mask (unat p)) p f s)"
proof -
  have F: "(0xffffffffffffffff :: u64) = mask 64" by (simp add: mask_eq_exp_minus_1)
  have hi: "(push_bit 64 (ucast (push_bit (64 - b) (mask 64 :: u64))) :: u128) = prefix_mask b" if "b \<le> 64" for b
    using that by (intro bit_word_eqI) (auto simp: bit_prefix_mask bit_simps)
  have lo: "(push_bit 64 (ucast (mask 64 :: u64)) OR ucast (push_bit (128 - b) (mask 64 :: u64)) :: u128) = prefix_mask b"
    if "64 < b" "b \<le> 128" for b
    using that by (intro bit_word_eqI) (auto simp: bit_prefix_mask bit_simps)
  consider "unat p = 0" | "0 < unat p" "unat p < 64" | "unat p = 64" | "64 < unat p" by linarith
  then show ?thesis
  proof cases
    case 1
    then show ?thesis using be_dec_halves [of 0 0] hi [of 0] by (simp add: Let_def)
  next
    case 2
    then show ?thesis
      using hi [of "unat p"] by (simp add: c_shl_def F be_dec_halves Let_def del: be_enc_numeral)
  next
    case 3
    then show ?thesis
      using hi [of 64] by (simp add: F be_dec_halves Let_def del: be_enc_numeral)
  next
    case 4
    moreover have "u32_sub 128 (unat p) = 128 - unat p" using assms by (intro u32_sub_exact) auto
    ultimately show ?thesis
      using lo [of "unat p"] assms by (simp add: c_shl_def F be_dec_halves Let_def del: be_enc_numeral)
  qed
qed

lemma s6_and_eq:
  "list_all (\<lambda>i. s6_addr a ! i AND s6_addr m ! i = s6_addr ip ! i) [0..<16] \<longleftrightarrow> a AND m = ip"
proof -
  have "list_all (\<lambda>i. s6_addr a ! i AND s6_addr m ! i = s6_addr ip ! i) [0..<16]
      \<longleftrightarrow> s6_addr (a AND m) = s6_addr ip"
    by (auto simp: list_all_iff list_eq_iff_nth_eq be_enc_and simp del: be_enc_numeral)
  then show ?thesis by (simp only: s6_addr_inject)
qed

lemma shr_prefix_eq:
  fixes a b :: "'a::len word"
  assumes "n \<le> LENGTH('a)"
  shows "drop_bit (LENGTH('a) - n) a = drop_bit (LENGTH('a) - n) b \<longleftrightarrow> a AND prefix_mask n = b AND prefix_mask n"
proof
  assume d: "drop_bit (LENGTH('a) - n) a = drop_bit (LENGTH('a) - n) b"
  show "a AND prefix_mask n = b AND prefix_mask n"
  proof (rule bit_word_eqI)
    fix i assume i: "i < LENGTH('a)"
    have "bit (drop_bit (LENGTH('a) - n) a) (i - (LENGTH('a) - n)) = bit (drop_bit (LENGTH('a) - n) b) (i - (LENGTH('a) - n))"
      by (simp only: d)
    then show "bit (a AND prefix_mask n) i = bit (b AND prefix_mask n) i"
      by (auto simp: bit_simps bit_prefix_mask)
  qed
next
  assume m: "a AND prefix_mask n = b AND prefix_mask n"
  show "drop_bit (LENGTH('a) - n) a = drop_bit (LENGTH('a) - n) b"
  proof (rule bit_word_eqI)
    fix i
    have "bit (a AND prefix_mask n) (LENGTH('a) - n + i) = bit (b AND prefix_mask n) (LENGTH('a) - n + i)"
      by (simp only: m)
    then show "bit (drop_bit (LENGTH('a) - n) a) i = bit (drop_bit (LENGTH('a) - n) b) i"
      by (auto simp: bit_simps bit_prefix_mask dest: bit_imp_le_length)
  qed
qed

lemma contains4:
  assumes "unat p \<le> 32"
  shows "containsAddress (Inet4 ip p) (Inet4 a q) = Inr (a AND prefix_mask (unat p) = ip AND prefix_mask (unat p))"
proof (cases "unat p = 0")
  case True
  have "prefix_mask 0 = (0 :: u32)" by (rule bit_word_eqI) (simp add: bit_prefix_mask)
  with True show ?thesis by simp
next
  case False
  have "u32_sub 32 (unat p) = 32 - unat p" using assms by (intro u32_sub_exact) auto
  then show ?thesis
    using False assms shr_prefix_eq [of "unat p" a ip] by (simp add: c_shr_def Let_def)
qed

lemma contains6:
  assumes "unat p \<le> 128"
  shows "containsAddress (Inet6 ip p f s) (Inet6 a q g t) = Inr (a AND prefix_mask (unat p) = ip)"
  unfolding containsAddress.simps netmask6 [OF assms] by (simp only: ebind.simps inet.case s6_and_eq)

lemma mask_undefined4:
  assumes "unat (p :: u16) = 0 \<or> 32 < unat p"
  shows "c_shl (0xffffffff :: u32) (u32_sub 32 (unat p)) = Inl BadShift"
proof -
  have "u32_sub 32 0 = 32" by (simp add: u32_sub_exact)
  then have "32 \<le> u32_sub 32 (unat p)" using assms u32_sub_large [of 32 p] by auto
  then show ?thesis by (simp add: c_shl_def)
qed

lemma be_dec_s6: "be_dec (map2 (AND) (s6_addr ip) (be_enc 8 x @ be_enc 8 y)) =
    ip AND be_dec (be_enc 8 (x :: u64) @ be_enc 8 (y :: u64))"
proof -
  have "s6_addr (be_dec (be_enc 8 x @ be_enc 8 y)) = be_enc 8 x @ be_enc 8 y"
    using be_enc_dec [of "be_enc 8 x @ be_enc 8 y", where 'a = 128] by (simp del: be_enc_numeral)
  then have "map2 (AND) (s6_addr ip) (be_enc 8 x @ be_enc 8 y) = s6_addr (ip AND be_dec (be_enc 8 x @ be_enc 8 y))"
    by (simp only: be_enc_and)
  then show ?thesis by (simp add: be_dec_enc_id del: be_enc_numeral)
qed

lemma network6_netmask:
  assumes "unat p \<noteq> 0"
  shows "network (Inet6 ip p f s) =
    ebind (netmask (Inet6 ip p f s)) (\<lambda>m. case m of Inet6 w _ _ _ \<Rightarrow> Inr (Inet6 (ip AND w) p f s) | _ \<Rightarrow> Inr m)"
  using assms
  by (simp add: Let_def ebind_assoc be_dec_s6 be_dec_s6 [of ip _ 0, simplified] del: be_enc_numeral)

lemma network_prefix:
  "1 \<le> unat p \<Longrightarrow> unat p \<le> 32 \<Longrightarrow> network (Inet4 ip p) = Inr (Inet4 (ip AND prefix_mask (unat p)) p)"
  "1 \<le> unat p \<Longrightarrow> unat p \<le> 128 \<Longrightarrow> network (Inet6 ip6 p f s) = Inr (Inet6 (ip6 AND prefix_mask (unat p)) p f s)"
proof -
  show "1 \<le> unat p \<Longrightarrow> unat p \<le> 32 \<Longrightarrow> network (Inet4 ip p) = Inr (Inet4 (ip AND prefix_mask (unat p)) p)"
    by (simp add: netmask4)
  show "1 \<le> unat p \<Longrightarrow> unat p \<le> 128 \<Longrightarrow> network (Inet6 ip6 p f s) = Inr (Inet6 (ip6 AND prefix_mask (unat p)) p f s)"
    by (simp only: network6_netmask netmask6 ebind.simps inet.case not_one_le_zero)
qed

lemma network6_zero: "network (Inet6 ip 0 f s) = Inl BadShift"
  by (simp add: c_shl_def)

lemmas mask_ops_del [simp del] = netmask.simps network.simps containsAddress.simps

text \<open>
  C13. Routes: for every valid prefix length an IPv4 route contains the addresses that agree with it
  on the prefix, so it contains itself. An IPv6 route contains the addresses whose prefix equals
  the whole address of the route: one with a bit set after the prefix contains nothing, not even
  itself. Addresses of the other family are never contained.
\<close>

theorem containsAddress_prefix:
  "(unat p \<le> 32 \<longrightarrow>
      containsAddress (Inet4 ip p) (Inet4 a q) = Inr (a AND prefix_mask (unat p) = ip AND prefix_mask (unat p))
      \<and> containsAddress (Inet4 ip p) (Inet4 ip q) = Inr True)
   \<and> (unat p \<le> 128 \<longrightarrow>
      containsAddress (Inet6 ip6 p f s) (Inet6 a6 q g t) = Inr (a6 AND prefix_mask (unat p) = ip6)
      \<and> (ip6 AND prefix_mask (unat p) \<noteq> ip6 \<longrightarrow>
           containsAddress (Inet6 ip6 p f s) (Inet6 a6 q g t) = Inr False))
   \<and> containsAddress (Inet4 ip p) (Inet6 a6 q g t) = Inr False
   \<and> containsAddress (Inet6 ip6 p f s) (Inet4 a q) = Inr False"
proof -
  have "a6 AND m = ip6 \<Longrightarrow> ip6 AND m = ip6" for m by (auto simp: and.assoc)
  then show ?thesis by (auto simp: contains4 contains6 containsAddress.simps(3-))
qed

theorem containsAddress_prefix_witness:
  "containsAddress (Inet4 0x0a000105 24) (Inet4 0x0a000199 0) = Inr True
   \<and> containsAddress (Inet6 0xfd000000000000000000000000000001 64 0 0) (Inet6 0xfd000000000000000000000000000001 0 0 0)
     = Inr False"
proof -
  have m: "(prefix_mask 24 :: u32) = 0xffffff00"
    "(prefix_mask 64 :: u128) = 0xffffffffffffffff0000000000000000"
    by (simp_all add: prefix_mask_def mask_eq_exp_minus_1 not_eq_complement)
  show ?thesis
    using containsAddress_prefix [of 24 "0x0a000105" "0x0a000199" 0 0 0 0 0 0 0]
      containsAddress_prefix [of 64 0 0 0 "0xfd000000000000000000000000000001" 0 0
        "0xfd000000000000000000000000000001" 0 0]
    by (simp add: m)
qed

text \<open>
  C27. Masks: \<^verbatim>\<open>netmask()\<close> and \<^verbatim>\<open>network()\<close> give the prefix mask and the masked address for prefix
  lengths 1 to 32 (IPv4) and 1 to 128 (IPv6). At length 0, the default route, the IPv4 versions
  and the IPv6 \<^verbatim>\<open>network()\<close> shift by the full width, which is undefined; only the IPv6
  \<^verbatim>\<open>netmask()\<close> handles it. \<^verbatim>\<open>broadcast()\<close> is undefined at length 32.
\<close>

theorem netmask_network_prefix:
  "(1 \<le> unat p \<and> unat p \<le> 32 \<longrightarrow>
      netmask (Inet4 ip p) = Inr (Inet4 (prefix_mask (unat p)) p)
      \<and> network (Inet4 ip p) = Inr (Inet4 (ip AND prefix_mask (unat p)) p))
   \<and> (1 \<le> unat p \<and> unat p \<le> 128 \<longrightarrow>
      netmask (Inet6 ip6 p f s) = Inr (Inet6 (prefix_mask (unat p)) p f s)
      \<and> network (Inet6 ip6 p f s) = Inr (Inet6 (ip6 AND prefix_mask (unat p)) p f s))
   \<and> netmask (Inet4 ip 0) = Inl BadShift \<and> network (Inet4 ip 0) = Inl BadShift
   \<and> netmask (Inet6 ip6 0 f s) = Inr (Inet6 0 0 f s) \<and> network (Inet6 ip6 0 f s) = Inl BadShift
   \<and> broadcast (Inet4 ip 32) = Inl BadShift"
proof -
  have "prefix_mask 0 = (0 :: u128)" by (rule bit_word_eqI) (simp add: bit_prefix_mask)
  then have "netmask (Inet6 ip6 0 f s) = Inr (Inet6 0 0 f s)" using netmask6 [of 0 ip6 f s] by simp
  moreover have "netmask (Inet4 ip 0) = Inl BadShift" "network (Inet4 ip 0) = Inl BadShift"
    using mask_undefined4 [of 0] by (simp_all add: netmask.simps network.simps)
  moreover have "broadcast (Inet4 ip 32) = Inl BadShift" by (simp add: c_shr_def)
  moreover have "1 \<le> unat p \<Longrightarrow> unat p \<le> 32 \<Longrightarrow> netmask (Inet4 ip p) = Inr (Inet4 (prefix_mask (unat p)) p)"
    by (simp add: netmask.simps netmask4)
  ultimately show ?thesis by (simp add: network_prefix netmask6 network6_zero)
qed

theorem netmask_network_prefix_witness:
  "network (Inet4 0x0a0001c8 24) = Inr (Inet4 0x0a000100 24) \<and> network (Inet6 5 0 0 0) = Inl BadShift"
proof -
  have "(prefix_mask 24 :: u32) = 0xffffff00"
    by (simp add: prefix_mask_def mask_eq_exp_minus_1 not_eq_complement)
  then show ?thesis using netmask_network_prefix [of 24 "0x0a0001c8" 5 0 0] by simp
qed

section \<open>Generated addresses\<close>

lemma be_dec_append:
  "be_dec (xs @ ys) = (push_bit (8 * length ys) (be_dec xs) OR be_dec ys :: 'a::len word)"
proof -
  have "be_fold v (as @ bs) = be_fold (be_fold v as) bs" for v :: "'a word" and as bs
    by (induction v as rule: be_fold.induct) simp_all
  then show ?thesis using be_fold_split [of "be_dec xs :: 'a word" ys] by (simp add: be_dec_def)
qed

lemma rfc4193_eq:
  "makeIpv6rfc4193 nwid a = Inet6 (be_dec ((0xfd # be_enc 8 nwid @ [0x99, 0x93]) @ be_enc 5 a)) 88 0 0"
  by (simp add: makeIpv6rfc4193_def)

abbreviation fold_nwid :: "u64 \<Rightarrow> u64" where
  "fold_nwid nwid \<equiv> nwid XOR drop_bit 32 nwid"

lemma sixplane_eq:
  "makeIpv66plane nwid a = Inet6 (be_dec ((0xfc # be_enc 4 (fold_nwid nwid)) @ be_enc 5 a @ [0, 0, 0, 0, 0, 0x01])) 40 0 0"
  by (simp add: makeIpv66plane_def Let_def)

lemma be_dec_16_inject:
  assumes "length xs = 16" and "length ys = 16"
  shows "(be_dec xs :: u128) = be_dec ys \<longleftrightarrow> xs = ys"
proof
  assume "(be_dec xs :: u128) = be_dec ys"
  then show "xs = ys"
    using be_enc_dec [of xs, where 'a = 128] be_enc_dec [of ys, where 'a = 128] assms by simp
qed simp

lemma be_enc_take_bit_inject: "be_enc n v = be_enc n w \<longleftrightarrow> take_bit (8 * n) v = take_bit (8 * n) w"
  using be_enc_low_bits [of n v w] be_dec_enc [of n v] be_dec_enc [of n w] by metis

text \<open>Addresses that differ only after the prefix have the same network.\<close>

lemma same_prefix:
  assumes "length ys = length zs" and "n + 8 * length ys \<le> 128"
  shows "(be_dec (xs @ ys) AND prefix_mask n :: u128) = be_dec (xs @ zs) AND prefix_mask n"
proof (rule bit_word_eqI)
  fix i
  show "bit (be_dec (xs @ ys) AND prefix_mask n :: u128) i = bit (be_dec (xs @ zs) AND prefix_mask n :: u128) i"
    using assms bit_be_dec_high [of ys i, where 'a = 128] bit_be_dec_high [of zs i, where 'a = 128]
    by (cases "8 * length ys \<le> i") (auto simp: be_dec_append bit_simps bit_prefix_mask)
qed

lemma s6_be_dec: "length xs = 16 \<Longrightarrow> s6_addr (be_dec xs) = xs"
  using be_enc_dec [of xs, where 'a = 128] by simp

lemma sixplane_inject:
  "makeIpv66plane n a = makeIpv66plane m b \<longleftrightarrow>
     take_bit 32 (fold_nwid n) = take_bit 32 (fold_nwid m) \<and> take_bit 40 a = take_bit 40 b"
  using be_enc_take_bit_inject [of 4 "fold_nwid n" "fold_nwid m"] be_enc_take_bit_inject [of 5 a b]
  unfolding sixplane_eq by (simp add: be_dec_16_inject del: be_enc_numeral)

text \<open>
  C28. Generated private addresses: the RFC 4193 address determines the network id and the 40-bit
  node address. The 6plane address determines the node address, but of the network only its id
  folded to 32 bits, so that different networks share addresses: zero and 0x100000001 do. Both are
  of private scope, and the addresses of all nodes of a network share its network prefix.
\<close>

theorem generated_addresses:
  "(makeIpv6rfc4193 n a = makeIpv6rfc4193 m b \<longleftrightarrow> n = m \<and> take_bit 40 a = take_bit 40 b)
   \<and> (makeIpv66plane n a = makeIpv66plane m b \<longleftrightarrow>
        take_bit 32 (fold_nwid n) = take_bit 32 (fold_nwid m) \<and> take_bit 40 a = take_bit 40 b)
   \<and> makeIpv66plane 0 a = makeIpv66plane 0x100000001 a
   \<and> ipScope (makeIpv6rfc4193 n a) = IP_SCOPE_PRIVATE \<and> ipScope (makeIpv66plane n a) = IP_SCOPE_PRIVATE
   \<and> network (makeIpv6rfc4193 n a) = network (makeIpv6rfc4193 n b)
   \<and> network (makeIpv66plane n a) = network (makeIpv66plane n b)"
proof -
  have s: "s6_addr (be_dec ((0xfd # be_enc 8 n @ [0x99, 0x93]) @ be_enc 5 a)) = (0xfd # be_enc 8 n @ [0x99, 0x93]) @ be_enc 5 a"
    "s6_addr (be_dec ((0xfc # be_enc 4 (fold_nwid n)) @ be_enc 5 a @ [0, 0, 0, 0, 0, 0x01])) = (0xfc # be_enc 4 (fold_nwid n)) @ be_enc 5 a @ [0, 0, 0, 0, 0, 0x01]"
    by (rule s6_be_dec; simp)+
  have "makeIpv6rfc4193 n a = makeIpv6rfc4193 m b \<longleftrightarrow> n = m \<and> take_bit 40 a = take_bit 40 b"
    using be_enc_take_bit_inject [of 8 n m] be_enc_take_bit_inject [of 5 a b]
    unfolding rfc4193_eq by (simp add: be_dec_16_inject take_bit_word_eq_self del: be_enc_numeral)
  moreover have "makeIpv66plane n a = makeIpv66plane m b \<longleftrightarrow>
        take_bit 32 (fold_nwid n) = take_bit 32 (fold_nwid m) \<and> take_bit 40 a = take_bit 40 b"
    by (rule sixplane_inject)
  moreover have "makeIpv66plane 0 a = makeIpv66plane 0x100000001 a"
    unfolding sixplane_inject by simp
  moreover have "ipScope (makeIpv6rfc4193 n a) = IP_SCOPE_PRIVATE" "ipScope (makeIpv66plane n a) = IP_SCOPE_PRIVATE"
    unfolding rfc4193_eq sixplane_eq ipScope.simps s by (simp_all add: ipScope6_def del: be_enc_numeral)
  moreover have "network (makeIpv6rfc4193 n a) = network (makeIpv6rfc4193 n b)"
    unfolding rfc4193_eq
    using same_prefix [of "be_enc 5 a" "be_enc 5 b" 88 "0xfd # be_enc 8 n @ [0x99, 0x93]"]
    by (simp add: network_prefix del: be_enc_numeral)
  moreover have "network (makeIpv66plane n a) = network (makeIpv66plane n b)"
    unfolding sixplane_eq
    using same_prefix [of "be_enc 5 a @ [0, 0, 0, 0, 0, 0x01]" "be_enc 5 b @ [0, 0, 0, 0, 0, 0x01]" 40 "0xfc # be_enc 4 (fold_nwid n)"]
    by (simp add: network_prefix del: be_enc_numeral)
  ultimately show ?thesis by blast
qed

section \<open>Text\<close>

lemma set_dec_string: "c \<in> set (dec_string n) \<Longrightarrow> 48 \<le> c \<and> c \<le> 57"
proof (induction n rule: dec_string.induct)
  case (1 n)
  have "48 \<le> (48 + of_nat d :: byte) \<and> (48 + of_nat d :: byte) \<le> 57" if "d < 10" for d
  proof -
    have "d \<in> {0, 1, 2, 3, 4, 5, 6, 7, 8, 9}" using that by auto
    then show ?thesis by auto
  qed
  then show ?case using 1 by (subst (asm) (2) dec_string.simps) (auto split: if_splits)
qed

lemma strtol_digits_append:
  "\<forall>c \<in> set xs. 48 \<le> c \<and> c \<le> 57 \<Longrightarrow> strtol_digits acc (xs @ ys) = strtol_digits (strtol_digits acc xs) ys"
  by (induction xs arbitrary: acc) auto

lemma strtol_dec_string: "strtol_digits 0 (dec_string n) = int n"
proof (induction n rule: dec_string.induct)
  case (1 n)
  have d: "48 \<le> (48 + of_nat d :: byte)" "(48 + of_nat d :: byte) \<le> 57" "unat (of_nat d :: byte) = d" if "d < 10" for d
  proof -
    have "d \<in> {0, 1, 2, 3, 4, 5, 6, 7, 8, 9}" using that by auto
    then show "48 \<le> (48 + of_nat d :: byte)" "(48 + of_nat d :: byte) \<le> 57" "unat (of_nat d :: byte) = d"
      by auto
  qed
  show ?case
  proof (cases "n < 10")
    case True
    then show ?thesis using d [of n] by (subst dec_string.simps) simp
  next
    case False
    have "strtol_digits 0 (dec_string n) = strtol_digits (int (n div 10)) [48 + of_nat (n mod 10)]"
      using 1 [OF False] set_dec_string False
      by (subst dec_string.simps) (simp add: strtol_digits_append del: strtol_digits.simps(2))
    also have "\<dots> = 10 * int (n div 10) + int (n mod 10)" using d [of "n mod 10"] by simp
    also have "\<dots> = int n"
      using arg_cong [OF mult_div_mod_eq [of 10 n], of int] by (simp only: of_nat_add of_nat_mult of_nat_numeral)
    finally show ?thesis .
  qed
qed

lemma dec_string_nonempty: "dec_string n \<noteq> []"
  by (subst dec_string.simps) simp

lemma strtol_dec: "strtol (dec_string n) = int n"
proof -
  obtain c r where cr: "dec_string n = c # r" using dec_string_nonempty by (cases "dec_string n") auto
  then have "48 \<le> c" "c \<le> 57" using set_dec_string [of c n] by auto
  moreover from this have "c \<noteq> 32" "\<not> c \<le> 13" "c \<noteq> 45" "c \<noteq> 43"
    using order_trans [of 48 c 13] by auto
  ultimately have "strtol (dec_string n) = strtol_digits 0 (dec_string n)"
    by (simp add: strtol_def cr)
  then show ?thesis by (simp add: strtol_dec_string)
qed

lemma set_join: "set (join c xs) \<subseteq> insert c (\<Union> (set ` set xs))"
  by (induction c xs rule: join.induct) auto

lemma join_sep: "c \<in> set (join c (x # y # zs))"
  by simp

lemma set_hex: "c \<in> set (hex bs) \<Longrightarrow> 48 \<le> c \<and> c \<le> 57 \<or> 97 \<le> c"
proof (induction bs)
  case (Cons b bs)
  have "HEXCHARS ! k \<in> set HEXCHARS" if "k < 16" for k
    using that by (intro nth_mem) (simp add: HEXCHARS_def)
  moreover have "\<forall>c \<in> set HEXCHARS. 48 \<le> c \<and> c \<le> 57 \<or> 97 \<le> c" by (simp add: HEXCHARS_def)
  moreover have "unat (drop_bit 4 b) < 16" "unat (take_bit 4 b) < 16"
  proof -
    have "unat b < 256" by (rule order_less_le_trans [OF unsigned_less]) simp
    moreover have "unat (drop_bit 4 b) = drop_bit 4 (take_bit LENGTH(8) (unat b))"
      by (rule unsigned_drop_bit_eq)
    ultimately show "unat (drop_bit 4 b) < 16"
      by (simp only: drop_bit_eq_div [of 4 "take_bit LENGTH(8) (unat b)"]) (simp add: take_bit_nat_eq_self)
    have "unat (take_bit 4 b) = take_bit 4 (unat b)" by (rule unsigned_take_bit_eq)
    then show "unat (take_bit 4 b) < 16" using take_bit_nat_less_exp [of 4 "unat b"] by (simp only: power_numeral) simp
  qed
  ultimately show ?case using Cons by (auto simp: hex_Cons simp del: hex.simps(2))
qed simp

lemma toIpString_chars:
  "c \<in> set (toIpString (Inet4 ip p)) \<Longrightarrow> c = 46 \<or> 48 \<le> c \<and> c \<le> 57"
  "c \<in> set (toIpString (Inet6 ip6 p f s)) \<Longrightarrow> c = 58 \<or> 48 \<le> c \<and> c \<le> 57 \<or> 97 \<le> c"
proof -
  assume "c \<in> set (toIpString (Inet4 ip p))"
  then have "c = 46 \<or> (\<exists>n. c \<in> set (dec_string n))"
    using set_join [of 46 "map (\<lambda>b. dec_string (unat b)) (be_enc 4 ip)"] by (fastforce simp del: be_enc_numeral)
  then show "c = 46 \<or> 48 \<le> c \<and> c \<le> 57" using set_dec_string by blast
next
  assume "c \<in> set (toIpString (Inet6 ip6 p f s))"
  then have "c = 58 \<or> (\<exists>bs. c \<in> set (hex bs))"
    using set_join [of 58 "map (\<lambda>i. hex [s6_addr ip6 ! (2 * i), s6_addr ip6 ! (2 * i + 1)]) [0..<8]"]
    by (simp only: toIpString.simps set_map) blast
  then show "c = 58 \<or> 48 \<le> c \<and> c \<le> 57 \<or> 97 \<le> c" using set_hex by blast
qed

text \<open>
  C31. Text round trip: for an \<^verbatim>\<open>inet_pton\<close> that reads back the printed octets, \<^verbatim>\<open>fromString\<close> of
  \<^verbatim>\<open>toString\<close> restores the address and the port, including port 0.
\<close>

theorem InetAddress_string_roundtrip:
  assumes "\<And>ip. pton4 (toIpString (Inet4 ip 0)) = Some ip"
    and "\<And>ip. pton6 (toIpString (Inet6 ip 0 0 0)) = Some ip"
  shows "InetAddress_fromString pton4 pton6 (InetAddress_toString a) = inet_wire a"
proof -
  note [simp del] = toIpString.simps be_enc_numeral
  have split: "InetAddress_fromString pton4 pton6 (x @ 47 # dec_string (unat p)) = InetAddress_set_string pton4 pton6 x p"
    if "47 \<notin> set x" for x and p :: u16
  proof -
    have "takeWhile (\<lambda>c. c \<noteq> 47) (x @ 47 # r) = x" "dropWhile (\<lambda>c. c \<noteq> 47) (x @ 47 # r) = 47 # r" for r
      using that by (auto simp: takeWhile_append dropWhile_append)
    moreover have "uint p \<le> 65535"
    proof -
      have "int (unat p) < 65536" using unat_u16 [of p] by linarith
      then show ?thesis by simp
    qed
    moreover have "p = 0" if "\<not> 0 < uint p"
    proof -
      have "uint p = 0" using that unsigned_greater_eq [of p, where 'a = int] by linarith
      then show ?thesis by (intro word_uint_eqI) simp
    qed
    ultimately show ?thesis by (auto simp: InetAddress_fromString_def strtol_dec Let_def)
  qed
  show ?thesis
  proof (cases a)
    case (Inet4 ip p)
    have n: "47 \<notin> set (toIpString (Inet4 ip p))" "58 \<notin> set (toIpString (Inet4 ip p))"
      using toIpString_chars(1) [of 47 ip p] toIpString_chars(1) [of 58 ip p] by auto
    have "46 \<in> set (toIpString (Inet4 ip p))" by (simp add: toIpString.simps be_enc_numeral)
    moreover have "toIpString (Inet4 ip p) = toIpString (Inet4 ip 0)" by (simp only: toIpString.simps)
    ultimately show ?thesis
      using n assms(1) [of ip] by (simp add: Inet4 split InetAddress_set_string_def)
  next
    case (Inet6 ip p f s)
    have n: "47 \<notin> set (toIpString (Inet6 ip p f s))"
      using toIpString_chars(2) [of 47 ip p f s] by auto
    have u: "[0..<8] = 0 # 1 # [2..<8]" by (simp add: upt_conv_Cons)
    have "58 \<in> set (toIpString (Inet6 ip p f s))"
      unfolding toIpString.simps u list.map by (rule join_sep)
    moreover have "toIpString (Inet6 ip p f s) = toIpString (Inet6 ip 0 0 0)" by (simp only: toIpString.simps)
    ultimately show ?thesis
      using n assms(2) [of ip] by (simp add: Inet6 split InetAddress_set_string_def)
  next
    case Inet_null
    then show ?thesis by (simp add: InetAddress_fromString_def InetAddress_set_string_def)
  qed
qed

text \<open>A concrete reader of the two printed forms, for the witness.\<close>

fun split_on :: "byte \<Rightarrow> bytes \<Rightarrow> bytes list" where
  "split_on c [] = [[]]"
| "split_on c (x # xs) =
     (if x = c then [] # split_on c xs
      else case split_on c xs of [] \<Rightarrow> [[x]] | y # ys \<Rightarrow> (x # y) # ys)"

definition read_pton4 :: "bytes \<Rightarrow> u32 option" where
  "read_pton4 s = Some (be_dec (map (\<lambda>x. of_int (strtol_digits 0 x)) (split_on 46 s)))"

definition read_pton6 :: "bytes \<Rightarrow> u128 option" where
  "read_pton6 s =
     Some (be_dec (concat (map (\<lambda>g. case unhex (g @ [0]) 4 of Inr b \<Rightarrow> b | Inl _ \<Rightarrow> []) (split_on 58 s))))"

lemma split_on_plain: "c \<notin> set x \<Longrightarrow> split_on c x = [x]"
  by (induction x) auto

lemma split_on_append: "c \<notin> set x \<Longrightarrow> split_on c (x @ c # s) = x # split_on c s"
  by (induction x) auto

lemma split_on_join: "xs \<noteq> [] \<Longrightarrow> \<forall>x \<in> set xs. c \<notin> set x \<Longrightarrow> split_on c (join c xs) = xs"
  by (induction c xs rule: join.induct) (simp_all add: split_on_plain split_on_append)

lemma read_pton4_toIpString: "read_pton4 (toIpString (Inet4 ip p)) = Some ip"
proof -
  have "46 \<notin> set (dec_string n)" for n using set_dec_string [of 46 n] by auto
  then have "split_on 46 (toIpString (Inet4 ip p)) = map (\<lambda>b. dec_string (unat b)) (be_enc 4 ip)"
    unfolding toIpString.simps by (intro split_on_join) (auto simp del: be_enc_numeral simp: be_enc_numeral [of "num.Bit0 (num.Bit0 num.One)"])
  then have "read_pton4 (toIpString (Inet4 ip p)) = Some (be_dec (map (\<lambda>b. of_int (int (unat b))) (be_enc 4 ip)))"
    by (simp add: read_pton4_def strtol_dec_string comp_def del: be_enc_numeral toIpString.simps of_nat_unat)
  also have "\<dots> = Some (be_dec (be_enc 4 ip))" by simp
  finally show ?thesis by (simp add: be_dec_enc_id del: be_enc_numeral)
qed

lemma read_pton6_toIpString: "read_pton6 (toIpString (Inet6 ip p f s)) = Some ip"
proof -
  let ?g = "\<lambda>i. [s6_addr ip ! (2 * i), s6_addr ip ! (2 * i + 1)]"
  have "58 \<notin> set (hex x)" for x using set_hex [of 58 x] by auto
  then have "split_on 58 (toIpString (Inet6 ip p f s)) = map (\<lambda>i. hex (?g i)) [0..<8]"
    unfolding toIpString.simps by (intro split_on_join) (auto simp del: hex.simps be_enc_numeral)
  moreover have "unhex (hex (?g i) @ [0]) 4 = Inr (?g i)" for i
    using unhex_loop_hex [of "?g i" 4 0 "[]" "[]"] by (simp add: unhex_def del: hex.simps be_enc_numeral)
  ultimately have "read_pton6 (toIpString (Inet6 ip p f s)) = Some (be_dec (concat (map ?g [0..<8])))"
    by (simp add: read_pton6_def comp_def del: hex.simps be_enc_numeral toIpString.simps)
  moreover have "concat (map ?g [0..<8]) = s6_addr ip"
    by (simp add: upt_conv_Cons nth_be_enc)
  ultimately show ?thesis by (simp add: be_dec_enc_id del: be_enc_numeral toIpString.simps)
qed

theorem InetAddress_string_roundtrip_witness:
  "InetAddress_fromString read_pton4 read_pton6 (InetAddress_toString (Inet4 0x0a000001 9993)) = Inet4 0x0a000001 9993"
  using InetAddress_string_roundtrip [of read_pton4 read_pton6 "Inet4 0x0a000001 9993"]
    read_pton4_toIpString read_pton6_toIpString
  by (simp del: toIpString.simps InetAddress_toString.simps)

end
