(* ===== verification/Path.thy ===== *)
theory Path
  imports InetAddress
begin

text \<open>
  A physical path between two nodes: \<^verbatim>\<open>zto/node/Path.hpp\<close> and \<^verbatim>\<open>Path.cpp\<close>. The state is the record
  of the volatile members; times are 64-bit and subtract with wrap-around. \<^verbatim>\<open>Node::putPacket\<close>
  is the argument \<open>put\<close> of \<open>Path_send\<close>: whether the transport takes the packet.
\<close>

section \<open>Definitions\<close>

abbreviation (input) ZT_TRUST_EXPIRATION :: u64 where "ZT_TRUST_EXPIRATION \<equiv> 600000"
abbreviation (input) ZT_PATH_ALIVE_TIMEOUT :: u64 where "ZT_PATH_ALIVE_TIMEOUT \<equiv> 45000"
abbreviation (input) ZT_PATH_HEARTBEAT_PERIOD :: u64 where "ZT_PATH_HEARTBEAT_PERIOD \<equiv> 14000"
abbreviation (input) ZT_PATH_LINK_QUALITY_MAX :: byte where "ZT_PATH_LINK_QUALITY_MAX \<equiv> 0xff"

record path =
  p_lastOut :: u64
  p_lastIn :: u64
  p_lastTrust :: u64
  p_fastLog :: u64
  p_slowLogPtr :: nat
  p_slowLogCounter :: int
  p_prevCounter :: nat
  p_outCounter :: u32
  p_addr :: inet
  p_localAddress :: inet
  p_ipScope :: ip_scope
  p_slowLog :: bytes

definition Path_make :: "inet \<Rightarrow> inet \<Rightarrow> path" where
  "Path_make localAddress addr =
     \<lparr>p_lastOut = 0, p_lastIn = 0, p_lastTrust = 0, p_fastLog = 0xffffffffffffffff, p_slowLogPtr = 0,
      p_slowLogCounter = -64, p_prevCounter = 0, p_outCounter = 0, p_addr = addr,
      p_localAddress = localAddress, p_ipScope = ipScope addr,
      p_slowLog = replicate 32 ZT_PATH_LINK_QUALITY_MAX\<rparr>"

definition Path_received :: "path \<Rightarrow> u64 \<Rightarrow> path" where
  "Path_received p t = p\<lparr>p_lastIn := t\<rparr>"

definition trustedPacketReceived :: "path \<Rightarrow> u64 \<Rightarrow> path" where
  "trustedPacketReceived p t = p\<lparr>p_lastTrust := t\<rparr>"

definition Path_sent :: "path \<Rightarrow> u64 \<Rightarrow> path" where
  "Path_sent p t = p\<lparr>p_lastOut := t\<rparr>"

text \<open>\<^verbatim>\<open>Utils::countBits(uint64_t)\<close>.\<close>

definition countBits64 :: "u64 \<Rightarrow> u64" where
  "countBits64 v =
     (let v = v - (drop_bit 1 v AND 0x5555555555555555);
          v = (v AND 0x3333333333333333) + (drop_bit 2 v AND 0x3333333333333333);
          v = (v + drop_bit 4 v) AND 0x0f0f0f0f0f0f0f0f
      in drop_bit 56 (v * 0x0101010101010101))"

text \<open>
  The comparison \<^verbatim>\<open>prev == ((counter - 1) & 0x7)\<close> is on 32-bit unsigned values; the log pointer is
  a 64-bit \<^verbatim>\<open>unsigned long\<close>. A write behind the end of the log would lengthen the list that
  models it, which \<open>path_ok\<close> below excludes.
\<close>

definition updateLinkQuality :: "path \<Rightarrow> nat \<Rightarrow> path" where
  "updateLinkQuality p counter =
     (let prev = p_prevCounter p;
          fl = push_bit 1 (p_fastLog p) OR (if prev = u32_sub counter 1 mod 8 then 1 else 0);
          p = p\<lparr>p_prevCounter := counter, p_fastLog := fl, p_slowLogCounter := p_slowLogCounter p + 1\<rparr>
      in if p_slowLogCounter p \<ge> 64 then
           p\<lparr>p_slowLogCounter := 0,
             p_slowLog := mem_write (p_slowLogPtr p mod 32) [ucast (countBits64 fl)] (p_slowLog p),
             p_slowLogPtr := (p_slowLogPtr p + 1) mod 2 ^ 64\<rparr>
         else p)"

definition linkQuality :: "path \<Rightarrow> nat" where
  "linkQuality p =
     (let slsize = (if p_slowLogPtr p > 32 then 32 else p_slowLogPtr p) in
      if slsize = 0 then 255
      else let lq = sum_list (map (\<lambda>i. unat (p_slowLog p ! i) * 4) [0..<slsize]) div slsize
           in if lq \<ge> 255 then 255 else lq)"

definition Path_send :: "bool \<Rightarrow> path \<Rightarrow> u64 \<Rightarrow> bool \<times> path" where
  "Path_send put p now = (if put then (True, p\<lparr>p_lastOut := now\<rparr>) else (False, p))"

definition trustEstablished :: "path \<Rightarrow> u64 \<Rightarrow> bool" where
  "trustEstablished p now \<longleftrightarrow> now - p_lastTrust p < ZT_TRUST_EXPIRATION"

definition preferenceRank :: "path \<Rightarrow> nat" where
  "preferenceRank p =
     2 * scope_rank (p_ipScope p) + (case p_addr p of Inet6 _ _ _ _ \<Rightarrow> 1 | _ \<Rightarrow> 0)"

definition isAddressValidForPath :: "inet \<Rightarrow> bool" where
  "isAddressValidForPath a =
     (case a of
        Inet_null \<Rightarrow> False
      | Inet4 ip _ \<Rightarrow>
          ipScope a \<in> {IP_SCOPE_PRIVATE, IP_SCOPE_PSEUDOPRIVATE, IP_SCOPE_SHARED, IP_SCOPE_GLOBAL}
      | Inet6 ip _ _ _ \<Rightarrow>
          ipScope a \<in> {IP_SCOPE_PRIVATE, IP_SCOPE_PSEUDOPRIVATE, IP_SCOPE_SHARED, IP_SCOPE_GLOBAL} \<and>
          \<not> (s6_addr ip ! 0 = 0x20 \<and> s6_addr ip ! 1 = 0x01 \<and> s6_addr ip ! 2 = 0x04 \<and> s6_addr ip ! 3 = 0x70))"

definition Path_alive :: "path \<Rightarrow> u64 \<Rightarrow> bool" where
  "Path_alive p now \<longleftrightarrow> now - p_lastIn p \<le> ZT_PATH_ALIVE_TIMEOUT"

definition needsHeartbeat :: "path \<Rightarrow> u64 \<Rightarrow> bool" where
  "needsHeartbeat p now \<longleftrightarrow> now - p_lastOut p \<ge> ZT_PATH_HEARTBEAT_PERIOD"

definition nextOutgoingCounter :: "path \<Rightarrow> u32 \<times> path" where
  "nextOutgoingCounter p = (p_outCounter p, p\<lparr>p_outCounter := p_outCounter p + 1\<rparr>)"

text \<open>
  \<^verbatim>\<open>Path::HashKey\<close>: the four words of the key. \<open>junk\<close> is what the fourth word holds before the
  constructor runs; the branch for an IPv6 address without an IPv6 local address leaves it.
\<close>

type_synonym hash_key = "u64 \<times> u64 \<times> u64 \<times> u64"

definition HashKey :: "u64 \<Rightarrow> inet \<Rightarrow> inet \<Rightarrow> hash_key" where
  "HashKey junk l r =
     (case r of
        Inet4 ip port \<Rightarrow>
          (case l of
             Inet4 lip lport \<Rightarrow> (ucast (raw ip), ucast (raw port), ucast (raw lip), ucast (raw port))
           | _ \<Rightarrow> (ucast (raw ip), ucast (raw port), 0, 0))
      | Inet6 ip port _ _ \<Rightarrow>
          (let a = s6_addr ip; k0 = be_dec (rev (take 8 a)); k1 = be_dec (rev (drop 8 a));
               k2 = NOT (ucast (raw port))
           in case l of
                Inet6 lip lport _ _ \<Rightarrow>
                  (let b = s6_addr lip in
                   (k0, k1, k2 XOR push_bit 32 (ucast (raw port)),
                    be_dec (rev (take 8 b)) XOR be_dec (rev (drop 8 b))))
              | _ \<Rightarrow> (k0, k1, k2, junk))
      | Inet_null \<Rightarrow> (0, 0, 0, 0))"

fun HashKey_hashCode :: "hash_key \<Rightarrow> u64" where
  "HashKey_hashCode (k0, k1, k2, k3) = k0 + k1 + k2 + k3"

section \<open>Link quality\<close>

definition path_ok :: "path \<Rightarrow> bool" where
  "path_ok p \<longleftrightarrow> length (p_slowLog p) = 32 \<and> -64 \<le> p_slowLogCounter p \<and> p_slowLogCounter p < 64
     \<and> p_ipScope p = ipScope (p_addr p)"

text \<open>The packets of a path, as far as they change it.\<close>

datatype path_event = PacketIn u64 nat | TrustedIn u64 | PacketOut bool u64 | ManualSent u64

fun path_step :: "path_event \<Rightarrow> path \<Rightarrow> path" where
  "path_step (PacketIn t c) p = updateLinkQuality (Path_received p t) c"
| "path_step (TrustedIn t) p = trustedPacketReceived p t"
| "path_step (PacketOut put t) p = snd (Path_send put (snd (nextOutgoingCounter p)) t)"
| "path_step (ManualSent t) p = Path_sent p t"

lemma slow_log_index: "length xs = 32 \<Longrightarrow> n mod 32 + 1 \<le> length xs" for n :: nat
  using mod_less_divisor [of 32 n] by simp

lemma path_step_ok: "path_ok p \<Longrightarrow> path_ok (path_step e p)"
  by (cases e) (auto simp: path_ok_def updateLinkQuality_def Let_def Path_received_def
      trustedPacketReceived_def Path_send_def nextOutgoingCounter_def Path_sent_def
      intro!: trans [OF length_mem_write] slow_log_index)

lemma path_run_ok: "path_ok p \<Longrightarrow> path_ok (fold path_step es p)"
  by (induction es arbitrary: p) (auto simp: path_step_ok)

lemma countBits64_full: "countBits64 (mask 64) = 64"
  by (simp add: countBits64_def Let_def mask_eq_exp_minus_1)

lemma sum_list_ge: "(\<And>i. i < n \<Longrightarrow> k \<le> f i) \<Longrightarrow> n * k \<le> sum_list (map f [0..<n :: nat])" for k :: nat
proof (induction n)
  case (Suc n)
  then have "n * k \<le> sum_list (map f [0..<n])" "k \<le> f n" by simp_all
  then show ?case by simp
qed simp

lemma full_quality:
  assumes "path_ok p" and "\<forall>b \<in> set (p_slowLog p). 64 \<le> b"
  shows "linkQuality p = 255"
proof -
  define n where "n = (if p_slowLogPtr p > 32 then 32 else p_slowLogPtr p)"
  define f where "f i = unat (p_slowLog p ! i) * 4" for i
  have "n \<le> length (p_slowLog p)" using assms by (simp add: n_def path_ok_def)
  then have "64 \<le> p_slowLog p ! i" if "i < n" for i
    using that assms(2) by auto
  then have "256 \<le> f i" if "i < n" for i
    using that word_le_nat_alt [of 64 "p_slowLog p ! i"] by (fastforce simp: f_def)
  then have s: "n * 256 \<le> sum_list (map f [0..<n])" by (rule sum_list_ge)
  have "255 \<le> sum_list (map f [0..<n]) div n" if "n \<noteq> 0"
  proof -
    have "255 = (n * 255) div n" using that by simp
    also have "\<dots> \<le> sum_list (map f [0..<n]) div n" using s by (intro div_le_mono) linarith
    finally show ?thesis .
  qed
  then have "(if n = 0 then 255 else let lq = sum_list (map f [0..<n]) div n in if lq \<ge> 255 then 255 else lq) = (255 :: nat)"
    by (simp add: Let_def)
  then show ?thesis by (simp only: linkQuality_def n_def [symmetric] f_def [symmetric] Let_def)
qed

text \<open>The first \<open>n\<close> packets that the other side numbers with \<^verbatim>\<open>nextOutgoingCounter\<close>, in order.\<close>

definition in_order :: "nat \<Rightarrow> (nat \<Rightarrow> u64) \<Rightarrow> path_event list" where
  "in_order n t = map (\<lambda>k. PacketIn (t k) (k mod 8)) [0..<n]"

lemma previous_counter: "u32_sub (Suc k mod 8) 1 mod 8 = k mod 8"
proof (cases "Suc k mod 8 = 0")
  case True
  then have "k mod 8 = 7" by (simp add: mod_Suc split: if_splits)
  then show ?thesis by (simp add: True u32_sub_wraps)
next
  case False
  then have "Suc k mod 8 = Suc (k mod 8)" by (simp add: mod_Suc split: if_splits)
  then show ?thesis by (simp add: u32_sub_exact)
qed

lemma Path_received_fields:
  "p_prevCounter (Path_received p t) = p_prevCounter p" "p_fastLog (Path_received p t) = p_fastLog p"
  "p_slowLogCounter (Path_received p t) = p_slowLogCounter p" "p_slowLog (Path_received p t) = p_slowLog p"
  by (simp_all add: Path_received_def)

lemma update_hit:
  assumes "p_prevCounter p = u32_sub c 1 mod 8" and "push_bit 1 (p_fastLog p) OR 1 = fl"
  shows "p_prevCounter (updateLinkQuality p c) = c" "p_fastLog (updateLinkQuality p c) = fl"
    "p_slowLogCounter (updateLinkQuality p c) = (if p_slowLogCounter p + 1 \<ge> 64 then 0 else p_slowLogCounter p + 1)"
    "p_slowLog (updateLinkQuality p c) =
      (if p_slowLogCounter p + 1 \<ge> 64 then mem_write (p_slowLogPtr p mod 32) [ucast (countBits64 fl)] (p_slowLog p) else p_slowLog p)"
  using assms(1) by (simp_all add: updateLinkQuality_def Let_def flip: assms(2))

lemma Path_make_ok: "path_ok (Path_make l a)"
  by (simp add: path_ok_def Path_make_def)

lemma in_order_state:
  fixes t l a
  defines "p \<equiv> \<lambda>n. fold path_step (in_order n t) (Path_make l a)"
  shows "p_prevCounter (p (Suc n)) = n mod 8 \<and> p_fastLog (p (Suc n)) = NOT (push_bit n 1)
    \<and> (Suc n < 128 \<longrightarrow> p_slowLogCounter (p (Suc n)) = int (Suc n) - 64) \<and> (\<forall>b \<in> set (p_slowLog (p (Suc n))). 64 \<le> b)"
proof (induction n)
  case 0
  have "u32_sub 0 1 = 2 ^ 32 - 1" by (simp add: u32_sub_wraps)
  then show ?case
    by (simp add: p_def in_order_def Path_make_def Path_received_def updateLinkQuality_def Let_def)
next
  case (Suc n)
  have ok: "path_ok (p k)" for k unfolding p_def by (rule path_run_ok [OF Path_make_ok])
  let ?q = "Path_received (p (Suc n)) (t (Suc n))"
  have step: "p (Suc (Suc n)) = updateLinkQuality ?q (Suc n mod 8)"
    by (simp add: p_def in_order_def)
  have q: "p_prevCounter ?q = u32_sub (Suc n mod 8) 1 mod 8" "p_fastLog ?q = NOT (push_bit n 1)"
    "p_slowLogCounter ?q = p_slowLogCounter (p (Suc n))" "p_slowLog ?q = p_slowLog (p (Suc n))"
    using Suc by (simp_all only: Path_received_fields previous_counter)
  have fl: "push_bit 1 (p_fastLog ?q) OR 1 = NOT (push_bit (Suc n) 1)"
    unfolding q(2)
  proof (rule bit_word_eqI)
    fix i assume "i < LENGTH(64)"
    then show "bit (push_bit 1 (NOT (push_bit n 1)) OR 1 :: u64) i = bit (NOT (push_bit (Suc n) 1) :: u64) i"
      by (cases i) (auto simp only: bit_or_iff bit_push_bit_iff bit_not_iff bit_1_iff possible_bit_word)
  qed
  note hit = update_hit [OF q(1) fl]
  have full: "(NOT (push_bit (Suc n) 1) :: u64) = mask 64" if "128 \<le> Suc (Suc n)"
    using that by (intro bit_word_eqI) (auto simp: bit_simps)
  have log: "\<forall>b \<in> set (p_slowLog (p (Suc (Suc n)))). 64 \<le> b"
  proof (cases "p_slowLogCounter (p (Suc n)) + 1 \<ge> 64")
    case True
    then have "128 \<le> Suc (Suc n)" using Suc by auto
    then have "ucast (countBits64 (NOT (push_bit (Suc n) 1))) = (64 :: byte)"
      by (simp only: full countBits64_full) simp
    with True have "p_slowLog (p (Suc (Suc n))) = mem_write (p_slowLogPtr ?q mod 32) [64] (p_slowLog (p (Suc n)))"
      by (simp only: step hit(4) q(3,4) if_True)
    also have "\<dots> = (p_slowLog (p (Suc n)))[p_slowLogPtr ?q mod 32 := 64]"
      using ok [of "Suc n"] mod_less_divisor [of 32 "p_slowLogPtr ?q"]
      by (intro mem_write_single) (simp add: path_ok_def)
    finally have "p_slowLog (p (Suc (Suc n))) = (p_slowLog (p (Suc n)))[p_slowLogPtr ?q mod 32 := 64]" .
    then have "set (p_slowLog (p (Suc (Suc n)))) \<subseteq> insert 64 (set (p_slowLog (p (Suc n))))"
      by (metis set_update_subset_insert)
    with Suc show ?thesis by auto
  next
    case False
    with Suc show ?thesis by (simp add: step hit(4) q(3,4) del: ball_simps)
  qed
  have "p_slowLogCounter (p (Suc (Suc n))) = int (Suc (Suc n)) - 64" if "Suc (Suc n) < 128"
    using that Suc by (simp add: step hit(3) q(3))
  then show ?case using log hit(1,2) unfolding step by blast
qed

text \<open>
  C15. Link quality: whatever packets a path sees, the log keeps its length, so every index stays
  inside it, and the quality is between 0 and 255; if all packets of the other side arrive in the
  order in which it numbers them, the quality stays at 255, although the first packet never
  matches the initial counter.
\<close>

theorem linkQuality_bounds:
  "path_ok (fold path_step es (Path_make l a)) \<and> linkQuality (fold path_step es (Path_make l a)) \<le> 255
   \<and> linkQuality (fold path_step (in_order n t) (Path_make l a)) = 255"
proof (intro conjI)
  show ok: "path_ok (fold path_step es (Path_make l a))" for es by (rule path_run_ok [OF Path_make_ok])
  show "linkQuality (fold path_step es (Path_make l a)) \<le> 255" by (simp add: linkQuality_def Let_def)
  show "linkQuality (fold path_step (in_order n t) (Path_make l a)) = 255"
  proof (cases n)
    case 0
    then show ?thesis by (simp add: in_order_def Path_make_def linkQuality_def)
  next
    case (Suc m)
    then show ?thesis using in_order_state [of m t l a] by (intro full_quality [OF ok]) simp
  qed
qed

section \<open>Hash keys\<close>

lemma ucast_raw_inject:
  "(ucast (raw (x :: u32)) :: u64) = ucast (raw y) \<longleftrightarrow> x = y" "(ucast (raw (p :: u16)) :: u64) = ucast (raw q) \<longleftrightarrow> p = q"
proof -
  have "ucast (ucast v :: u64) = v" for v :: u32 by (rule bit_word_eqI) (auto simp: bit_simps)
  moreover have "ucast (ucast v :: u64) = v" for v :: u16 by (rule bit_word_eqI) (auto simp: bit_simps)
  ultimately have "(ucast (v :: u32) :: u64) = ucast w \<longleftrightarrow> v = w" "(ucast (v' :: u16) :: u64) = ucast w' \<longleftrightarrow> v' = w'"
    for v w v' w' by metis+
  then show "(ucast (raw (x :: u32)) :: u64) = ucast (raw y) \<longleftrightarrow> x = y"
    "(ucast (raw (p :: u16)) :: u64) = ucast (raw q) \<longleftrightarrow> p = q"
    by (simp_all add: raw_inject)
qed

lemma le_load_inject:
  "length xs = 8 \<Longrightarrow> length ys = 8 \<Longrightarrow> (be_dec (rev xs) :: u64) = be_dec (rev ys) \<Longrightarrow> xs = ys"
  using be_enc_dec [of "rev xs", where 'a = 64] be_enc_dec [of "rev ys", where 'a = 64]
  by (simp del: be_enc_numeral)

lemma key_port:
  fixes x :: u16
  shows "ucast (NOT (ucast x :: u64)) = NOT x" "ucast (NOT (ucast x) XOR push_bit 32 (ucast x) :: u64) = NOT x"
  by (rule bit_word_eqI; auto simp: bit_simps)+

lemma key_port_high:
  fixes x :: u16
  shows "bit (NOT (ucast x :: u64)) 63" "bit (NOT (ucast x XOR push_bit 32 (ucast x)) :: u64) 63"
  by (auto simp: bit_simps dest: bit_imp_le_length)

lemma key_fields6:
  obtains j' k2 where "HashKey j l (Inet6 ip p f s) =
      (be_dec (rev (take 8 (s6_addr ip))), be_dec (rev (drop 8 (s6_addr ip))), k2, j')"
    and "ucast k2 = NOT (raw p)" and "bit k2 63"
proof (cases l)
  case (Inet6 lip lp lf ls)
  then show ?thesis
    using key_port(2) [of "raw p"]
    by (intro that [of "NOT (ucast (raw p)) XOR push_bit 32 (ucast (raw p))"])
      (simp_all add: HashKey_def Let_def key_port_high del: be_enc_numeral)
qed (use key_port(1) [of "raw p"] key_port_high in \<open>auto intro!: that [of "NOT (ucast (raw p))"] simp: HashKey_def Let_def simp del: be_enc_numeral\<close>)

lemma key_endpoint6:
  assumes "HashKey j l (Inet6 ip p f s) = HashKey j' l' (Inet6 ip' p' f' s')"
  shows "ip = ip' \<and> p = p'"
proof -
  obtain u k where k: "HashKey j l (Inet6 ip p f s) =
      (be_dec (rev (take 8 (s6_addr ip))), be_dec (rev (drop 8 (s6_addr ip))), k, u)" "ucast k = NOT (raw p)" "bit k 63"
    by (rule key_fields6)
  obtain u' k' where k': "HashKey j' l' (Inet6 ip' p' f' s') =
      (be_dec (rev (take 8 (s6_addr ip'))), be_dec (rev (drop 8 (s6_addr ip'))), k', u')" "ucast k' = NOT (raw p')" "bit k' 63"
    by (rule key_fields6)
  have "take 8 (s6_addr ip) = take 8 (s6_addr ip')" "drop 8 (s6_addr ip) = drop 8 (s6_addr ip')"
    using assms unfolding k(1) k'(1) prod.inject by (auto intro!: le_load_inject simp del: be_enc_numeral)
  then have "s6_addr ip = s6_addr ip'" by (metis append_take_drop_id)
  moreover have "NOT (raw p) = NOT (raw p')"
    using assms k(2) k'(2) unfolding k(1) k'(1) prod.inject by simp
  then have "raw p = raw p'" by (metis bit.double_compl)
  ultimately show ?thesis by (simp only: s6_addr_inject) (simp add: raw_inject)
qed

text \<open>
  The endpoint that a key stands for: address and port. A null address counts as the IPv4 address
  0.0.0.0 with port 0, and flow label and scope of an IPv6 address do not count.
\<close>

fun endpoint :: "inet \<Rightarrow> (u32 \<times> u16) + (u128 \<times> u16)" where
  "endpoint Inet_null = Inl (0, 0)"
| "endpoint (Inet4 a p) = Inl (a, p)"
| "endpoint (Inet6 ip p f s) = Inr (ip, p)"

lemma raw_0: "raw (0 :: u32) = 0" "raw (0 :: u16) = 0"
  by (simp_all add: raw_def be_dec_def)

lemma key_fields4:
  obtains k2 j' where "HashKey j l (Inet4 a p) = (ucast (raw a), ucast (raw p), k2, j')" and "\<not> bit k2 63"
proof (cases l)
  case (Inet4 la lp)
  then show ?thesis
    by (intro that [of "ucast (raw la)" "ucast (raw p)"])
      (auto simp: HashKey_def bit_simps dest: bit_imp_le_length)
qed (auto intro!: that [of 0 0] simp: HashKey_def)

lemma key_null: "HashKey j l Inet_null = HashKey j Inet_null (Inet4 0 0)"
  by (simp add: HashKey_def raw_0)

lemma key_endpoint4:
  assumes "HashKey j l (Inet4 a p) = HashKey j' l' (Inet4 a' p')"
  shows "a = a' \<and> p = p'"
proof -
  obtain k u where k: "HashKey j l (Inet4 a p) = (ucast (raw a), ucast (raw p), k, u)" by (rule key_fields4)
  obtain k' u' where k': "HashKey j' l' (Inet4 a' p') = (ucast (raw a'), ucast (raw p'), k', u')" by (rule key_fields4)
  show ?thesis using assms unfolding k k' prod.inject ucast_raw_inject by blast
qed

lemma key_families: "HashKey j l (Inet4 a p) \<noteq> HashKey j' l' (Inet6 ip q f s)"
proof -
  obtain k u where k: "HashKey j l (Inet4 a p) = (ucast (raw a), ucast (raw p), k, u)" "\<not> bit k 63"
    by (rule key_fields4)
  obtain k' u' where k': "HashKey j' l' (Inet6 ip q f s) =
      (be_dec (rev (take 8 (s6_addr ip))), be_dec (rev (drop 8 (s6_addr ip))), k', u')" "bit k' 63"
    by (rule key_fields6)
  show ?thesis unfolding k(1) k'(1) prod.inject using k(2) k'(2) by blast
qed

lemma key_endpoint:
  assumes "HashKey j l r = HashKey j' l' r'"
  shows "endpoint r = endpoint r'"
proof -
  have "endpoint r = endpoint r'" if "HashKey j l r = HashKey j' l' r'" "r \<noteq> Inet_null" "r' \<noteq> Inet_null"
    for j l r j' l' r'
    using that key_endpoint4 key_endpoint6 key_families key_families [symmetric]
    by (cases r; cases r'; simp; blast)
  note * = this
  define s where "s = (if r = Inet_null then Inet4 0 0 else r)"
  define s' where "s' = (if r' = Inet_null then Inet4 0 0 else r')"
  have "endpoint s = endpoint s'"
    by (rule * [of j "if r = Inet_null then Inet_null else l" _ j' "if r' = Inet_null then Inet_null else l'"])
      (use assms in \<open>auto simp: s_def s'_def key_null\<close>)
  then show ?thesis by (auto simp: s_def s'_def split: if_splits)
qed

text \<open>
  C29. Path keys: equal keys have the same remote address family, address and port, except that a
  null remote address has the key of 0.0.0.0 with port 0; the scope of an IPv6 remote address is not
  part of the key. Neither is the local port, although the local address is: two sockets
  bound to one address give one key. The key of an IPv6 path without an IPv6 local address has a
  word that is never written.
\<close>

theorem HashKey_endpoint:
  "(HashKey j l r = HashKey j' l' r' \<longrightarrow> endpoint r = endpoint r')
   \<and> HashKey j l Inet_null = HashKey j Inet_null (Inet4 0 0)
   \<and> HashKey j l (Inet6 ip p f s) = HashKey j l (Inet6 ip p f' s')
   \<and> HashKey j (Inet4 la lp) r = HashKey j (Inet4 la lp') r
   \<and> HashKey j (Inet6 lip lp f s) r = HashKey j (Inet6 lip lp' f' s') r
   \<and> (HashKey j Inet_null (Inet6 ip p f s) = HashKey j' Inet_null (Inet6 ip p f s) \<longleftrightarrow> j = j')"
proof (intro conjI impI)
  show "endpoint r = endpoint r'" if "HashKey j l r = HashKey j' l' r'"
    by (rule key_endpoint [OF that])
  show "HashKey j l Inet_null = HashKey j Inet_null (Inet4 0 0)"
    by (rule key_null)
qed (simp_all add: HashKey_def Let_def split: inet.split)

theorem HashKey_endpoint_witness:
  "HashKey 0 Inet_null (Inet6 5 7 0 1) = HashKey 0 Inet_null (Inet6 5 7 0 2)
   \<and> endpoint (Inet6 5 7 0 1) = endpoint (Inet6 5 7 0 2)
   \<and> HashKey 0 (Inet4 0x0a000001 9993) (Inet4 0x01020304 1) = HashKey 0 (Inet4 0x0a000001 9994) (Inet4 0x01020304 1)
   \<and> HashKey 0 Inet_null (Inet4 5 7) \<noteq> HashKey 0 Inet_null (Inet4 5 8)"
proof -
  have "HashKey 0 Inet_null (Inet6 5 7 0 1) = HashKey 0 Inet_null (Inet6 5 7 0 2)"
    by (simp add: HashKey_def Let_def)
  then show ?thesis
    using HashKey_endpoint [where j = 0 and l = Inet_null and r = "Inet6 5 7 0 1"
        and j' = 0 and l' = Inet_null and r' = "Inet6 5 7 0 2"]
      HashKey_endpoint [where j = 0 and l = Inet_null and r = "Inet4 5 7"
        and j' = 0 and l' = Inet_null and r' = "Inet4 5 8"]
      HashKey_endpoint [where j = 0 and r = "Inet4 0x01020304 1" and la = "0x0a000001" and lp = 9993 and lp' = 9994]
    by simp
qed

end
