(* ===== verification/SHA512.thy ===== *)
theory SHA512
  imports Addressing
begin

text \<open>
  SHA-512: \<^verbatim>\<open>zto/node/SHA512.cpp\<close>, and its equality with the definition of FIPS 180-4. The code keeps
  sixteen schedule words and updates them in place; the standard has a schedule of eighty words.
  Input is the list of the bytes to hash; \<open>junk\<close> is the uninitialised array \<^verbatim>\<open>padded\<close>.
\<close>

section \<open>The code\<close>

definition load_bigendian :: "bytes \<Rightarrow> u64" where
  "load_bigendian x = be_dec (take 8 x)"

definition store_bigendian :: "u64 \<Rightarrow> bytes" where
  "store_bigendian u = be_enc 8 u"

definition ROTR :: "u64 \<Rightarrow> nat \<Rightarrow> u64" where
  "ROTR x c = drop_bit c x OR push_bit (64 - c) x"

definition Ch :: "u64 \<Rightarrow> u64 \<Rightarrow> u64 \<Rightarrow> u64" where
  "Ch x y z = (x AND y) XOR (NOT x AND z)"

definition Maj :: "u64 \<Rightarrow> u64 \<Rightarrow> u64 \<Rightarrow> u64" where
  "Maj x y z = (x AND y) XOR (x AND z) XOR (y AND z)"

definition Sigma0 :: "u64 \<Rightarrow> u64" where
  "Sigma0 x = ROTR x 28 XOR ROTR x 34 XOR ROTR x 39"

definition Sigma1 :: "u64 \<Rightarrow> u64" where
  "Sigma1 x = ROTR x 14 XOR ROTR x 18 XOR ROTR x 41"

definition sigma0 :: "u64 \<Rightarrow> u64" where
  "sigma0 x = ROTR x 1 XOR ROTR x 8 XOR drop_bit 7 x"

definition sigma1 :: "u64 \<Rightarrow> u64" where
  "sigma1 x = ROTR x 19 XOR ROTR x 61 XOR drop_bit 6 x"

text \<open>The macro \<^verbatim>\<open>M\<close> on the words with the given numbers, and its sixteen uses.\<close>

fun sha_M :: "nat \<times> nat \<times> nat \<times> nat \<Rightarrow> u64 list \<Rightarrow> u64 list" where
  "sha_M (w0, w14, w9, w1) w = w[w0 := sigma1 (w ! w14) + w ! w9 + sigma0 (w ! w1) + w ! w0]"

definition EXPAND :: "u64 list \<Rightarrow> u64 list" where
  "EXPAND = fold sha_M
     [(0, 14, 9, 1), (1, 15, 10, 2), (2, 0, 11, 3), (3, 1, 12, 4), (4, 2, 13, 5), (5, 3, 14, 6), (6, 4, 15, 7),
      (7, 5, 0, 8), (8, 6, 1, 9), (9, 7, 2, 10), (10, 8, 3, 11), (11, 9, 4, 12), (12, 10, 5, 13), (13, 11, 6, 14),
      (14, 12, 7, 15), (15, 13, 8, 0)]"

type_synonym sha_vars = "u64 \<times> u64 \<times> u64 \<times> u64 \<times> u64 \<times> u64 \<times> u64 \<times> u64"

fun sha_F :: "u64 \<times> u64 \<Rightarrow> sha_vars \<Rightarrow> sha_vars" where
  "sha_F (w, k) (a, b, c, d, e, f, g, h) =
     (let T1 = h + Sigma1 e + Ch e f g + k + w; T2 = Sigma0 a + Maj a b c in (T1 + T2, a, b, c, d + T1, e, f, g))"

text \<open>The uses of \<^verbatim>\<open>F\<close>, sixteen before each \<^verbatim>\<open>EXPAND\<close>: the number of the schedule word and the constant.\<close>

definition sha_steps :: "(nat \<times> u64) list list" where
  "sha_steps =
     [[(0, 0x428a2f98d728ae22), (1, 0x7137449123ef65cd), (2, 0xb5c0fbcfec4d3b2f), (3, 0xe9b5dba58189dbbc),
       (4, 0x3956c25bf348b538), (5, 0x59f111f1b605d019), (6, 0x923f82a4af194f9b), (7, 0xab1c5ed5da6d8118),
       (8, 0xd807aa98a3030242), (9, 0x12835b0145706fbe), (10, 0x243185be4ee4b28c), (11, 0x550c7dc3d5ffb4e2),
       (12, 0x72be5d74f27b896f), (13, 0x80deb1fe3b1696b1), (14, 0x9bdc06a725c71235), (15, 0xc19bf174cf692694)],
      [(0, 0xe49b69c19ef14ad2), (1, 0xefbe4786384f25e3), (2, 0x0fc19dc68b8cd5b5), (3, 0x240ca1cc77ac9c65),
       (4, 0x2de92c6f592b0275), (5, 0x4a7484aa6ea6e483), (6, 0x5cb0a9dcbd41fbd4), (7, 0x76f988da831153b5),
       (8, 0x983e5152ee66dfab), (9, 0xa831c66d2db43210), (10, 0xb00327c898fb213f), (11, 0xbf597fc7beef0ee4),
       (12, 0xc6e00bf33da88fc2), (13, 0xd5a79147930aa725), (14, 0x06ca6351e003826f), (15, 0x142929670a0e6e70)],
      [(0, 0x27b70a8546d22ffc), (1, 0x2e1b21385c26c926), (2, 0x4d2c6dfc5ac42aed), (3, 0x53380d139d95b3df),
       (4, 0x650a73548baf63de), (5, 0x766a0abb3c77b2a8), (6, 0x81c2c92e47edaee6), (7, 0x92722c851482353b),
       (8, 0xa2bfe8a14cf10364), (9, 0xa81a664bbc423001), (10, 0xc24b8b70d0f89791), (11, 0xc76c51a30654be30),
       (12, 0xd192e819d6ef5218), (13, 0xd69906245565a910), (14, 0xf40e35855771202a), (15, 0x106aa07032bbd1b8)],
      [(0, 0x19a4c116b8d2d0c8), (1, 0x1e376c085141ab53), (2, 0x2748774cdf8eeb99), (3, 0x34b0bcb5e19b48a8),
       (4, 0x391c0cb3c5c95a63), (5, 0x4ed8aa4ae3418acb), (6, 0x5b9cca4f7763e373), (7, 0x682e6ff3d6b2b8a3),
       (8, 0x748f82ee5defb2fc), (9, 0x78a5636f43172f60), (10, 0x84c87814a1f0ab72), (11, 0x8cc702081a6439ec),
       (12, 0x90befffa23631e28), (13, 0xa4506cebde82bde9), (14, 0xbef9a3f7b2c67915), (15, 0xc67178f2e372532b)],
      [(0, 0xca273eceea26619c), (1, 0xd186b8c721c0c207), (2, 0xeada7dd6cde0eb1e), (3, 0xf57d4f7fee6ed178),
       (4, 0x06f067aa72176fba), (5, 0x0a637dc5a2c898a6), (6, 0x113f9804bef90dae), (7, 0x1b710b35131c471b),
       (8, 0x28db77f523047d84), (9, 0x32caab7b40c72493), (10, 0x3c9ebe0a15c9bebc), (11, 0x431d67c49c100d4c),
       (12, 0x4cc5d4becb3e42b6), (13, 0x597f299cfc657e2a), (14, 0x5fcb6fab3ad6faec), (15, 0x6c44198c4a475817)]]"

definition sha_round :: "nat \<Rightarrow> u64 list \<Rightarrow> sha_vars \<Rightarrow> sha_vars" where
  "sha_round r w = fold (\<lambda>(i, k). sha_F (w ! i, k)) (sha_steps ! r)"

fun sha_add :: "sha_vars \<Rightarrow> sha_vars \<Rightarrow> sha_vars" where
  "sha_add (a, b, c, d, e, f, g, h) (s0, s1, s2, s3, s4, s5, s6, s7) =
     (a + s0, b + s1, c + s2, d + s3, e + s4, f + s5, g + s6, h + s7)"

definition load_block :: "bytes \<Rightarrow> u64 list" where
  "load_block input = map (\<lambda>i. load_bigendian (drop (8 * i) input)) [0..<16]"

definition hash_block :: "bytes \<Rightarrow> sha_vars \<Rightarrow> sha_vars" where
  "hash_block input state =
     (let w = load_block input; v = sha_round 0 w state;
          w = EXPAND w; v = sha_round 1 w v;
          w = EXPAND w; v = sha_round 2 w v;
          w = EXPAND w; v = sha_round 3 w v;
          w = EXPAND w; v = sha_round 4 w v
      in sha_add v state)"

function blocks_loop :: "bytes \<Rightarrow> sha_vars \<Rightarrow> sha_vars" where
  "blocks_loop input state =
     (if length input \<ge> 128 then blocks_loop (drop 128 input) (hash_block input state) else state)"
  by pat_completeness auto
termination by (relation "measure (\<lambda>(input, _). length input)") auto

declare blocks_loop.simps [simp del]

definition load_state :: "bytes \<Rightarrow> sha_vars" where
  "load_state s =
     (let l = (\<lambda>i. load_bigendian (drop i s)) in (l 0, l 8, l 16, l 24, l 32, l 40, l 48, l 56))"

fun store_state :: "sha_vars \<Rightarrow> bytes" where
  "store_state (a, b, c, d, e, f, g, h) = concat (map store_bigendian [a, b, c, d, e, f, g, h])"

definition crypto_hashblocks :: "bytes \<Rightarrow> bytes \<Rightarrow> bytes" where
  "crypto_hashblocks statebytes input = store_state (blocks_loop input (load_state statebytes))"

definition sha_iv :: bytes where
  "sha_iv =
     [0x6a, 0x09, 0xe6, 0x67, 0xf3, 0xbc, 0xc9, 0x08, 0xbb, 0x67, 0xae, 0x85, 0x84, 0xca, 0xa7, 0x3b,
      0x3c, 0x6e, 0xf3, 0x72, 0xfe, 0x94, 0xf8, 0x2b, 0xa5, 0x4f, 0xf5, 0x3a, 0x5f, 0x1d, 0x36, 0xf1,
      0x51, 0x0e, 0x52, 0x7f, 0xad, 0xe6, 0x82, 0xd1, 0x9b, 0x05, 0x68, 0x8c, 0x2b, 0x3e, 0x6c, 0x1f,
      0x1f, 0x83, 0xd9, 0xab, 0xfb, 0x41, 0xbd, 0x6b, 0x5b, 0xe0, 0xcd, 0x19, 0x13, 0x7e, 0x21, 0x79]"

text \<open>The bytes \<open>n + 119\<close> to \<open>n + 127\<close> of \<^verbatim>\<open>padded\<close>, with \<open>n\<close> 0 or 128.\<close>

definition length_bytes :: "u64 \<Rightarrow> bytes" where
  "length_bytes n =
     map (\<lambda>s. ucast (drop_bit s n AND 0xff)) [61, 53, 45, 37, 29, 21, 13, 5] @ [ucast (push_bit 3 n AND 0xff)]"

definition SHA512_hash :: "bytes \<Rightarrow> bytes \<Rightarrow> bytes" where
  "SHA512_hash junk msg =
     (let len = length msg; n = of_nat len :: u64; h = crypto_hashblocks sha_iv msg;
          inlen = len mod 128; rest = drop (len - inlen) msg;
          padded = mem_write inlen [0x80] (mem_write 0 rest junk)
      in if inlen < 112 then
           (let padded = mem_write (inlen + 1) (replicate (119 - (inlen + 1)) 0) padded;
                padded = mem_write 119 (length_bytes n) padded
            in crypto_hashblocks h (take 128 padded))
         else
           (let padded = mem_write (inlen + 1) (replicate (247 - (inlen + 1)) 0) padded;
                padded = mem_write 247 (length_bytes n) padded
            in crypto_hashblocks h (take 256 padded)))"

section \<open>The standard\<close>

definition fips_Sigma0 :: "u64 \<Rightarrow> u64" where
  "fips_Sigma0 x = word_rotr 28 x XOR word_rotr 34 x XOR word_rotr 39 x"

definition fips_Sigma1 :: "u64 \<Rightarrow> u64" where
  "fips_Sigma1 x = word_rotr 14 x XOR word_rotr 18 x XOR word_rotr 41 x"

definition fips_sigma0 :: "u64 \<Rightarrow> u64" where
  "fips_sigma0 x = word_rotr 1 x XOR word_rotr 8 x XOR drop_bit 7 x"

definition fips_sigma1 :: "u64 \<Rightarrow> u64" where
  "fips_sigma1 x = word_rotr 19 x XOR word_rotr 61 x XOR drop_bit 6 x"

text \<open>The message schedule of a block of sixteen words.\<close>

fun fips_W :: "u64 list \<Rightarrow> nat \<Rightarrow> u64" where
  "fips_W m t =
     (if t < 16 then m ! t
      else fips_sigma1 (fips_W m (t - 2)) + fips_W m (t - 7) + fips_sigma0 (fips_W m (t - 15)) + fips_W m (t - 16))"

declare fips_W.simps [simp del]

fun fips_step :: "u64 \<times> u64 \<Rightarrow> sha_vars \<Rightarrow> sha_vars" where
  "fips_step (w, k) (a, b, c, d, e, f, g, h) =
     (let T1 = h + fips_Sigma1 e + Ch e f g + k + w; T2 = fips_Sigma0 a + Maj a b c
      in (T1 + T2, a, b, c, d + T1, e, f, g))"

text \<open>
  The constants of the standard: the first 64 bits of the fractional parts of the cube roots of the
  first eighty primes, and of the square roots of the first eight for the initial value. The integer
  root of \<open>n\<close> is found from its highest bit down.
\<close>

definition fips_primes :: "nat list" where
  "fips_primes =
     [2, 3, 5, 7, 11, 13, 17, 19, 23, 29, 31, 37, 41, 43, 47, 53, 59, 61, 67, 71,
      73, 79, 83, 89, 97, 101, 103, 107, 109, 113, 127, 131, 137, 139, 149, 151, 157, 163, 167, 173,
      179, 181, 191, 193, 197, 199, 211, 223, 227, 229, 233, 239, 241, 251, 257, 263, 269, 271, 277, 281,
      283, 293, 307, 311, 313, 317, 331, 337, 347, 349, 353, 359, 367, 373, 379, 383, 389, 397, 401, 409]"

fun iroot :: "nat \<Rightarrow> nat \<Rightarrow> nat \<Rightarrow> nat \<Rightarrow> nat" where
  "iroot m 0 r n = r"
| "iroot m (Suc i) r n = iroot m i (if (r + 2 ^ i) ^ m \<le> n then r + 2 ^ i else r) n"

definition fips_K :: "nat \<Rightarrow> u64" where
  "fips_K t = of_nat (iroot 3 67 0 (fips_primes ! t * 2 ^ 192))"

definition fips_H :: "nat \<Rightarrow> u64" where
  "fips_H t = of_nat (iroot 2 67 0 (fips_primes ! t * 2 ^ 128))"

definition fips_compress :: "u64 list \<Rightarrow> sha_vars \<Rightarrow> sha_vars" where
  "fips_compress m H = sha_add (fold (\<lambda>t. fips_step (fips_W m t, fips_K t)) [0..<80] H) H"

definition fips_pad :: "bytes \<Rightarrow> bytes" where
  "fips_pad m =
     m @ 0x80 # replicate (nat ((111 - int (length m)) mod 128)) 0 @ be_enc 16 (of_nat (8 * length m) :: 128 word)"

definition fips_words :: "bytes \<Rightarrow> u64 list" where
  "fips_words b = map (\<lambda>i. be_dec (sub (8 * i) 8 b)) [0..<16]"

definition fips_hash :: "bytes \<Rightarrow> bytes" where
  "fips_hash m =
     (let p = fips_pad m;
          H = fold (\<lambda>i. fips_compress (fips_words (sub (128 * i) 128 p))) [0..<length p div 128]
                (fips_H 0, fips_H 1, fips_H 2, fips_H 3, fips_H 4, fips_H 5, fips_H 6, fips_H 7)
      in store_state H)"

section \<open>The compression function\<close>

lemma ROTR_word_rotr: "0 < c \<Longrightarrow> c < 64 \<Longrightarrow> ROTR x c = word_rotr c x"
  by (rule bit_word_eqI) (auto simp: ROTR_def bit_simps bit_word_rotr_iff mod_if add.commute [of c] dest: bit_imp_le_length)

lemma fips_functions:
  "Sigma0 x = fips_Sigma0 x" "Sigma1 x = fips_Sigma1 x" "sigma0 x = fips_sigma0 x" "sigma1 x = fips_sigma1 x"
  by (simp_all add: Sigma0_def Sigma1_def sigma0_def sigma1_def fips_Sigma0_def fips_Sigma1_def
      fips_sigma0_def fips_sigma1_def ROTR_word_rotr)

lemma sha_F_fips: "sha_F wk v = fips_step wk v"
  by (cases "(wk, v)" rule: sha_F.cases) (simp add: fips_functions)

lemma upt_16: "[0..<16] = [0, 1, 2, 3, 4, 5, 6, 7, 8, 9, 10, 11, 12, 13, 14, 15 :: nat]"
  by (simp add: upt_rec)

lemma EXPAND_steps:
  "EXPAND = fold (\<lambda>i. sha_M (i, (i + 14) mod 16, (i + 9) mod 16, (i + 1) mod 16)) [0..<16]"
    by (simp add: EXPAND_def upt_16 flip: numeral_2_eq_2)

lemma fips_W_step:
  "fips_W m (n + 16) = sigma1 (fips_W m (n + 14)) + fips_W m (n + 9) + sigma0 (fips_W m (n + 1)) + fips_W m n"
  by (subst fips_W.simps) (simp add: fips_functions add.commute [of _ n])

text \<open>While the words are updated, the first \<open>i\<close> are those of the next sixteen.\<close>

lemma EXPAND_partial:
  assumes "i \<le> 16"
  shows "fold (\<lambda>i. sha_M (i, (i + 14) mod 16, (i + 9) mod 16, (i + 1) mod 16)) [0..<i] (map (\<lambda>j. fips_W m (n + j)) [0..<16])
    = map (\<lambda>j. fips_W m (if j < i then n + 16 + j else n + j)) [0..<16]"
  using assms
proof (induction i)
  case (Suc i)
  define w where "w = map (\<lambda>j. fips_W m (if j < i then n + 16 + j else n + j)) [0..<16]"
  have nth: "w ! j = fips_W m (if j < i then n + 16 + j else n + j)" if "j < 16" for j
    using that by (simp add: w_def)
  have "w ! ((i + d) mod 16) = fips_W m (n + i + d)" if "d < 16" for d
    using that Suc.prems by (subst nth) (auto simp: mod_if intro!: arg_cong [where f = "fips_W m"])
  from this [of 14] this [of 9] this [of 1] this [of 0]
  have "sha_M (i, (i + 14) mod 16, (i + 9) mod 16, (i + 1) mod 16) w = w[i := fips_W m (n + i + 16)]"
    using Suc.prems by (simp add: fips_W_step)
  moreover have "w[i := fips_W m (n + i + 16)] = map (\<lambda>j. fips_W m (if j < Suc i then n + 16 + j else n + j)) [0..<16]"
    using Suc.prems by (intro nth_equalityI) (auto simp: w_def nth_list_update less_Suc_eq ac_simps)
  ultimately show ?case using Suc by (simp add: w_def)
qed simp

lemma EXPAND_schedule:
  "EXPAND (map (\<lambda>j. fips_W m (n + j)) [0..<16]) = map (\<lambda>j. fips_W m (n + 16 + j)) [0..<16]"
  unfolding EXPAND_steps EXPAND_partial [OF order_refl] by simp

lemma iroot_unique:
  assumes "k ^ m \<le> n" and "n < (k + 1) ^ m"
  shows "r \<le> k \<Longrightarrow> k < r + 2 ^ i \<Longrightarrow> iroot m i r n = k"
proof (induction i arbitrary: r)
  case (Suc i)
  have "(r + 2 ^ i) ^ m \<le> n \<longleftrightarrow> r + 2 ^ i \<le> k"
  proof
    assume "(r + 2 ^ i) ^ m \<le> n"
    then have "\<not> (k + 1) ^ m \<le> (r + 2 ^ i) ^ m" using assms(2) by linarith
    then show "r + 2 ^ i \<le> k" using power_mono [of "k + 1" "r + 2 ^ i" m] by (metis not_less_eq_eq Suc_eq_plus1 zero_le)
  qed (use assms(1) power_mono [of "r + 2 ^ i" k m] in linarith)
  with Suc show ?case by (auto simp: mult_2)
qed simp

text \<open>That \<open>k\<close> is the fraction of the root with integer part \<open>a\<close>, without searching for the root.\<close>

definition is_root :: "nat \<Rightarrow> nat \<Rightarrow> nat \<Rightarrow> bool" where
  "is_root m n r \<longleftrightarrow> r ^ m \<le> n \<and> n < (r + 1) ^ m"

definition root_check :: "nat \<Rightarrow> nat \<Rightarrow> nat \<Rightarrow> u64 \<Rightarrow> bool" where
  "root_check m n a k \<longleftrightarrow> a < 8 \<and> is_root m n (a * 2 ^ 64 + unat k)"

lemma root_constant:
  assumes "root_check m n a k"
  shows "of_nat (iroot m 67 0 n) = k"
proof -
  define K where "K = a * 2 ^ 64 + unat k"
  have "unat k < 2 ^ 64" using unsigned_less [of k] by simp
  then have "K < 0 + 2 ^ 67" using assms by (simp add: K_def root_check_def)
  then have "iroot m 67 0 n = K" using assms by (intro iroot_unique) (simp_all add: K_def root_check_def is_root_def)
  moreover have "(of_nat (2 ^ 64) :: u64) = 0" by simp
  then have "(of_nat K :: u64) = k" unfolding K_def of_nat_add of_nat_mult by (simp only: mult_zero_right add_0_left) simp
  ultimately show ?thesis by simp
qed

text \<open>The integer parts of the cube roots.\<close>

definition int_roots :: "nat list" where
  "int_roots =
     [1, 1, 1, 1, 2, 2, 2, 2, 2, 3, 3, 3, 3, 3, 3, 3, 3, 3, 4, 4, 4, 4, 4, 4, 4, 4, 4, 4, 4, 4, 5, 5, 5, 5, 5, 5, 5, 5, 5, 5,
      5, 5, 5, 5, 5, 5, 5, 6, 6, 6, 6, 6, 6, 6, 6, 6, 6, 6, 6, 6, 6, 6, 6, 6, 6, 6, 6, 6, 7, 7, 7, 7, 7, 7, 7, 7, 7, 7, 7, 7]"

fun steps_check :: "nat list \<Rightarrow> nat list \<Rightarrow> nat \<Rightarrow> (nat \<times> u64) list \<Rightarrow> bool" where
  "steps_check (a # as) (p # ps) j ((i, k) # ks) \<longleftrightarrow> i = j \<and> root_check 3 (p * 2 ^ 192) a k \<and> steps_check as ps (j + 1) ks"
| "steps_check as ps j ks \<longleftrightarrow> ks = []"

lemma steps_check_nth:
  "steps_check as ps j ks \<Longrightarrow> n < length ks \<Longrightarrow> fst (ks ! n) = j + n \<and> root_check 3 (ps ! n * 2 ^ 192) (as ! n) (snd (ks ! n))"
proof (induction as ps j ks arbitrary: n rule: steps_check.induct)
  case (1 a as p ps j i k ks)
  then show ?case by (cases n) auto
qed auto

fun near_cube :: "nat \<Rightarrow> nat \<Rightarrow> nat \<Rightarrow> bool" where
  "near_cube n r c \<longleftrightarrow> c \<le> n \<and> n \<le> c + 3 * (r * (r + 1))"

lemma is_root_cube: "is_root 3 n r \<longleftrightarrow> near_cube n r (r * (r * r))"
proof -
  have "(r + 1) ^ 3 = Suc (r * (r * r) + 3 * (r * (r + 1)))" by (simp add: power3_eq_cube distrib_left distrib_right)
  moreover have "r ^ 3 = r * (r * r)" by (simp add: power3_eq_cube)
  ultimately show ?thesis by (simp only: is_root_def near_cube.simps less_Suc_eq_le)
qed

lemmas steps_eval = sha_steps_def sub_def int_roots_def fips_primes_def root_check_def is_root_cube

lemma sha_steps_check_0: "steps_check (sub 0 16 int_roots) (sub 0 16 fips_primes) 0 (sha_steps ! 0)"
  by (simp add: steps_eval)

lemma sha_steps_check_1: "steps_check (sub 16 16 int_roots) (sub 16 16 fips_primes) 0 (sha_steps ! 1)"
  by (simp add: steps_eval)

lemma sha_steps_check_2: "steps_check (sub 32 16 int_roots) (sub 32 16 fips_primes) 0 (sha_steps ! 2)"
  by (simp add: steps_eval)

lemma sha_steps_check_3: "steps_check (sub 48 16 int_roots) (sub 48 16 fips_primes) 0 (sha_steps ! 3)"
  by (simp add: steps_eval)

lemma sha_steps_check_4: "steps_check (sub 64 16 int_roots) (sub 64 16 fips_primes) 0 (sha_steps ! 4)"
  by (simp add: steps_eval)

lemma sha_steps_lengths: "length (sha_steps ! 0) = 16" "length (sha_steps ! 1) = 16" "length (sha_steps ! 2) = 16"
  "length (sha_steps ! 3) = 16" "length (sha_steps ! 4) = 16"
  by (simp_all add: sha_steps_def)

lemma sha_steps_constants:
  assumes "r < 5"
  shows "sha_steps ! r = map (\<lambda>j. (j, fips_K (16 * r + j))) [0..<16]"
proof -
  have "r = 0 \<or> r = 1 \<or> r = 2 \<or> r = 3 \<or> r = 4" using assms by linarith
  then have c: "steps_check (sub (16 * r) 16 int_roots) (sub (16 * r) 16 fips_primes) 0 (sha_steps ! r)"
    and l: "length (sha_steps ! r) = 16"
    using sha_steps_check_0 sha_steps_check_1 sha_steps_check_2 sha_steps_check_3 sha_steps_check_4 sha_steps_lengths
    by (elim disjE; simp)+
  have p: "j < 16 \<Longrightarrow> sub (16 * r) 16 fips_primes ! j = fips_primes ! (16 * r + j)" for j
    using assms by (simp add: sub_def fips_primes_def)
  have "sha_steps ! r ! j = (j, fips_K (16 * r + j))" if "j < 16" for j
  proof -
    have "root_check 3 (fips_primes ! (16 * r + j) * 2 ^ 192) (sub (16 * r) 16 int_roots ! j) (snd (sha_steps ! r ! j))"
      using steps_check_nth [OF c, of j] p that l by simp
    then have "snd (sha_steps ! r ! j) = fips_K (16 * r + j)" by (simp add: fips_K_def root_constant)
    moreover have "fst (sha_steps ! r ! j) = j" using steps_check_nth [OF c, of j] that l by simp
    ultimately show ?thesis by (simp add: prod_eq_iff)
  qed
  then show ?thesis using l by (intro nth_equalityI) (simp_all del: upt_rec_numeral)
qed

lemma sha_iv_check:
  "load_state sha_iv = (fips_H 0, fips_H 1, fips_H 2, fips_H 3, fips_H 4, fips_H 5, fips_H 6, fips_H 7)"
proof -
  have h: "fips_H t = k" if "root_check 2 (fips_primes ! t * 2 ^ 128) a k" for t a k
    using root_constant [OF that] by (simp add: fips_H_def)
  have v: "load_state sha_iv =
      (0x6a09e667f3bcc908, 0xbb67ae8584caa73b, 0x3c6ef372fe94f82b, 0xa54ff53a5f1d36f1,
       0x510e527fade682d1, 0x9b05688c2b3e6c1f, 0x1f83d9abfb41bd6b, 0x5be0cd19137e2179)"
    by (simp add: load_state_def sha_iv_def load_bigendian_def be_dec_def)
  have c: "root_check 2 (fips_primes ! 0 * 2 ^ 128) 1 0x6a09e667f3bcc908"
    "root_check 2 (fips_primes ! 1 * 2 ^ 128) 1 0xbb67ae8584caa73b"
    "root_check 2 (fips_primes ! 2 * 2 ^ 128) 2 0x3c6ef372fe94f82b"
    "root_check 2 (fips_primes ! 3 * 2 ^ 128) 2 0xa54ff53a5f1d36f1"
    "root_check 2 (fips_primes ! 4 * 2 ^ 128) 3 0x510e527fade682d1"
    "root_check 2 (fips_primes ! 5 * 2 ^ 128) 3 0x9b05688c2b3e6c1f"
    "root_check 2 (fips_primes ! 6 * 2 ^ 128) 4 0x1f83d9abfb41bd6b"
    "root_check 2 (fips_primes ! 7 * 2 ^ 128) 4 0x5be0cd19137e2179"
    by (simp_all add: root_check_def is_root_def fips_primes_def)
  show ?thesis unfolding c [THEN h] by (rule v)
qed

lemma sha_round_fips:
  assumes "n = 16 * r" and "r < 5"
  shows "sha_round r (map (\<lambda>j. fips_W m (n + j)) [0..<16]) v
    = fold (\<lambda>t. fips_step (fips_W m t, fips_K t)) [n..<n + 16] v"
proof -
  have u: "[n..<n + 16] = map (\<lambda>j. n + j) [0..<16]" by (intro nth_equalityI) simp_all
  have "fold (\<lambda>j. sha_F (map (\<lambda>j. fips_W m (n + j)) [0..<16] ! j, fips_K (16 * r + j))) [0..<16] v
      = fold (\<lambda>j. fips_step (fips_W m (n + j), fips_K (n + j))) [0..<16] v"
    using assms(1) by (intro fold_cong) (simp_all add: sha_F_fips fun_eq_iff del: upt_rec_numeral)
  then show ?thesis
    unfolding sha_round_def sha_steps_constants [OF assms(2)] u fold_map comp_def by (simp only: prod.case)
qed

lemma hash_block_fips: "hash_block b v = fips_compress (fips_words b) v"
proof -
  define m where "m = fips_words b"
  let ?w = "\<lambda>n. map (\<lambda>j. fips_W m (n + j)) [0..<16]"
  let ?f = "\<lambda>i j. fold (\<lambda>t. fips_step (fips_W m t, fips_K t)) [i..<j]"
  have "load_block b = m"
    by (simp add: load_block_def load_bigendian_def m_def fips_words_def sub_def)
  also have "\<dots> = ?w 0"
    by (rule nth_equalityI) (simp_all add: m_def fips_words_def fips_W.simps)
  finally have w: "load_block b = ?w 0" .
  have e: "EXPAND (?w 0) = ?w 16" "EXPAND (?w 16) = ?w 32" "EXPAND (?w 32) = ?w 48" "EXPAND (?w 48) = ?w 64"
    by (simp_all only: EXPAND_schedule) (simp_all del: upt_rec_numeral)
  have r: "sha_round 0 (?w 0) u = ?f 0 16 u" "sha_round 1 (?w 16) u = ?f 16 32 u" "sha_round 2 (?w 32) u = ?f 32 48 u"
    "sha_round 3 (?w 48) u = ?f 48 64 u" "sha_round 4 (?w 64) u = ?f 64 80 u" for u
    using sha_round_fips [of 0 0 m u] sha_round_fips [of 16 1 m u] sha_round_fips [of 32 2 m u]
      sha_round_fips [of 48 3 m u] sha_round_fips [of 64 4 m u] by (simp_all del: upt_rec_numeral)
  have join: "?f j k (?f i j u) = ?f i k u" if "i \<le> j" "j \<le> k" for i j k u
  proof -
    have "[i..<k] = [i..<j] @ [j..<k]" using upt_add_eq_append [OF that(1), of "k - j"] that(2) by simp
    then show ?thesis by (simp only: fold_append comp_apply)
  qed
  show ?thesis
    unfolding hash_block_def Let_def w e r fips_compress_def m_def [symmetric]
    by (simp add: join del: upt_rec_numeral)
qed

section \<open>Blocks and padding\<close>

lemma fips_words_prefix: "fips_words (take 128 b) = fips_words b"
  by (auto simp: fips_words_def sub_def drop_take min_def simp del: upt_rec_numeral)

lemma blocks_loop_fold:
  "blocks_loop p v = fold (\<lambda>i. fips_compress (fips_words (sub (128 * i) 128 p))) [0..<length p div 128] v"
proof (induction p v rule: blocks_loop.induct)
  case (1 p v)
  show ?case
  proof (cases "length p \<ge> 128")
    case True
    define n where "n = length p div 128 - 1"
    have n: "length p div 128 = Suc n" "(length p - 128) div 128 = n"
      using True by (auto simp: n_def div_if)
    have f: "fips_words (sub (128 * i) 128 (drop 128 p)) = fips_words (sub (128 * Suc i) 128 p)" for i
      by (simp add: sub_def add.commute)
    have "[0..<Suc n] = 0 # map Suc [0..<n]" by (simp add: upt_conv_Cons map_Suc_upt)
    then have "fold (\<lambda>i. fips_compress (fips_words (sub (128 * i) 128 p))) [0..<Suc n] v
        = fold (\<lambda>i. fips_compress (fips_words (sub (128 * Suc i) 128 p))) [0..<n] (hash_block p v)"
      by (simp add: fold_map comp_def hash_block_fips sub_def fips_words_prefix)
    then show ?thesis
      using 1 [OF True] True by (subst blocks_loop.simps) (simp only: n f length_drop if_True)
  next
    case False
    then show ?thesis by (subst blocks_loop.simps) simp
  qed
qed

lemma hash_block_append: "128 \<le> length b \<Longrightarrow> hash_block (b @ c) v = hash_block b v"
  using fips_words_prefix [of b] fips_words_prefix [of "b @ c"] by (simp add: hash_block_fips)

lemma blocks_loop_append:
  "128 dvd length p \<Longrightarrow> blocks_loop (p @ q) v = blocks_loop q (blocks_loop p v)"
proof (induction p v rule: blocks_loop.induct)
  case (1 p v)
  show ?case
  proof (cases "length p \<ge> 128")
    case True
    then have "128 dvd length (drop 128 p)" using "1.prems" by (simp add: dvd_minus_self)
    with 1 True show ?thesis
      by (subst (1 3) blocks_loop.simps) (simp add: hash_block_append)
  next
    case False
    then have "p = []" using "1.prems" by (auto dest: dvd_imp_le)
    then show ?thesis by (subst (3) blocks_loop.simps) simp
  qed
qed

lemma blocks_loop_short: "length p < 128 \<Longrightarrow> blocks_loop p v = v"
  by (subst blocks_loop.simps) simp

lemma length_store_bigendian [simp]: "length (store_bigendian w) = 8"
  by (simp add: store_bigendian_def del: be_enc_numeral)

lemma load_store_bigendian [simp]:
  "load_bigendian (store_bigendian w @ r) = w" "load_bigendian (store_bigendian w) = w"
proof -
  have "take 8 (store_bigendian w @ r) = store_bigendian w" "take 8 (store_bigendian w) = store_bigendian w"
    by simp_all
  then show "load_bigendian (store_bigendian w @ r) = w" "load_bigendian (store_bigendian w) = w"
    by (simp_all add: load_bigendian_def store_bigendian_def be_dec_enc_id del: be_enc_numeral)
qed

lemma load_store_state: "load_state (store_state v) = v"
  by (cases v rule: store_state.cases) (simp add: load_state_def)

lemma mem_write_app: "n = length a \<Longrightarrow> mem_write n xs (a @ m) = a @ xs @ drop (length xs) m"
  by (simp add: mem_write_def)

lemma fill_padded:
  assumes "length rest = k" and "k + 1 + length z = n" and "length junk = 256" and "n + length l \<le> 256"
  shows "take (n + length l) (mem_write n l (mem_write (k + 1) z (mem_write k [0x80] (mem_write 0 rest junk))))
    = rest @ 0x80 # z @ l"
proof -
  have "mem_write 0 rest junk = rest @ drop k junk" using assms(1) by (simp add: mem_write_def)
  then have "mem_write k [0x80] (mem_write 0 rest junk) = (rest @ [0x80]) @ drop (k + 1) junk"
    using mem_write_app [of k rest "[0x80]"] assms(1) by (simp add: add.commute)
  then have "mem_write (k + 1) z (mem_write k [0x80] (mem_write 0 rest junk)) = (rest @ 0x80 # z) @ drop n junk"
    using mem_write_app [of "k + 1" "rest @ [0x80]" z] assms(1,2) by (simp add: add.commute)
  then have "mem_write n l (mem_write (k + 1) z (mem_write k [0x80] (mem_write 0 rest junk)))
      = (rest @ 0x80 # z @ l) @ drop (n + length l) junk"
    using mem_write_app [of n "rest @ 0x80 # z" l] assms(1,2) by (simp add: add.commute)
  moreover have "n + length l = length (rest @ 0x80 # z @ l)" using assms by simp
  moreover have "take (length xs) (xs @ ys) = xs" for xs ys :: "'a list" by simp
  ultimately show ?thesis by (simp only:)
qed

lemma length_bytes_fips:
  assumes "n < 2 ^ 32"
  shows "be_enc 16 (of_nat (8 * n) :: 128 word) = replicate 7 0 @ length_bytes (of_nat n)"
proof -
  define N where "N = (of_nat n :: u64)"
  have "unat N = n" using assms by (simp add: N_def unat_of_nat)
  then have "(of_nat n :: 128 word) = ucast N" by (metis of_nat_unat)
  then have "(of_nat (8 * n) :: 128 word) = push_bit 3 (ucast N)" by (simp add: push_bit_eq_mult)
  moreover define X where "X = (push_bit 3 (ucast N) :: 128 word)"
  ultimately have X: "(of_nat (8 * n) :: 128 word) = X" by simp
  have z: "ucast (drop_bit k X) = (0 :: byte)" if "72 \<le> k" for k
    using that by (intro bit_word_eqI) (auto simp: X_def bit_simps dest: bit_imp_le_length)
  have m: "ucast (drop_bit k X) = (ucast (drop_bit (k - 3) N AND 0xff) :: byte)" if "8 \<le> k" "k \<le> 64" for k
    using that by (intro bit_word_eqI) (auto simp: X_def bit_simps)
  have l: "ucast X = (ucast (push_bit 3 N AND 0xff) :: byte)"
    by (intro bit_word_eqI) (auto simp: X_def bit_simps)
  have "replicate 7 0 = [0, 0, 0, 0, 0, 0, 0 :: byte]" by (simp add: numeral_eq_Suc)
  then show ?thesis
    unfolding X N_def [symmetric] by (simp add: z m l length_bytes_def)
qed

lemma length_length_bytes: "length (length_bytes n) = 9"
  by (simp add: length_bytes_def)

lemma fips_pad_tail:
  assumes "length msg < 2 ^ 32" and "length msg mod 128 = k" and "n = (if k < 112 then 119 else 247)"
  shows "fips_pad msg =
    take (length msg - k) msg @ drop (length msg - k) msg @ 0x80 # replicate (n - (k + 1)) 0 @ length_bytes (of_nat (length msg))"
proof -
  have "nat ((111 - int (length msg)) mod 128) + 7 = n - (k + 1)"
  proof -
    have "(111 - int (length msg)) mod 128 = (111 - int k) mod 128"
      using assms(2) by (metis mod_diff_right_eq of_nat_mod of_nat_numeral)
    moreover have "k < 128" using assms(2) by (metis mod_less_divisor zero_less_numeral)
    moreover have "(111 - int k) mod 128 = (if k < 112 then 111 - int k else 239 - int k)"
      using calculation(2) mod_pos_pos_trivial [of "111 - int k" 128] mod_pos_pos_trivial [of "239 - int k" 128]
        mod_add_self2 [of "111 - int k" 128] by auto
    ultimately show ?thesis using assms(3) by auto
  qed
  then have "replicate (nat ((111 - int (length msg)) mod 128)) 0 @ replicate 7 0 = replicate (n - (k + 1)) (0 :: byte)"
    by (metis replicate_add)
  then have "replicate (nat ((111 - int (length msg)) mod 128)) 0 @ replicate 7 0 @ xs = replicate (n - (k + 1)) (0 :: byte) @ xs" for xs
    by (simp only: append_assoc [symmetric])
  then show ?thesis
    unfolding fips_pad_def length_bytes_fips [OF assms(1)] by (simp only: append_assoc [symmetric] append_take_drop_id)
qed

lemma SHA512_hash_fips:
  assumes "length msg < 2 ^ 32" and "length junk = 256"
  shows "SHA512_hash junk msg = fips_hash msg"
proof -
  define k where "k = length msg mod 128"
  define n :: nat where "n = (if k < 112 then 119 else 247)"
  define full where "full = take (length msg - k) msg"
  define rest where "rest = drop (length msg - k) msg"
  define z where "z = replicate (n - (k + 1)) (0 :: byte)"
  define l where "l = length_bytes (of_nat (length msg))"
  define v0 where "v0 = load_state sha_iv"
  have k: "k < 128" "k \<le> length msg" by (simp_all add: k_def)
  have d: "msg = full @ rest" "length rest = k" using k(2) by (simp_all add: full_def rest_def)
  have dv: "128 dvd length full" by (simp add: full_def k_def dvd_minus_mod)
  have "take (n + 9) (mem_write n l (mem_write (k + 1) z (mem_write k [0x80] (mem_write 0 rest junk)))) = rest @ 0x80 # z @ l"
    using fill_padded [of rest k z n junk l] d(2) k(1) assms(2)
    by (auto simp: n_def z_def l_def length_length_bytes split: if_splits)
  then have "SHA512_hash junk msg = crypto_hashblocks (crypto_hashblocks sha_iv msg) (rest @ 0x80 # z @ l)"
    by (auto simp: SHA512_hash_def Let_def n_def z_def l_def rest_def k_def)
  also have "\<dots> = store_state (blocks_loop (rest @ 0x80 # z @ l) (blocks_loop msg v0))"
    by (simp add: crypto_hashblocks_def load_store_state v0_def)
  also have "blocks_loop msg v0 = blocks_loop full v0"
    unfolding d(1) using k(1) d(2) dv by (simp add: blocks_loop_append blocks_loop_short)
  also have "blocks_loop (rest @ 0x80 # z @ l) (blocks_loop full v0) = blocks_loop (fips_pad msg) v0"
    unfolding fips_pad_tail [OF assms(1) k_def [symmetric] n_def] full_def [symmetric] rest_def [symmetric]
      z_def [symmetric] l_def [symmetric] by (rule blocks_loop_append [OF dv, symmetric])
  also have "store_state \<dots> = fips_hash msg"
    by (simp only: fips_hash_def Let_def blocks_loop_fold v0_def sha_iv_check)
  finally show ?thesis .
qed

text \<open>
  C8. SHA-512: for every input shorter than 4 GB and whatever the work array held, \<^verbatim>\<open>SHA512::hash\<close>
  computes the hash of FIPS 180-4: the padding, the schedule of eighty words, and constants that are
  the fractions of square and cube roots of primes.
\<close>

theorem SHA512_hash_correct:
  assumes "length msg < 2 ^ 32" and "length junk = 256"
  shows "SHA512_hash junk msg = fips_hash msg"
  using assms by (rule SHA512_hash_fips)

theorem SHA512_hash_correct_witness:
  "SHA512_hash (replicate 256 7) [0x61, 0x62, 0x63] = fips_hash [0x61, 0x62, 0x63]"
  using SHA512_hash_correct [of "[0x61, 0x62, 0x63]" "replicate 256 7"] by simp

end
