(* ===== verification/Identity.thy ===== *)
theory Identity
  imports SHA512 Salsa20
begin

text \<open>
  Identities: \<^verbatim>\<open>zto/node/Identity.hpp\<close>, \<^verbatim>\<open>Identity.cpp\<close> and the key search of \<^verbatim>\<open>C25519.hpp\<close>. The curve
  arithmetic of \<^verbatim>\<open>C25519.cpp\<close> is the arguments \<open>calcPubDH\<close> and \<open>calcPubED\<close>. A search need not end: the loops are partial
  functions, and \<open>None\<close> stands for a run without end. Character strings are byte lists; a C string is
  one without zero byte, and the terminating zero is left out.
\<close>

section \<open>The memory-hard hash\<close>

definition ZT_IDENTITY_GEN_MEMORY :: nat where
  "ZT_IDENTITY_GEN_MEMORY = 2097152"

abbreviation (input) ZT_IDENTITY_GEN_HASHCASH_FIRST_BYTE_LESS_THAN :: byte where
  "ZT_IDENTITY_GEN_HASHCASH_FIRST_BYTE_LESS_THAN \<equiv> 17"

text \<open>As in the packet code, the result does not depend on the uninitialised work block of the cipher.\<close>

abbreviation salsa20 :: "u32 list \<Rightarrow> bytes \<Rightarrow> u32 list \<times> bytes" where
  "salsa20 \<equiv> crypt20 (replicate 64 0)"

abbreviation sha512 :: "bytes \<Rightarrow> bytes" where
  "sha512 \<equiv> SHA512_hash (replicate 256 0)"

fun genmem_fill :: "nat \<Rightarrow> u32 list \<times> bytes \<Rightarrow> u32 list \<times> bytes" where
  "genmem_fill i (s20, genmem) =
     (let genmem = mem_write i (sub (i - 64) 64 genmem) genmem;
          (s20, out) = salsa20 s20 (sub i 64 genmem)
      in (s20, mem_write i out genmem))"

text \<open>The words of the memory are numbered; \<open>i\<close> is the even number that starts a round.\<close>

fun digest_render :: "nat \<Rightarrow> u32 list \<times> bytes \<times> bytes \<Rightarrow> u32 list \<times> bytes \<times> bytes" where
  "digest_render i (s20, genmem, digest) =
     (let idx1 = unat (be_dec (sub (8 * i) 8 genmem) :: u64) mod 8;
          idx2 = unat (be_dec (sub (8 * (i + 1)) 8 genmem) :: u64) mod (ZT_IDENTITY_GEN_MEMORY div 8);
          tmp = sub (8 * idx2) 8 genmem;
          genmem = mem_write (8 * idx2) (sub (8 * idx1) 8 digest) genmem;
          digest = mem_write (8 * idx1) tmp digest;
          (s20, digest) = salsa20 s20 digest
      in (s20, genmem, digest))"

definition computeMemoryHardHash :: "bytes \<Rightarrow> bytes" where
  "computeMemoryHardHash publicKey =
     (let digest = sha512 publicKey;
          genmem = replicate ZT_IDENTITY_GEN_MEMORY 0;
          s20 = Salsa20_init digest 256 (drop 32 digest);
          (s20, out) = salsa20 s20 (take 64 genmem);
          genmem = mem_write 0 out genmem;
          (s20, genmem) = fold genmem_fill (map ((*) 64) [1..<ZT_IDENTITY_GEN_MEMORY div 64]) (s20, genmem);
          (s20, genmem, digest) =
            fold digest_render (map ((*) 2) [0..<ZT_IDENTITY_GEN_MEMORY div 16]) (s20, genmem, digest)
      in digest)"

section \<open>Key pairs\<close>

record key_pair =
  kp_pub :: bytes
  kp_priv :: bytes

text \<open>\<^verbatim>\<open>++((uint64_t *)priv)[1]\<close> and \<^verbatim>\<open>--((uint64_t *)priv)[2]\<close> on a little-endian machine.\<close>

definition next_priv :: "bytes \<Rightarrow> bytes" where
  "next_priv priv =
     (let priv = mem_write 8 (rev (be_enc 8 (be_dec (rev (sub 8 8 priv)) + 1 :: u64))) priv
      in mem_write 16 (rev (be_enc 8 (be_dec (rev (sub 16 8 priv)) - 1 :: u64))) priv)"

definition search_step :: "(key_pair \<Rightarrow> key_pair) \<Rightarrow> key_pair \<Rightarrow> key_pair" where
  "search_step calcPubDH kp = calcPubDH (kp\<lparr>kp_priv := next_priv (kp_priv kp)\<rparr>)"

partial_function (option) search_loop ::
  "(key_pair \<Rightarrow> key_pair) \<Rightarrow> (key_pair \<Rightarrow> bool) \<Rightarrow> key_pair \<Rightarrow> key_pair option" where
  "search_loop calcPubDH cond kp =
     (let kp = search_step calcPubDH kp in if cond kp then Some kp else search_loop calcPubDH cond kp)"

text \<open>\<open>start\<close> is the pair with the random private key and the uninitialised public key.\<close>

definition generateSatisfying ::
  "(key_pair \<Rightarrow> key_pair) \<Rightarrow> (key_pair \<Rightarrow> key_pair) \<Rightarrow> (key_pair \<Rightarrow> bool) \<Rightarrow> key_pair \<Rightarrow> key_pair option" where
  "generateSatisfying calcPubDH calcPubED cond start = search_loop calcPubDH cond (calcPubED start)"

text \<open>From here on \<open>H\<close> is the memory-hard hash, \<open>computeMemoryHardHash\<close> in the program.\<close>

definition Identity_generate_cond :: "(bytes \<Rightarrow> bytes) \<Rightarrow> key_pair \<Rightarrow> bool" where
  "Identity_generate_cond H kp \<longleftrightarrow>
     H (kp_pub kp) ! 0 < ZT_IDENTITY_GEN_HASHCASH_FIRST_BYTE_LESS_THAN"

section \<open>Identities\<close>

record identity =
  id_address :: address
  id_publicKey :: bytes
  id_privateKey :: "bytes option"

text \<open>
  \<^verbatim>\<open>Identity::generate\<close>, from the \<open>n\<close>-th random pair on. The digest that the search condition left
  behind is that of the pair returned; its last five bytes become the address.
\<close>

partial_function (option) generate_loop ::
  "(bytes \<Rightarrow> bytes) \<Rightarrow> (key_pair \<Rightarrow> key_pair) \<Rightarrow> (key_pair \<Rightarrow> key_pair) \<Rightarrow> (nat \<Rightarrow> key_pair) \<Rightarrow> nat \<Rightarrow> (address \<times> key_pair) option" where
  "generate_loop H calcPubDH calcPubED start n =
     (case generateSatisfying calcPubDH calcPubED (Identity_generate_cond H) (start n) of
        None \<Rightarrow> None
      | Some kp \<Rightarrow>
          (let a = Address_setTo (drop 59 (H (kp_pub kp))) in
           if Address_isReserved a then generate_loop H calcPubDH calcPubED start (n + 1) else Some (a, kp)))"

definition Identity_generate ::
  "(bytes \<Rightarrow> bytes) \<Rightarrow> (key_pair \<Rightarrow> key_pair) \<Rightarrow> (key_pair \<Rightarrow> key_pair) \<Rightarrow> (nat \<Rightarrow> key_pair) \<Rightarrow> identity option" where
  "Identity_generate H calcPubDH calcPubED start =
     (case generate_loop H calcPubDH calcPubED start 0 of
        None \<Rightarrow> None
      | Some (a, kp) \<Rightarrow> Some \<lparr>id_address = a, id_publicKey = kp_pub kp, id_privateKey = Some (kp_priv kp)\<rparr>)"

definition locallyValidate :: "(bytes \<Rightarrow> bytes) \<Rightarrow> identity \<Rightarrow> bool" where
  "locallyValidate H i =
     (if Address_isReserved (id_address i) then False
      else
        let digest = H (id_publicKey i); addrb = Address_copyTo (id_address i) (replicate 5 0)
        in digest ! 0 < ZT_IDENTITY_GEN_HASHCASH_FIRST_BYTE_LESS_THAN \<and> digest ! 59 = addrb ! 0
           \<and> digest ! 60 = addrb ! 1 \<and> digest ! 61 = addrb ! 2 \<and> digest ! 62 = addrb ! 3 \<and> digest ! 63 = addrb ! 4)"

definition agree :: "(bytes \<Rightarrow> bytes \<Rightarrow> nat \<Rightarrow> bytes) \<Rightarrow> identity \<Rightarrow> identity \<Rightarrow> nat \<Rightarrow> bytes option" where
  "agree dh mine theirs klen =
     (case id_privateKey mine of Some priv \<Rightarrow> Some (dh priv (id_publicKey theirs) klen) | None \<Rightarrow> None)"

definition Identity_eq :: "identity \<Rightarrow> identity \<Rightarrow> bool" where
  "Identity_eq i j \<longleftrightarrow> id_address i = id_address j \<and> id_publicKey i = id_publicKey j"

definition Identity_serialize :: "nat \<Rightarrow> bytes \<Rightarrow> bool \<Rightarrow> identity \<Rightarrow> bytes res" where
  "Identity_serialize C b includePrivate i =
     ebind (Address_appendTo (id_address i) C b) (\<lambda>b.
     ebind (bs_append C b [0]) (\<lambda>b.
     ebind (bs_append C b (id_publicKey i)) (\<lambda>b.
     case id_privateKey i of
       Some priv \<Rightarrow>
         if includePrivate then ebind (bs_append C b [of_nat (length priv)]) (\<lambda>b. bs_append C b priv)
         else bs_append C b [0]
     | None \<Rightarrow> bs_append C b [0])))"

definition Identity_deserialize :: "bytes \<Rightarrow> nat \<Rightarrow> (identity \<times> nat) res" where
  "Identity_deserialize b startAt =
     ebind (bs_field b startAt 5) (\<lambda>a.
     ebind (bs_get b (startAt + 5)) (\<lambda>t.
     if t \<noteq> 0 then Inl InvalidArg
     else
       ebind (bs_field b (startAt + 6) 64) (\<lambda>pub.
       ebind (bs_get b (startAt + 70)) (\<lambda>n.
       if n = 0 then Inr (\<lparr>id_address = Address_setTo a, id_publicKey = pub, id_privateKey = None\<rparr>, 71)
       else if n \<noteq> 64 then Inl InvalidArg
       else
         ebind (bs_field b (startAt + 71) 64) (\<lambda>priv.
         Inr (\<lparr>id_address = Address_setTo a, id_publicKey = pub, id_privateKey = Some priv\<rparr>, 135))))))"

section \<open>Text\<close>

text \<open>\<^verbatim>\<open>strtok_r\<close> with one delimiter, called until it returns null: the non-empty pieces.\<close>

function stok :: "byte \<Rightarrow> bytes \<Rightarrow> bytes list" where
  "stok d s =
     (let s = dropWhile (\<lambda>c. c = d) s in
      if s = [] then [] else takeWhile (\<lambda>c. c \<noteq> d) s # stok d (dropWhile (\<lambda>c. c \<noteq> d) s))"
  by pat_completeness auto
termination
proof (relation "measure (\<lambda>(d, s). length s)")
  fix d :: byte and s t :: bytes
  assume t: "t = dropWhile (\<lambda>c. c = d) s" "t \<noteq> []"
  then have "hd t \<noteq> d" by (metis (full_types) hd_dropWhile)
  with t(2) have "length (dropWhile (\<lambda>c. c \<noteq> d) t) < length t"
    by (cases t) (auto simp: le_imp_less_Suc length_dropWhile_le)
  moreover have "length t \<le> length s" unfolding t(1) by (rule length_dropWhile_le)
  ultimately show "((d, dropWhile (\<lambda>c. c \<noteq> d) t), d, s) \<in> measure (\<lambda>(d, s). length s)" by simp
qed simp

declare stok.simps [simp del]

text \<open>\<^verbatim>\<open>strtoull\<close> with base 16: white space, a sign, a prefix, digits; saturating, negated after a minus.\<close>

fun hex_digits :: "nat \<Rightarrow> bytes \<Rightarrow> nat" where
  "hex_digits n [] = n"
| "hex_digits n (c # s) = (case nibble c of Some v \<Rightarrow> hex_digits (16 * n + unat v) s | None \<Rightarrow> n)"

definition hexStrToU64 :: "bytes \<Rightarrow> u64" where
  "hexStrToU64 s =
     (let s = dropWhile (\<lambda>c. c = 32 \<or> 9 \<le> c \<and> c \<le> 13) s;
          neg = (s \<noteq> [] \<and> hd s = 45);
          s = (if s \<noteq> [] \<and> (hd s = 43 \<or> hd s = 45) then tl s else s);
          s = (if length s \<ge> 3 \<and> s ! 0 = 48 \<and> (s ! 1 = 120 \<or> s ! 1 = 88) \<and> nibble (s ! 2) \<noteq> None then drop 2 s else s);
          n = hex_digits 0 s
      in if n \<ge> 2 ^ 64 then 0xffffffffffffffff else if neg then - of_nat n else of_nat n)"

text \<open>\<^verbatim>\<open>Address::toString\<close> prints with \<^verbatim>\<open>%.10llx\<close>, the ten digits of an address of 40 bits.\<close>

definition Address_toString :: "address \<Rightarrow> bytes" where
  "Address_toString a = hex (Address_bytes a)"

definition Identity_toString :: "bool \<Rightarrow> identity \<Rightarrow> bytes" where
  "Identity_toString includePrivate i =
     Address_toString (id_address i) @ [58, 48, 58] @ hex (id_publicKey i) @
     (case id_privateKey i of Some priv \<Rightarrow> if includePrivate then 58 # hex priv else [] | None \<Rightarrow> [])"

text \<open>
  The loop over the fields: whether it ran to the end of the string, the number of fields seen and
  the identity. \<open>junk\<close> is the uninitialised private key.
\<close>

fun fromString_fields :: "bytes \<Rightarrow> nat \<Rightarrow> bytes list \<Rightarrow> identity \<Rightarrow> (bool \<times> nat \<times> identity) res" where
  "fromString_fields junk fno [] i = Inr (True, fno, i)"
| "fromString_fields junk fno (f # fs) i =
     (if fno = 0 then
        (let i = i\<lparr>id_address := Address_of (hexStrToU64 f)\<rparr> in
         if Address_isReserved (id_address i) then Inr (False, fno + 1, i) else fromString_fields junk (fno + 1) fs i)
      else if fno = 1 then
        (if f \<noteq> [48] then Inr (False, fno + 1, i) else fromString_fields junk (fno + 1) fs i)
      else if fno = 2 then
        ebind (unhex_buf (f @ [0]) (length f) (id_publicKey i) 64) (\<lambda>(l, pub).
        let i = i\<lparr>id_publicKey := pub\<rparr> in
        if l \<noteq> 64 then Inr (False, fno + 1, i) else fromString_fields junk (fno + 1) fs i)
      else if fno = 3 then
        ebind (unhex_buf (f @ [0]) (length f) junk 64) (\<lambda>(l, priv).
        let i = i\<lparr>id_privateKey := Some priv\<rparr> in
        if l \<noteq> 64 then Inr (False, fno + 1, i) else fromString_fields junk (fno + 1) fs i)
      else Inr (False, fno + 1, i))"

definition Identity_fromString :: "bytes \<Rightarrow> identity \<Rightarrow> bytes option \<Rightarrow> (bool \<times> identity) res" where
  "Identity_fromString junk i str =
     (case str of
        None \<Rightarrow> Inr (False, i)
      | Some s \<Rightarrow>
          if length s \<ge> 1024 then Inr (False, i)
          else
            ebind (fromString_fields junk 0 (stok 58 s) (i\<lparr>id_privateKey := None\<rparr>)) (\<lambda>(ok, fno, i).
            Inr (ok \<and> fno \<ge> 3, i)))"

section \<open>Round trips\<close>

text \<open>The identities that the constructors make: sizes of the arrays, an address of 40 bits.\<close>

definition identity_ok :: "identity \<Rightarrow> bool" where
  "identity_ok i \<longleftrightarrow> id_address i < 2 ^ 40 \<and> length (id_publicKey i) = 64
     \<and> (case id_privateKey i of Some priv \<Rightarrow> length priv = 64 | None \<Rightarrow> True)"

text \<open>What is left of an identity when its private key is not written.\<close>

definition written :: "bool \<Rightarrow> identity \<Rightarrow> identity" where
  "written includePrivate i = (if includePrivate then i else i\<lparr>id_privateKey := None\<rparr>)"

lemma address_40: "a < 2 ^ 40 \<Longrightarrow> take_bit 40 a = (a :: u64)"
  by (rule word_unat_eq_iff [THEN iffD2]) (simp add: unsigned_take_bit_eq word_less_nat_alt take_bit_nat_eq_self)

lemma Address_setTo_roundtrip: "a < 2 ^ 40 \<Longrightarrow> Address_setTo (Address_bytes a) = a"
  by (simp add: Address_setTo_bytes address_40)

lemma Identity_binary:
  assumes "identity_ok i" and "length b + 135 \<le> C"
  obtains w where "Identity_serialize C b p i = Inr (b @ w)" and "length w \<le> 135"
    and "\<And>rest. Identity_deserialize (b @ w @ rest) (length b) = Inr (written p i, length w)"
proof -
  define tail where "tail = (case id_privateKey i of Some priv \<Rightarrow> if p then 64 # priv else [0] | None \<Rightarrow> [0])"
  define w where "w = Address_bytes (id_address i) @ 0 # id_publicKey i @ tail"
  have "Identity_serialize C b p i = Inr (b @ w)"
    using assms by (cases "id_privateKey i")
      (auto simp: Identity_serialize_def Address_appendTo_def bs_append_def identity_ok_def w_def tail_def)
  moreover have "length w \<le> 135" using assms by (auto simp: w_def tail_def identity_ok_def split: option.splits)
  moreover have "Identity_deserialize (b @ w @ rest) (length b) = Inr (written p i, length w)" for rest
    using assms
    by (cases "id_privateKey i"; cases p)
      (auto simp: Identity_deserialize_def bs_field_def bs_get_def sub_def nth_append w_def tail_def written_def identity_ok_def
        Address_setTo_roundtrip)
  ultimately show thesis by (rule that)
qed

lemma HEXCHARS_length: "length HEXCHARS = 16"
  by (simp add: HEXCHARS_def)

lemma hex_chars: "set (hex ds) \<subseteq> set HEXCHARS"
proof (induction ds)
  case (Cons d ds)
  have "HEXCHARS ! unat (drop_bit 4 d) \<in> set HEXCHARS" "HEXCHARS ! unat (take_bit 4 d) \<in> set HEXCHARS"
    using unat_hi_less [of d] unat_lo_less [of d] nth_mem [of _ HEXCHARS] by (simp_all add: HEXCHARS_length)
  with Cons show ?case by (simp add: hex_Cons del: hex.simps(2))
qed simp

lemma hex_digits_hex: "of_nat (hex_digits n (hex ds)) = be_fold (of_nat n :: u64) ds \<and> hex_digits n (hex ds) < (n + 1) * 256 ^ length ds"
proof (induction ds arbitrary: n)
  case (Cons d ds)
  let ?n = "16 * (16 * n + unat (drop_bit 4 d)) + unat (take_bit 4 d)"
  have d: "16 * unat (drop_bit 4 d) + unat (take_bit 4 d) = unat d"
  proof -
    have "unat (drop_bit 4 d) = unat d div 16" by (simp add: drop_bit_eq_div unat_div)
    moreover have "unat (take_bit 4 d) = unat d mod 16"
      by (subst unsigned_take_bit_eq) (simp add: take_bit_eq_mod)
    ultimately show ?thesis by simp
  qed
  then have n: "?n = 256 * n + unat d" by simp
  have "hex_digits n (hex (d # ds)) = hex_digits ?n (hex ds)"
    by (simp add: hex_Cons nibble_hi nibble_lo del: hex.simps(2))
  moreover have "(of_nat ?n :: u64) = push_bit 8 (of_nat n) OR ucast d"
  proof -
    have "push_bit 8 (of_nat n) AND ucast d = (0 :: u64)" by (rule bit_word_eqI) (auto simp: bit_simps dest: bit_byte_less)
    then have "push_bit 8 (of_nat n) OR ucast d = (push_bit 8 (of_nat n) + ucast d :: u64)" by (simp add: disjunctive_add_eq_or)
    then show ?thesis unfolding n by (simp add: push_bit_eq_mult)
  qed
  moreover have "(?n + 1) * 256 ^ length ds \<le> (n + 1) * 256 ^ length (d # ds)"
  proof -
    have "?n + 1 \<le> (n + 1) * 256" using n unsigned_less [of d, where 'a = nat] by simp
    from mult_le_mono1 [OF this, of "256 ^ length ds"] show ?thesis
      by (simp only: length_Cons power_Suc mult.assoc)
  qed
  ultimately show ?case using Cons.IH [of ?n] by (simp add: order_less_le_trans)
qed simp

lemma hexStrToU64_address:
  assumes "a < 2 ^ 40"
  shows "Address_of (hexStrToU64 (Address_toString a)) = a"
proof -
  define t where "t = Address_toString a"
  have t: "length t = 10" "set t \<subseteq> set HEXCHARS" by (simp_all add: t_def Address_toString_def hex_chars)
  then have e: "t \<noteq> []" by auto
  then have e: "t \<noteq> []" "t ! 1 \<in> set HEXCHARS" "hd t \<in> set HEXCHARS"
    using t hd_in_set [OF e] nth_mem [of 1 t] by auto
  have "dropWhile (\<lambda>c. c = 32 \<or> 9 \<le> c \<and> c \<le> 13) t = t" "hd t \<noteq> 43" "hd t \<noteq> 45" "t ! 1 \<noteq> 120" "t ! 1 \<noteq> 88"
    using e by (cases t; auto simp: HEXCHARS_def)+
  then have "hexStrToU64 t = (if hex_digits 0 t \<ge> 2 ^ 64 then 0xffffffffffffffff else of_nat (hex_digits 0 t))"
    by (simp add: hexStrToU64_def Let_def)
  moreover have d: "of_nat (hex_digits 0 t) = (be_dec (Address_bytes a) :: u64)" "hex_digits 0 t < 256 ^ 5"
    using hex_digits_hex [of 0 "Address_bytes a"] by (simp_all add: t_def Address_toString_def be_dec_def)
  moreover have "Address_of (be_dec (Address_bytes a)) = a"
    using assms by (simp add: Address_bytes_be_enc be_dec_enc Address_of_def and_40 address_40 del: be_enc_numeral)
  ultimately show ?thesis by (simp add: t_def)
qed

lemma stok_last: "t \<noteq> [] \<Longrightarrow> d \<notin> set t \<Longrightarrow> stok d t = [t]"
proof -
  assume t: "t \<noteq> []" "d \<notin> set t"
  have "dropWhile (\<lambda>c. c = d) t = t" using t by (cases t) auto
  moreover have "takeWhile (\<lambda>c. c \<noteq> d) t = t" "dropWhile (\<lambda>c. c \<noteq> d) t = []" using t(2) by (auto simp: takeWhile_eq_all_conv)
  moreover have "stok d [] = []" by (subst stok.simps) simp
  ultimately show ?thesis using t(1) unfolding stok.simps [of d t] Let_def by (simp only: if_False)
qed

lemma stok_delim: "t \<noteq> [] \<Longrightarrow> d \<notin> set t \<Longrightarrow> stok d (t @ d # s) = t # stok d s"
proof -
  assume t: "t \<noteq> []" "d \<notin> set t"
  have "dropWhile (\<lambda>c. c = d) (t @ d # s) = t @ d # s" using t by (cases t) auto
  moreover have "takeWhile (\<lambda>c. c \<noteq> d) (t @ d # s) = t" "dropWhile (\<lambda>c. c \<noteq> d) (t @ d # s) = d # s"
    using t(2) by (auto simp: takeWhile_append dropWhile_append)
  moreover have "stok d (d # s) = stok d s" by (subst (1 2) stok.simps) simp
  ultimately show ?thesis using t(1) by (subst stok.simps) simp
qed

lemma unhex_buf_hex:
  assumes "length ds = 64" and "length buf = 64"
  shows "unhex_buf (hex ds @ [0]) 128 buf 64 = Inr (64, ds)"
  using unhex_buf_loop_eq [OF unhex_loop_hex [of ds "length (hex ds)" 0 "[]" "[]"], of 64 buf] assms
  by (simp add: unhex_buf_def mem_write_def)

lemma Identity_text:
  assumes "identity_ok i" and "\<not> Address_isReserved (id_address i)" and "length junk = 64" and "length (id_publicKey j) = 64"
  shows "Identity_fromString junk j (Some (Identity_toString p i)) = Inr (True, written p i)"
proof -
  define a where "a = Address_toString (id_address i)"
  have ne: "a \<noteq> []" "length a = 10" "58 \<notin> set a"
    using hex_chars [of "Address_bytes (id_address i)"]
    by (auto simp: a_def Address_toString_def HEXCHARS_def subset_iff simp flip: length_greater_0_conv)
  have h: "58 \<notin> set (hex ds)" for ds using hex_chars [of ds] by (auto simp: HEXCHARS_def subset_iff)
  have hne: "hex ds \<noteq> []" if "length ds = 64" for ds using that by (simp flip: length_greater_0_conv)
  have tok: "stok 58 (a @ 58 # 48 # 58 # x) = a # [48] # stok 58 x" for x
    using ne stok_delim [of a 58 "48 # 58 # x"] stok_delim [of "[48]" 58 x] by simp
  have addr: "Address_of (hexStrToU64 a) = id_address i"
    using assms(1) by (simp add: a_def hexStrToU64_address identity_ok_def)
  have pub: "length (id_publicKey i) = 64" using assms(1) by (simp add: identity_ok_def)
  show ?thesis
  proof (cases "id_privateKey i")
    case None
    then show ?thesis
      using assms pub
      by (simp add: Identity_fromString_def Identity_toString_def tok stok_last hne h addr unhex_buf_hex ne written_def
          flip: a_def)
  next
    case (Some priv)
    then have "length priv = 64" using assms(1) by (simp add: identity_ok_def)
    with Some show ?thesis
      using assms pub
      by (cases p) (simp_all add: Identity_fromString_def Identity_toString_def tok stok_last stok_delim hne h addr
          unhex_buf_hex ne written_def flip: a_def)
  qed
qed

text \<open>
  C20. An identity survives being written and read: in binary form it takes at most 135 bytes and the
  number of bytes read is the number written; as text, provided that its address is not reserved.
  The private key comes back exactly if it was asked for.
\<close>

theorem Identity_roundtrip:
  assumes "identity_ok i" and "length b + 135 \<le> C" and "length junk = 64" and "identity_ok j"
  shows "(\<exists>w. Identity_serialize C b p i = Inr (b @ w) \<and> length w \<le> 135
      \<and> (\<forall>rest. Identity_deserialize (b @ w @ rest) (length b) = Inr (written p i, length w)))
    \<and> (\<not> Address_isReserved (id_address i) \<longrightarrow>
      Identity_fromString junk j (Some (Identity_toString p i)) = Inr (True, written p i))"
  using Identity_binary [OF assms(1,2), of p] Identity_text [OF assms(1) _ assms(3), of j p] assms(4)
  unfolding identity_ok_def by metis

theorem Identity_roundtrip_witness:
  "Identity_fromString (replicate 64 1) \<lparr>id_address = 0, id_publicKey = replicate 64 0, id_privateKey = None\<rparr>
     (Some (Identity_toString True \<lparr>id_address = 0x8056c2e21c, id_publicKey = replicate 64 5, id_privateKey = Some (replicate 64 6)\<rparr>))
   = Inr (True, \<lparr>id_address = 0x8056c2e21c, id_publicKey = replicate 64 5, id_privateKey = Some (replicate 64 6)\<rparr>)"
  using Identity_roundtrip [of "\<lparr>id_address = 0x8056c2e21c, id_publicKey = replicate 64 5, id_privateKey = Some (replicate 64 6)\<rparr>"
      "[]" 200 "replicate 64 1" "\<lparr>id_address = 0, id_publicKey = replicate 64 0, id_privateKey = None\<rparr>" True]
  by (simp add: identity_ok_def written_def Address_isReserved_def)

section \<open>Generating identities\<close>

lemma search_loop_sound:
  assumes "search_loop f cond kp = Some kp'"
  shows "cond kp' \<and> (\<exists>k. kp' = (search_step f ^^ Suc k) kp)"
proof (rule search_loop.raw_induct [OF _ assms])
  fix loop f cond kp kp'
  assume IH: "\<And>f cond kp kp'. loop f cond kp = Some kp' \<Longrightarrow> cond kp' \<and> (\<exists>k. kp' = (search_step f ^^ Suc k) kp)"
    and step: "(let kp = search_step f kp in if cond kp then Some kp else loop f cond kp) = Some kp'"
  show "cond kp' \<and> (\<exists>k. kp' = (search_step f ^^ Suc k) kp)"
  proof (cases "cond (search_step f kp)")
    case True
    with step have "cond kp' \<and> kp' = (search_step f ^^ Suc 0) kp" by (auto simp: Let_def)
    then show ?thesis by blast
  next
    case False
    with step have "loop f cond (search_step f kp) = Some kp'" by (simp add: Let_def)
    from IH [OF this] obtain k where "cond kp'" "kp' = (search_step f ^^ Suc k) (search_step f kp)" by blast
    then have "cond kp' \<and> kp' = (search_step f ^^ Suc (Suc k)) kp" by (simp add: funpow_swap1)
    then show ?thesis by blast
  qed
qed

lemma search_loop_ends: "cond ((search_step f ^^ Suc k) kp) \<Longrightarrow> \<exists>kp'. search_loop f cond kp = Some kp'"
proof (induction k arbitrary: kp)
  case 0
  then show ?case by (subst search_loop.simps) (simp add: Let_def)
next
  case (Suc k)
  then have "cond ((search_step f ^^ Suc k) (search_step f kp))" by (simp add: funpow_swap1)
  from Suc.IH [OF this] show ?case by (subst search_loop.simps) (auto simp: Let_def)
qed

text \<open>The \<open>k\<close>-th pair that the search from the \<open>n\<close>-th random pair tries, and the address it would give.\<close>

definition candidate :: "(key_pair \<Rightarrow> key_pair) \<Rightarrow> (key_pair \<Rightarrow> key_pair) \<Rightarrow> (nat \<Rightarrow> key_pair) \<Rightarrow> nat \<Rightarrow> nat \<Rightarrow> key_pair" where
  "candidate calcPubDH calcPubED start n k = (search_step calcPubDH ^^ Suc k) (calcPubED (start n))"

definition hash_address :: "(bytes \<Rightarrow> bytes) \<Rightarrow> key_pair \<Rightarrow> address" where
  "hash_address H kp = Address_setTo (drop 59 (H (kp_pub kp)))"

lemma generate_loop_sound:
  assumes "generate_loop H f g start n = Some r"
  shows "Identity_generate_cond H (snd r) \<and> fst r = hash_address H (snd r) \<and> \<not> Address_isReserved (fst r)"
proof (rule generate_loop.raw_induct [OF _ assms])
  fix loop H f g start n r
  assume IH: "\<And>H f g start n r. loop H f g start n = Some r \<Longrightarrow>
      Identity_generate_cond H (snd r) \<and> fst r = hash_address H (snd r) \<and> \<not> Address_isReserved (fst r)"
    and step: "(case generateSatisfying f g (Identity_generate_cond H) (start n) of None \<Rightarrow> None
      | Some kp \<Rightarrow> let a = Address_setTo (drop 59 (H (kp_pub kp))) in
          if Address_isReserved a then loop H f g start (n + 1) else Some (a, kp)) = Some r"
  obtain kp where kp: "generateSatisfying f g (Identity_generate_cond H) (start n) = Some kp"
    using step by (auto split: option.splits)
  show "Identity_generate_cond H (snd r) \<and> fst r = hash_address H (snd r) \<and> \<not> Address_isReserved (fst r)"
  proof (cases "Address_isReserved (hash_address H kp)")
    case True
    then have "loop H f g start (n + 1) = Some r" using step kp by (simp add: hash_address_def)
    then show ?thesis by (rule IH)
  next
    case False
    moreover have "Identity_generate_cond H kp"
      using kp search_loop_sound by (auto simp: generateSatisfying_def)
    ultimately show ?thesis using step kp by (auto simp: hash_address_def)
  qed
qed

lemma generate_loop_ends:
  assumes "\<And>m. m \<le> n \<Longrightarrow> \<exists>k. Identity_generate_cond H (candidate f g start m k)"
    and "\<And>k. Identity_generate_cond H (candidate f g start n k) \<Longrightarrow> \<not> Address_isReserved (hash_address H (candidate f g start n k))"
  shows "m \<le> n \<Longrightarrow> \<exists>r. generate_loop H f g start m = Some r"
proof (induction "n - m" arbitrary: m)
  case hit: 0
  then have "m = n" by simp
  obtain kp where kp: "generateSatisfying f g (Identity_generate_cond H) (start m) = Some kp"
    using assms(1) [of m] hit search_loop_ends unfolding generateSatisfying_def candidate_def by blast
  then have "\<exists>k. kp = candidate f g start n k" "Identity_generate_cond H kp"
    using search_loop_sound [of f _ "g (start m)" kp] \<open>m = n\<close> unfolding generateSatisfying_def candidate_def by blast+
  then have "\<not> Address_isReserved (hash_address H kp)" using assms(2) by blast
  with kp show ?case by (subst generate_loop.simps) (simp add: hash_address_def)
next
  case (Suc d)
  obtain kp where kp: "generateSatisfying f g (Identity_generate_cond H) (start m) = Some kp"
    using assms(1) [of m] Suc.prems search_loop_ends unfolding generateSatisfying_def candidate_def by blast
  have "d = n - (m + 1)" "m + 1 \<le> n" using Suc.hyps(2) by simp_all
  with Suc.hyps(1) obtain r where "generate_loop H f g start (m + 1) = Some r" by blast
  with kp show ?case by (subst generate_loop.simps) (auto simp: Let_def)
qed

lemma generated_validates:
  assumes "Identity_generate H f g start = Some i" and "\<And>k. length (H k) = 64"
  shows "locallyValidate H i"
proof -
  obtain kp where kp: "Identity_generate_cond H kp" "\<not> Address_isReserved (hash_address H kp)"
    "i = \<lparr>id_address = hash_address H kp, id_publicKey = kp_pub kp, id_privateKey = Some (kp_priv kp)\<rparr>"
    using assms(1) generate_loop_sound [of H f g start 0] by (fastforce simp: Identity_generate_def split: option.splits)
  define d where "d = H (kp_pub kp)"
  have l: "length d = 64" by (simp add: d_def assms(2))
  have "take 5 (drop 59 d) = drop 59 d" using l by simp
  then have "Address_bytes (hash_address H kp) = drop 59 d"
    using be_enc_dec [of "drop 59 d", where 'a = 64] l
    by (simp add: hash_address_def Address_setTo_be_dec Address_bytes_be_enc del: be_enc_numeral flip: d_def)
  then have "Address_copyTo (hash_address H kp) (replicate 5 0) = drop 59 d"
    using l by (simp add: Address_copyTo_def mem_write_def)
  then show ?thesis
    using kp l by (simp add: locallyValidate_def Let_def Identity_generate_cond_def flip: d_def)
qed

text \<open>
  C19. Every identity that \<^verbatim>\<open>generate\<close> returns passes \<^verbatim>\<open>locallyValidate\<close> and has a private key; and the
  two nested searches do return, whenever each random start up to some \<open>n\<close> leads to a pair that meets
  the hash condition and no such pair of the \<open>n\<close>-th start has a reserved address.
\<close>

theorem Identity_generate_correct:
  assumes "\<forall>k. length (H k) = 64"
    and "\<forall>m \<le> n. \<exists>k. Identity_generate_cond H (candidate f g start m k)"
    and "\<forall>k. Identity_generate_cond H (candidate f g start n k)
      \<longrightarrow> \<not> Address_isReserved (hash_address H (candidate f g start n k))"
  shows "\<exists>i. Identity_generate H f g start = Some i \<and> locallyValidate H i \<and> id_privateKey i \<noteq> None"
proof -
  obtain r where "generate_loop H f g start 0 = Some r" using generate_loop_ends [of n H f g start 0] assms by blast
  then obtain i where i: "Identity_generate H f g start = Some i" "id_privateKey i \<noteq> None"
    by (cases r) (simp add: Identity_generate_def)
  with generated_validates [OF i(1)] assms(1) show ?thesis by blast
qed

lemma next_priv_keeps: "length p = 64 \<Longrightarrow> length (next_priv p) = 64 \<and> next_priv p ! 0 = p ! 0"
  by (simp add: next_priv_def Let_def mem_write_def nth_append del: be_enc_numeral)

theorem Identity_generate_correct_witness:
  "\<exists>i. Identity_generate (\<lambda>k. replicate 64 (k ! 0)) (\<lambda>kp. kp\<lparr>kp_pub := kp_priv kp\<rparr>) id (\<lambda>n. \<lparr>kp_pub = [], kp_priv = replicate 64 1\<rparr>) = Some i
    \<and> locallyValidate (\<lambda>k. replicate 64 (k ! 0)) i \<and> id_privateKey i \<noteq> None"
proof (rule Identity_generate_correct [of _ 0])
  let ?c = "candidate (\<lambda>kp. kp\<lparr>kp_pub := kp_priv kp\<rparr>) id (\<lambda>n. \<lparr>kp_pub = [], kp_priv = replicate 64 1\<rparr>)"
  have c: "length (kp_priv (?c n k)) = 64 \<and> kp_pub (?c n k) ! 0 = 1 \<and> kp_priv (?c n k) ! 0 = 1" for n k
    by (induction k) (simp_all add: candidate_def search_step_def next_priv_keeps)
  show "\<forall>m \<le> 0. \<exists>k. Identity_generate_cond (\<lambda>k. replicate 64 (k ! 0)) (?c m k)"
    by (simp add: Identity_generate_cond_def c)
  show "\<forall>k. Identity_generate_cond (\<lambda>k. replicate 64 (k ! 0)) (?c 0 k)
      \<longrightarrow> \<not> Address_isReserved (hash_address (\<lambda>k. replicate 64 (k ! 0)) (?c 0 k))"
    by (simp add: hash_address_def c Address_setTo_def Address_isReserved_def)
qed simp

text \<open>The hash of the program meets the hypothesis on \<open>H\<close>: it has 64 bytes.\<close>

lemma genmem_fill_length:
  assumes "length s20 = 16" and "i + 64 \<le> length genmem" and "genmem_fill i (s20, genmem) = (s, g)"
  shows "length s = 16 \<and> length g = length genmem"
proof -
  define g' where "g' = mem_write i (sub (i - 64) 64 genmem) genmem"
  have l: "length g' = length genmem" using assms(2) by (simp add: g'_def sub_def)
  obtain s' out where c: "salsa20 s20 (sub i 64 g') = (s', out)" by fastforce
  have "length s' = 16" "length out = 64"
    using s20.crypt_invar [OF assms(1), of "replicate 64 0" "sub i 64 g'"]
      s20.crypt_length [OF assms(1), of "replicate 64 0" "sub i 64 g'"] c assms(2) l by (simp_all add: sub_def)
  with assms c l show ?thesis by (auto simp: g'_def [symmetric])
qed

lemma digest_render_length:
  assumes "length s20 = 16" and "length genmem = ZT_IDENTITY_GEN_MEMORY" and "length digest = 64"
    and "digest_render i (s20, genmem, digest) = (s, g, d)"
  shows "length s = 16 \<and> length g = ZT_IDENTITY_GEN_MEMORY \<and> length d = 64"
proof -
  define idx1 where "idx1 = unat (be_dec (sub (8 * i) 8 genmem) :: u64) mod 8"
  define idx2 where "idx2 = unat (be_dec (sub (8 * (i + 1)) 8 genmem) :: u64) mod (ZT_IDENTITY_GEN_MEMORY div 8)"
  have "idx2 < ZT_IDENTITY_GEN_MEMORY div 8" unfolding idx2_def by (rule mod_less_divisor) (simp add: ZT_IDENTITY_GEN_MEMORY_def)
  then have i: "8 * idx2 + 8 \<le> ZT_IDENTITY_GEN_MEMORY" "8 * idx1 + 8 \<le> 64"
    by (simp_all add: idx1_def ZT_IDENTITY_GEN_MEMORY_def)
  define d' where "d' = mem_write (8 * idx1) (sub (8 * idx2) 8 genmem) digest"
  have d': "length d' = 64" using assms(2,3) i by (simp add: d'_def sub_def)
  obtain s' out where c: "salsa20 s20 d' = (s', out)" by fastforce
  have "length s' = 16" "length out = 64"
    using s20.crypt_invar [OF assms(1), of "replicate 64 0" d'] s20.crypt_length [OF assms(1), of "replicate 64 0" d'] c d'
    by simp_all
  moreover have "s = s'" "d = out" "g = mem_write (8 * idx2) (sub (8 * idx1) 8 digest) genmem"
    using assms(4) unfolding digest_render.simps Let_def idx1_def [symmetric] idx2_def [symmetric] d'_def [symmetric] c
    by simp_all
  ultimately show ?thesis using assms(2,3) i by (simp add: sub_def)
qed

lemma length_sha512: "length (SHA512_hash junk msg) = 64"
proof -
  have "length (store_state v) = 64" for v by (cases v rule: store_state.cases) simp
  then show ?thesis by (simp add: SHA512_hash_def crypto_hashblocks_def Let_def)
qed

lemma fold_invar: "(\<And>x s. x \<in> set xs \<Longrightarrow> P s \<Longrightarrow> P (f x s)) \<Longrightarrow> P s \<Longrightarrow> P (fold f xs s)"
  by (induction xs arbitrary: s) auto

lemma computeMemoryHardHash_length: "length (computeMemoryHardHash k) = 64"
proof -
  define n where "n = ZT_IDENTITY_GEN_MEMORY"
  have n: "64 \<le> n" "n div 64 * 64 = n" by (simp_all add: n_def ZT_IDENTITY_GEN_MEMORY_def)
  define s0 where "s0 = Salsa20_init (sha512 k) 256 (drop 32 (sha512 k))"
  obtain s1 out where c: "salsa20 s0 (take 64 (replicate n 0)) = (s1, out)" by fastforce
  have s1: "length s1 = 16" "length out = 64"
    using s20.crypt_invar [of s0 "replicate 64 0" "take 64 (replicate n 0)"]
      s20.crypt_length [of s0 "replicate 64 0" "take 64 (replicate n 0)"] c n by (simp_all add: s0_def)
  define g1 where "g1 = mem_write 0 out (replicate n 0)"
  obtain s2 g2 where f: "fold genmem_fill (map ((*) 64) [1..<n div 64]) (s1, g1) = (s2, g2)" by fastforce
  note f' = f [unfolded One_nat_def]
  have "case fold genmem_fill (map ((*) 64) [1..<n div 64]) (s1, g1) of (s, g) \<Rightarrow> length s = 16 \<and> length g = n"
  proof (rule fold_invar)
    fix i and sg :: "u32 list \<times> bytes"
    assume i: "i \<in> set (map ((*) 64) [1..<n div 64])" and sg: "case sg of (s, g) \<Rightarrow> length s = 16 \<and> length g = n"
    then have "i + 64 \<le> n" using n by auto
    with sg show "case genmem_fill i sg of (s, g) \<Rightarrow> length s = 16 \<and> length g = n"
      by (cases sg; cases "genmem_fill i sg") (auto dest!: genmem_fill_length [rotated 2] simp del: genmem_fill.simps)
  qed (use s1 n in \<open>simp add: g1_def\<close>)
  then have s2: "length s2 = 16" "length g2 = n" by (simp_all add: f')
  have "case fold digest_render xs (s2, g2, sha512 k) of (s, g, d) \<Rightarrow> length s = 16 \<and> length g = n \<and> length d = 64" for xs
  proof (rule fold_invar)
    fix i and t :: "u32 list \<times> bytes \<times> bytes"
    assume "case t of (s, g, d) \<Rightarrow> length s = 16 \<and> length g = n \<and> length d = 64"
    then show "case digest_render i t of (s, g, d) \<Rightarrow> length s = 16 \<and> length g = n \<and> length d = 64"
      by (cases t; cases "digest_render i t") (auto dest!: digest_render_length [rotated 3] simp: n_def simp del: digest_render.simps)
  qed (use s2 in \<open>simp add: length_sha512\<close>)
  from this [of "map ((*) 2) [0..<n div 16]"] show ?thesis
    unfolding computeMemoryHardHash_def Let_def n_def [symmetric] s0_def [symmetric] c prod.case g1_def [symmetric] f
    by (auto split: prod.splits)
qed

end
