(* ===== verification/Peer.thy ===== *)
theory Peer
  imports Packet Path Identity
begin

text \<open>
  A remote node: \<^verbatim>\<open>zto/node/Peer.hpp\<close> and \<^verbatim>\<open>Peer.cpp\<close> in the build without \<^verbatim>\<open>ZT_ENABLE_CLUSTER\<close>. Paths are
  shared objects in the code; here they are numbers, and \<open>h\<close> is the heap that maps them to \<open>path\<close>
  records. What the peer asks of the rest of the node comes back as a list of effects. An operation
  that can throw returns the exception next to the state and the effects up to it.
\<close>

section \<open>Environment and effects\<close>

text \<open>
  \<open>ne_raw n\<close> and \<open>ne_iv n\<close> are the uninitialised memory and the random bytes of the \<open>n\<close>-th packet made
  in a call, \<open>ne_prng n\<close> the \<open>n\<close>-th number of \<^verbatim>\<open>Node::prng\<close>; \<open>ne_put\<close> is whether the transport takes a
  packet, \<open>ne_usable\<close> is \<^verbatim>\<open>Node::shouldUsePathForZeroTierTraffic\<close>.
\<close>

record node_env =
  ne_self :: identity
  ne_raw :: "nat \<Rightarrow> bytes"
  ne_iv :: "nat \<Rightarrow> bytes"
  ne_prng :: "nat \<Rightarrow> u64"
  ne_put :: "inet \<Rightarrow> inet \<Rightarrow> packet \<Rightarrow> bool"
  ne_usable :: "address \<Rightarrow> inet \<Rightarrow> inet \<Rightarrow> bool"
  ne_pathLookup :: "address \<Rightarrow> inet option"
  ne_directPaths :: "inet list"
  ne_symPredictions :: "inet list"
  ne_planetWorldId :: u64
  ne_planetWorldTimestamp :: u64
  ne_moons :: "(byte \<times> u64 \<times> u64) list"
  ne_moonsWanted :: "u64 list"
  ne_cor :: bytes

datatype effect =
    ExpectReply u64
  | PutPacket inet inet packet
  | SwitchSend packet bool

abbreviation (input) VERB_HELLO :: byte where "VERB_HELLO \<equiv> 0x01"
abbreviation (input) VERB_OK :: byte where "VERB_OK \<equiv> 0x03"
abbreviation (input) VERB_WHOIS :: byte where "VERB_WHOIS \<equiv> 0x04"
abbreviation (input) VERB_RENDEZVOUS :: byte where "VERB_RENDEZVOUS \<equiv> 0x05"
abbreviation (input) VERB_FRAME :: byte where "VERB_FRAME \<equiv> 0x06"
abbreviation (input) VERB_EXT_FRAME :: byte where "VERB_EXT_FRAME \<equiv> 0x07"
abbreviation (input) VERB_ECHO :: byte where "VERB_ECHO \<equiv> 0x08"
abbreviation (input) VERB_NETWORK_CONFIG_REQUEST :: byte where "VERB_NETWORK_CONFIG_REQUEST \<equiv> 0x0b"
abbreviation (input) VERB_NETWORK_CONFIG :: byte where "VERB_NETWORK_CONFIG \<equiv> 0x0c"
abbreviation (input) VERB_MULTICAST_FRAME :: byte where "VERB_MULTICAST_FRAME \<equiv> 0x0e"
abbreviation (input) VERB_PUSH_DIRECT_PATHS :: byte where "VERB_PUSH_DIRECT_PATHS \<equiv> 0x10"

abbreviation (input) ZT_PEER_PING_PERIOD :: u64 where "ZT_PEER_PING_PERIOD \<equiv> 60000"
abbreviation (input) ZT_PEER_PATH_EXPIRATION :: u64 where "ZT_PEER_PATH_EXPIRATION \<equiv> 243000"
abbreviation (input) ZT_PEER_ACTIVITY_TIMEOUT :: u64 where "ZT_PEER_ACTIVITY_TIMEOUT \<equiv> 500000"
abbreviation (input) ZT_MAX_PEER_NETWORK_PATHS :: nat where "ZT_MAX_PEER_NETWORK_PATHS \<equiv> 4"
abbreviation (input) ZT_TRY_MEMORIZED_PATH_INTERVAL :: u64 where "ZT_TRY_MEMORIZED_PATH_INTERVAL \<equiv> 30000"
abbreviation (input) ZT_DIRECT_PATH_PUSH_INTERVAL :: u64 where "ZT_DIRECT_PATH_PUSH_INTERVAL \<equiv> 120000"
abbreviation (input) ZT_PUSH_DIRECT_PATHS_CUTOFF_TIME :: u64 where "ZT_PUSH_DIRECT_PATHS_CUTOFF_TIME \<equiv> 60000"
abbreviation (input) ZT_PUSH_DIRECT_PATHS_CUTOFF_LIMIT :: nat where "ZT_PUSH_DIRECT_PATHS_CUTOFF_LIMIT \<equiv> 5"
abbreviation (input) ZT_PUSH_DIRECT_PATHS_MAX_PER_SCOPE_AND_FAMILY :: nat where
  "ZT_PUSH_DIRECT_PATHS_MAX_PER_SCOPE_AND_FAMILY \<equiv> 4"
abbreviation (input) ZT_PEER_CREDENTIALS_CUTOFF_TIME :: u64 where "ZT_PEER_CREDENTIALS_CUTOFF_TIME \<equiv> 60000"
abbreviation (input) ZT_PEER_CREDEITIALS_CUTOFF_LIMIT :: nat where "ZT_PEER_CREDEITIALS_CUTOFF_LIMIT \<equiv> 15"
abbreviation (input) ZT_PEER_WHOIS_RATE_LIMIT :: u64 where "ZT_PEER_WHOIS_RATE_LIMIT \<equiv> 100"
abbreviation (input) ZT_PEER_GENERAL_RATE_LIMIT :: u64 where "ZT_PEER_GENERAL_RATE_LIMIT \<equiv> 1000"

section \<open>State\<close>

type_synonym pathref = nat
type_synonym path_heap = "pathref \<Rightarrow> path"

record peer_path =
  pp_lastReceive :: u64
  pp_path :: pathref

record peer =
  pe_key :: bytes
  pe_lastReceive :: u64
  pe_lastNontrivialReceive :: u64
  pe_lastTriedMemorizedPath :: u64
  pe_lastDirectPathPushSent :: u64
  pe_lastDirectPathPushReceive :: u64
  pe_lastCredentialRequestSent :: u64
  pe_lastWhoisRequestReceived :: u64
  pe_lastEchoRequestReceived :: u64
  pe_lastComRequestReceived :: u64
  pe_lastComRequestSent :: u64
  pe_lastCredentialsReceived :: u64
  pe_lastTrustEstablishedPacketReceived :: u64
  pe_remoteClusterOptimal6 :: bytes
  pe_remoteClusterOptimal4 :: u32
  pe_vProto :: u16
  pe_vMajor :: u16
  pe_vMinor :: u16
  pe_vRevision :: u16
  pe_id :: identity
  pe_paths :: "peer_path list"
  pe_latency :: nat
  pe_directPathPushCutoffCount :: nat
  pe_credentialsCutoffCount :: nat

text \<open>\<open>dh\<close> is the key agreement of \<^verbatim>\<open>C25519.cpp\<close>.\<close>

definition Peer_make :: "(bytes \<Rightarrow> bytes \<Rightarrow> nat \<Rightarrow> bytes) \<Rightarrow> identity \<Rightarrow> identity \<Rightarrow> peer res" where
  "Peer_make dh myIdentity peerIdentity =
     (case agree dh myIdentity peerIdentity 32 of
        None \<Rightarrow> Inl RuntimeError
      | Some key \<Rightarrow> Inr
          \<lparr>pe_key = key, pe_lastReceive = 0, pe_lastNontrivialReceive = 0, pe_lastTriedMemorizedPath = 0,
           pe_lastDirectPathPushSent = 0, pe_lastDirectPathPushReceive = 0, pe_lastCredentialRequestSent = 0,
           pe_lastWhoisRequestReceived = 0, pe_lastEchoRequestReceived = 0, pe_lastComRequestReceived = 0,
           pe_lastComRequestSent = 0, pe_lastCredentialsReceived = 0, pe_lastTrustEstablishedPacketReceived = 0,
           pe_remoteClusterOptimal6 = replicate 16 0, pe_remoteClusterOptimal4 = 0,
           pe_vProto = 0, pe_vMajor = 0, pe_vMinor = 0, pe_vRevision = 0, pe_id = peerIdentity, pe_paths = [],
           pe_latency = 0, pe_directPathPushCutoffCount = 0, pe_credentialsCutoffCount = 0\<rparr>)"

section \<open>Choosing a path\<close>

definition pathScore :: "path_heap \<Rightarrow> peer \<Rightarrow> peer_path \<Rightarrow> u64 \<Rightarrow> u64" where
  "pathScore h pe pp now =
     (let p = h (pp_path pp);
          s = ZT_PEER_PING_PERIOD + pp_lastReceive pp + of_nat (preferenceRank p * 4000);
          s = (case p_addr p of
                 Inet4 ip _ \<Rightarrow> s + (if ip = pe_remoteClusterOptimal4 pe then ZT_PEER_PING_PERIOD else 0)
               | Inet6 ip _ _ _ \<Rightarrow> s + (if s6_addr ip = pe_remoteClusterOptimal6 pe then ZT_PEER_PING_PERIOD else 0)
               | Inet_null \<Rightarrow> s)
      in s + (if Path_alive p now then 30000 else 0))"

text \<open>
  The loop that the four choices share: the index of the last path with the highest score among
  those that satisfy the condition.
\<close>

fun best_loop :: "(peer_path \<Rightarrow> bool) \<Rightarrow> (peer_path \<Rightarrow> u64) \<Rightarrow> peer_path list \<Rightarrow> nat \<Rightarrow> nat option \<Rightarrow> u64 \<Rightarrow> nat option" where
  "best_loop ok score [] p bestp best = bestp"
| "best_loop ok score (x # xs) p bestp best =
     (if ok x \<and> score x \<ge> best then best_loop ok score xs (p + 1) (Some p) (score x)
      else best_loop ok score xs (p + 1) bestp best)"

definition unexpired :: "u64 \<Rightarrow> peer_path \<Rightarrow> bool" where
  "unexpired now pp \<longleftrightarrow> now - pp_lastReceive pp \<le> ZT_PEER_PATH_EXPIRATION"

definition best_path :: "path_heap \<Rightarrow> peer \<Rightarrow> u64 \<Rightarrow> (peer_path \<Rightarrow> bool) \<Rightarrow> nat option" where
  "best_path h pe now ok = best_loop ok (\<lambda>pp. pathScore h pe pp now) (pe_paths pe) 0 None 0"

definition sendDirect ::
  "node_env \<Rightarrow> path_heap \<Rightarrow> peer \<Rightarrow> packet \<Rightarrow> u64 \<Rightarrow> bool \<Rightarrow> bool \<times> path_heap \<times> effect list" where
  "sendDirect E h pe d now forceEvenIfDead =
     (case best_path h pe now (\<lambda>pp. unexpired now pp \<and> (Path_alive (h (pp_path pp)) now \<or> forceEvenIfDead)) of
        None \<Rightarrow> (False, h, [])
      | Some bestp \<Rightarrow>
          (let r = pp_path (pe_paths pe ! bestp); p = h r;
               (ok, p') = Path_send (ne_put E (p_localAddress p) (p_addr p) d) p now
           in (ok, h(r := p'), [PutPacket (p_localAddress p) (p_addr p) d])))"

definition getBestPath :: "path_heap \<Rightarrow> peer \<Rightarrow> u64 \<Rightarrow> bool \<Rightarrow> pathref option" where
  "getBestPath h pe now includeExpired =
     (case best_path h pe now (\<lambda>pp. unexpired now pp \<or> includeExpired) of
        None \<Rightarrow> None
      | Some bestp \<Rightarrow> Some (pp_path (pe_paths pe ! bestp)))"

definition hasActivePathTo :: "path_heap \<Rightarrow> peer \<Rightarrow> u64 \<Rightarrow> inet \<Rightarrow> bool" where
  "hasActivePathTo h pe now addr =
     list_ex (\<lambda>pp. InetAddress_eq (p_addr (h (pp_path pp))) addr \<and> unexpired now pp \<and> Path_alive (h (pp_path pp)) now)
       (pe_paths pe)"

definition hasActiveDirectPath :: "path_heap \<Rightarrow> peer \<Rightarrow> u64 \<Rightarrow> bool" where
  "hasActiveDirectPath h pe now =
     list_ex (\<lambda>pp. unexpired now pp \<and> Path_alive (h (pp_path pp)) now) (pe_paths pe)"

definition getRendezvousAddresses :: "path_heap \<Rightarrow> peer \<Rightarrow> u64 \<Rightarrow> inet \<Rightarrow> inet \<Rightarrow> inet \<times> inet" where
  "getRendezvousAddresses h pe now v4 v6 =
     (let active = (\<lambda>pp. unexpired now pp \<and> Path_alive (h (pp_path pp)) now);
          fam = (\<lambda>f pp. ss_family (p_addr (h (pp_path pp))) = f);
          addr = (\<lambda>i. p_addr (h (pp_path (pe_paths pe ! i))))
      in (case best_path h pe now (\<lambda>pp. active pp \<and> fam 2 pp) of Some i \<Rightarrow> addr i | None \<Rightarrow> v4,
          case best_path h pe now (\<lambda>pp. active pp \<and> fam 10 pp) of Some i \<Rightarrow> addr i | None \<Rightarrow> v6))"

definition Peer_paths :: "peer \<Rightarrow> u64 \<Rightarrow> (pathref \<times> bool) list" where
  "Peer_paths pe now = map (\<lambda>pp. (pp_path pp, now - pp_lastReceive pp > ZT_PEER_PATH_EXPIRATION)) (pe_paths pe)"

section \<open>Contacting the peer\<close>

text \<open>Appending to a packet, whose buffer holds \<^verbatim>\<open>ZT_PROTO_MAX_PACKET_LENGTH\<close> bytes.\<close>

abbreviation pkt_append :: "packet \<Rightarrow> bytes \<Rightarrow> packet res" where
  "pkt_append \<equiv> bs_append ZT_PROTO_MAX_PACKET_LENGTH"

definition hello_moons :: "node_env \<Rightarrow> packet \<Rightarrow> packet res" where
  "hello_moons E p =
     ebind (pkt_append p (be_enc 2 (of_nat (length (ne_moons E) + length (ne_moonsWanted E)) :: u16))) (\<lambda>p.
     ebind (efold (\<lambda>(t, i, ts) p. ebind (pkt_append p [t]) (\<lambda>p. ebind (pkt_append p (be_enc 8 i)) (\<lambda>p. pkt_append p (be_enc 8 ts))))
              (ne_moons E) p) (\<lambda>p.
     efold (\<lambda>i p. ebind (pkt_append p [127]) (\<lambda>p. ebind (pkt_append p (be_enc 8 i)) (\<lambda>p. pkt_append p (be_enc 8 (0 :: u64)))))
       (ne_moonsWanted E) p))"

text \<open>The two bytes of \<^verbatim>\<open>addSize(2)\<close> hold the size of the certificates of representation afterwards.\<close>

definition sendHELLO ::
  "node_env \<Rightarrow> nat \<Rightarrow> peer \<Rightarrow> inet \<Rightarrow> inet \<Rightarrow> u64 \<Rightarrow> u32 \<Rightarrow> effect list res" where
  "sendHELLO E n pe localAddr atAddress now counter =
     ebind (Packet_make (ne_raw E n) (ne_iv E n) (id_address (pe_id pe)) (id_address (ne_self E)) VERB_HELLO) (\<lambda>p.
     ebind (pkt_append p [9]) (\<lambda>p.
     ebind (pkt_append p [1]) (\<lambda>p.
     ebind (pkt_append p [2]) (\<lambda>p.
     ebind (pkt_append p (be_enc 2 (0 :: u16))) (\<lambda>p.
     ebind (pkt_append p (be_enc 8 now)) (\<lambda>p.
     ebind (Identity_serialize ZT_PROTO_MAX_PACKET_LENGTH p False (ne_self E)) (\<lambda>p.
     ebind (InetAddress_serialize ZT_PROTO_MAX_PACKET_LENGTH p atAddress) (\<lambda>p.
     ebind (pkt_append p (be_enc 8 (ne_planetWorldId E))) (\<lambda>p.
     ebind (pkt_append p (be_enc 8 (ne_planetWorldTimestamp E))) (\<lambda>p.
     let startCryptedPortionAt = length p in
     ebind (hello_moons E p) (\<lambda>p.
     ebind (pkt_append p (be_enc 2 (of_nat (length (ne_cor E)) :: u16))) (\<lambda>p.
     ebind (pkt_append p (ne_cor E)) (\<lambda>p.
     ebind (cryptField (pe_key pe) startCryptedPortionAt (length p - startCryptedPortionAt) p) (\<lambda>p.
     ebind (packetId p) (\<lambda>pid.
     if atAddress \<noteq> Inet_null then
       ebind (armor (pe_key pe) False (unat counter) p) (\<lambda>p. Inr [ExpectReply pid, PutPacket localAddr atAddress p])
     else Inr [ExpectReply pid, SwitchSend p False])))))))))))))))"

definition attemptToContactAt ::
  "node_env \<Rightarrow> nat \<Rightarrow> peer \<Rightarrow> inet \<Rightarrow> inet \<Rightarrow> u64 \<Rightarrow> bool \<Rightarrow> u32 \<Rightarrow> effect list res" where
  "attemptToContactAt E n pe localAddr atAddress now sendFullHello counter =
     (if \<not> sendFullHello \<and> pe_vProto pe \<ge> 5 \<and> \<not> (pe_vMajor pe = 1 \<and> pe_vMinor pe = 1 \<and> pe_vRevision pe = 0) then
        ebind (Packet_make (ne_raw E n) (ne_iv E n) (id_address (pe_id pe)) (id_address (ne_self E)) VERB_ECHO) (\<lambda>p.
        ebind (packetId p) (\<lambda>pid.
        ebind (armor (pe_key pe) True (unat counter) p) (\<lambda>p. Inr [ExpectReply pid, PutPacket localAddr atAddress p])))
      else sendHELLO E n pe localAddr atAddress now counter)"

text \<open>
  Contacting the peer over one of its paths: the counter is taken first, and the path is marked as
  used unless the attempt throws.
\<close>

definition contact_path ::
  "node_env \<Rightarrow> nat \<Rightarrow> peer \<Rightarrow> path_heap \<Rightarrow> pathref \<Rightarrow> u64 \<Rightarrow> bool \<Rightarrow> path_heap \<times> effect list \<times> exn option" where
  "contact_path E n pe h r now full =
     (let (c, p) = nextOutgoingCounter (h r) in
      case attemptToContactAt E n pe (p_localAddress p) (p_addr p) now full c of
        Inl e \<Rightarrow> (h(r := p), [], Some e)
      | Inr out \<Rightarrow> (h(r := Path_sent p now), out, None))"

definition tryMemorizedPath :: "node_env \<Rightarrow> peer \<Rightarrow> u64 \<Rightarrow> peer \<times> effect list \<times> exn option" where
  "tryMemorizedPath E pe now =
     (if now - pe_lastTriedMemorizedPath pe \<ge> ZT_TRY_MEMORIZED_PATH_INTERVAL then
        (let pe = pe\<lparr>pe_lastTriedMemorizedPath := now\<rparr> in
         case ne_pathLookup E (id_address (pe_id pe)) of
           None \<Rightarrow> (pe, [], None)
         | Some mp \<Rightarrow>
             (case attemptToContactAt E 0 pe Inet_null mp now True 0 of
                Inl e \<Rightarrow> (pe, [], Some e)
              | Inr out \<Rightarrow> (pe, out, None)))
      else (pe, [], None))"

text \<open>\<open>fam\<close> is \<open>None\<close> for the family -1, that is any.\<close>

definition doPingAndKeepalive ::
  "node_env \<Rightarrow> path_heap \<Rightarrow> peer \<Rightarrow> u64 \<Rightarrow> nat option \<Rightarrow> bool \<times> path_heap \<times> effect list \<times> exn option" where
  "doPingAndKeepalive E h pe now fam =
     (case best_path h pe now (\<lambda>pp. unexpired now pp \<and>
              (case fam of None \<Rightarrow> True | Some f \<Rightarrow> ss_family (p_addr (h (pp_path pp))) = f)) of
        None \<Rightarrow> (False, h, [], None)
      | Some bestp \<Rightarrow>
          (let pp = pe_paths pe ! bestp in
           if now - pp_lastReceive pp \<ge> ZT_PEER_PING_PERIOD \<or> needsHeartbeat (h (pp_path pp)) now then
             (case contact_path E 0 pe h (pp_path pp) now False of (h, out, e) \<Rightarrow> (True, h, out, e))
           else (True, h, [], None)))"

text \<open>The loop over the paths from index \<open>i\<close>; the \<open>i\<close>-th contact makes the \<open>i\<close>-th packet.\<close>

fun reset_loop ::
  "node_env \<Rightarrow> ip_scope \<Rightarrow> nat \<Rightarrow> u64 \<Rightarrow> nat list \<Rightarrow> path_heap \<Rightarrow> peer \<Rightarrow> path_heap \<times> peer \<times> effect list \<times> exn option" where
  "reset_loop E scope fam now [] h pe = (h, pe, [], None)"
| "reset_loop E scope fam now (i # is) h pe =
     (let pp = pe_paths pe ! i; a = p_addr (h (pp_path pp)) in
      if ss_family a = fam \<and> ipScope a = scope then
        (case contact_path E i pe h (pp_path pp) now False of
           (h, out, Some e) \<Rightarrow> (h, pe, out, Some e)
         | (h, out, None) \<Rightarrow>
             (case reset_loop E scope fam now is h (pe\<lparr>pe_paths := (pe_paths pe)[i := pp\<lparr>pp_lastReceive := 0\<rparr>]\<rparr>) of
                (h, pe, out', e) \<Rightarrow> (h, pe, out @ out', e)))
      else reset_loop E scope fam now is h pe)"

definition resetWithinScope ::
  "node_env \<Rightarrow> ip_scope \<Rightarrow> nat \<Rightarrow> u64 \<Rightarrow> path_heap \<Rightarrow> peer \<Rightarrow> path_heap \<times> peer \<times> effect list \<times> exn option" where
  "resetWithinScope E scope fam now h pe = reset_loop E scope fam now [0..<length (pe_paths pe)] h pe"

section \<open>Receiving\<close>

text \<open>The loops that look for the path to replace.\<close>

fun worst_loop :: "(peer_path \<Rightarrow> bool) \<Rightarrow> (peer_path \<Rightarrow> u64) \<Rightarrow> peer_path list \<Rightarrow> nat \<Rightarrow> nat option \<Rightarrow> u64 \<Rightarrow> nat option \<times> u64" where
  "worst_loop ok score [] p worstSlot worstScore = (worstSlot, worstScore)"
| "worst_loop ok score (x # xs) p worstSlot worstScore =
     (if ok x \<and> score x < worstScore then worst_loop ok score xs (p + 1) (Some p) (score x)
      else worst_loop ok score xs (p + 1) worstSlot worstScore)"

definition replace_slot :: "path_heap \<Rightarrow> peer \<Rightarrow> pathref \<Rightarrow> u64 \<Rightarrow> nat" where
  "replace_slot h pe r now =
     (let score = (\<lambda>pp. pathScore h pe pp now);
          same = (\<lambda>pp. ss_family (p_addr (h (pp_path pp))) = ss_family (p_addr (h r))) in
      case worst_loop same score (pe_paths pe) 0 None 0xffffffffffffffff of
        (Some slot, _) \<Rightarrow> slot
      | (None, worstScore) \<Rightarrow>
          (case worst_loop (\<lambda>_. True) score (pe_paths pe) 0 None worstScore of
             (Some slot, _) \<Rightarrow> slot
           | (None, _) \<Rightarrow> ZT_MAX_PEER_NETWORK_PATHS - 1))"

text \<open>Confirming a path by its address: the first one with it, if any, gets the new path object.\<close>

fun confirm_loop :: "path_heap \<Rightarrow> pathref \<Rightarrow> u64 \<Rightarrow> peer_path list \<Rightarrow> peer_path list option" where
  "confirm_loop h r now [] = None"
| "confirm_loop h r now (x # xs) =
     (if InetAddress_eq (p_addr (h (pp_path x))) (p_addr (h r))
      then Some (\<lparr>pp_lastReceive = now, pp_path = r\<rparr> # xs)
      else map_option ((#) x) (confirm_loop h r now xs))"

definition learn_path :: "path_heap \<Rightarrow> peer \<Rightarrow> pathref \<Rightarrow> u64 \<Rightarrow> peer_path list" where
  "learn_path h pe r now =
     (let pp = \<lparr>pp_lastReceive = now, pp_path = r\<rparr> in
      if length (pe_paths pe) < ZT_MAX_PEER_NETWORK_PATHS then pe_paths pe @ [pp]
      else (pe_paths pe)[replace_slot h pe r now := pp])"

text \<open>The paths to push: the direct ones and up to four random predictions that are not among them.\<close>

fun sym_loop :: "node_env \<Rightarrow> nat \<Rightarrow> nat \<Rightarrow> nat \<Rightarrow> inet list \<Rightarrow> inet list" where
  "sym_loop E 0 i added ps = ps"
| "sym_loop E (Suc n) i added ps =
     (let sym = ne_symPredictions E; tmp = sym ! (unat (ne_prng E i) mod length sym) in
      if \<not> list_ex (\<lambda>a. InetAddress_eq a tmp) ps then
        (if added + 1 \<ge> ZT_PUSH_DIRECT_PATHS_MAX_PER_SCOPE_AND_FAMILY then ps @ [tmp]
         else sym_loop E n (i + 1) (added + 1) (ps @ [tmp]))
      else sym_loop E n (i + 1) added ps)"

definition pathsToPush :: "node_env \<Rightarrow> inet list" where
  "pathsToPush E = sym_loop E (length (ne_symPredictions E)) 0 0 (ne_directPaths E)"

text \<open>Filling one packet: the packet, the number of addresses in it and the addresses left.\<close>

definition push_address :: "packet \<Rightarrow> byte \<Rightarrow> byte \<Rightarrow> bytes \<Rightarrow> u16 \<Rightarrow> packet res" where
  "push_address p addressType len ip port =
     ebind (pkt_append p [0]) (\<lambda>p.
     ebind (pkt_append p (be_enc 2 (0 :: u16))) (\<lambda>p.
     ebind (pkt_append p [addressType]) (\<lambda>p.
     ebind (pkt_append p [len]) (\<lambda>p.
     ebind (pkt_append p ip) (\<lambda>p.
     pkt_append p (be_enc 2 port))))))"

fun push_fill :: "packet \<Rightarrow> nat \<Rightarrow> inet list \<Rightarrow> (packet \<times> nat \<times> inet list) res" where
  "push_fill p count [] = Inr (p, count, [])"
| "push_fill p count (a # as) =
     (if length p + 24 < 1200 then
        (case a of
           Inet_null \<Rightarrow> push_fill p count as
         | Inet4 ip port \<Rightarrow> ebind (push_address p 4 6 (be_enc 4 ip) port) (\<lambda>p. push_fill p (count + 1) as)
         | Inet6 ip port _ _ \<Rightarrow> ebind (push_address p 6 18 (s6_addr ip) port) (\<lambda>p. push_fill p (count + 1) as))
      else Inr (p, count, a # as))"

lemma push_fill_left: "push_fill p c as = Inr (p', c', as') \<Longrightarrow> length as' \<le> length as"
  by (induction p c as rule: push_fill.induct) (auto split: if_splits inet.splits simp: ebind_Inr_iff intro: le_SucI)

lemma push_fill_progress:
  "push_fill p c as = Inr (p', c', as') \<Longrightarrow> as \<noteq> [] \<Longrightarrow> length p + 24 < 1200 \<Longrightarrow> length as' < length as"
  by (cases as) (auto split: if_splits inet.splits simp: ebind_Inr_iff le_imp_less_Suc dest!: push_fill_left)

lemma length_mem_write_0: "length xs \<le> length m \<Longrightarrow> length (mem_write 0 xs m) = length m"
  by simp

lemma Packet_make_length: "Packet_make mem iv d src v = Inr p \<Longrightarrow> length p \<le> 28"
  by (auto simp: Packet_make_def setDestination_def setSource_def setVerb_def bs_write_def bs_put_def ebind_Inr_iff
      not_less length_mem_write_0 split: if_splits)

text \<open>
  One packet after the other until all addresses are pushed. The two bytes of \<^verbatim>\<open>addSize(2)\<close> are
  uninitialised until the count is stored.
\<close>

definition push_packet :: "node_env \<Rightarrow> peer \<Rightarrow> nat \<Rightarrow> inet list \<Rightarrow> (packet \<times> nat \<times> inet list) res" where
  "push_packet E pe n as =
     ebind (Packet_make (ne_raw E n) (ne_iv E n) (id_address (pe_id pe)) (id_address (ne_self E)) VERB_PUSH_DIRECT_PATHS) (\<lambda>p.
     ebind (pkt_append p (sub 28 2 (ne_raw E n))) (\<lambda>p. push_fill p 0 as))"

definition push_send ::
  "node_env \<Rightarrow> peer \<Rightarrow> pathref \<Rightarrow> u64 \<Rightarrow> nat \<Rightarrow> packet \<Rightarrow> path_heap \<Rightarrow> path_heap \<times> effect list \<times> exn option" where
  "push_send E pe r now count p h =
     (case bs_setAt p ZT_PACKET_IDX_PAYLOAD (of_nat count :: u16) of
        Inl e \<Rightarrow> (h, [], Some e)
      | Inr p \<Rightarrow>
          (case nextOutgoingCounter (h r) of (c, pa) \<Rightarrow>
           (case armor (pe_key pe) True (unat c) p of
              Inl e \<Rightarrow> (h(r := pa), [], Some e)
            | Inr p \<Rightarrow>
                (h(r := snd (Path_send (ne_put E (p_localAddress pa) (p_addr pa) p) pa now)),
                 [PutPacket (p_localAddress pa) (p_addr pa) p], None))))"

lemma push_packet_progress: "push_packet E pe n as = Inr (p, c, as') \<Longrightarrow> as \<noteq> [] \<Longrightarrow> length as' < length as"
proof -
  assume a: "push_packet E pe n as = Inr (p, c, as')" "as \<noteq> []"
  then obtain p1 p2 where "length p1 \<le> 28" "pkt_append p1 (sub 28 2 (ne_raw E n)) = Inr p2" "push_fill p2 0 as = Inr (p, c, as')"
    by (auto simp: push_packet_def ebind_Inr_iff dest!: Packet_make_length)
  moreover from this have "length p2 \<le> 30" by (auto simp: bs_append_def sub_def split: if_splits)
  ultimately show ?thesis using a(2) push_fill_progress by fastforce
qed

function push_loop ::
  "node_env \<Rightarrow> peer \<Rightarrow> pathref \<Rightarrow> u64 \<Rightarrow> nat \<Rightarrow> inet list \<Rightarrow> path_heap \<Rightarrow> path_heap \<times> effect list \<times> exn option" where
  "push_loop E pe r now n as h =
     (if as = [] then (h, [], None)
      else case push_packet E pe n as of
        Inl e \<Rightarrow> (h, [], Some e)
      | Inr (p, count, as') \<Rightarrow>
          if count = 0 then push_loop E pe r now (n + 1) as' h
          else case push_send E pe r now count p h of
            (h, out, Some e) \<Rightarrow> (h, out, Some e)
          | (h, out, None) \<Rightarrow>
              (case push_loop E pe r now (n + 1) as' h of (h, out', e) \<Rightarrow> (h, out @ out', e)))"
  by pat_completeness auto

termination
  by (relation "measure (\<lambda>(E, pe, r, now, n, as, h). length as)") (auto dest: push_packet_progress)

declare push_loop.simps [simp del]

definition Peer_trustEstablished :: "peer \<Rightarrow> u64 \<Rightarrow> bool" where
  "Peer_trustEstablished pe now \<longleftrightarrow> now - pe_lastTrustEstablishedPacketReceived pe < ZT_TRUST_EXPIRATION"

text \<open>The part of \<^verbatim>\<open>Peer::received\<close> that only records: times, trust, link quality.\<close>

definition received_note :: "path_heap \<Rightarrow> peer \<Rightarrow> pathref \<Rightarrow> u64 \<Rightarrow> byte \<Rightarrow> bool \<Rightarrow> u64 \<Rightarrow> path_heap \<times> peer" where
  "received_note h pe r pid v trust now =
     (let pe = pe\<lparr>pe_lastReceive := now\<rparr>;
          pe = (if v \<in> {VERB_FRAME, VERB_EXT_FRAME, VERB_NETWORK_CONFIG_REQUEST, VERB_NETWORK_CONFIG, VERB_MULTICAST_FRAME}
                then pe\<lparr>pe_lastNontrivialReceive := now\<rparr> else pe);
          (h, pe) = (if trust then (h(r := trustedPacketReceived (h r) now), pe\<lparr>pe_lastTrustEstablishedPacketReceived := now\<rparr>)
                     else (h, pe))
      in (if pe_vProto pe \<ge> 9 then h(r := updateLinkQuality (h r) (unat (pid AND 7))) else h, pe))"

definition received ::
  "node_env \<Rightarrow> path_heap \<Rightarrow> peer \<Rightarrow> pathref \<Rightarrow> nat \<Rightarrow> u64 \<Rightarrow> byte \<Rightarrow> bool \<Rightarrow> u64 \<Rightarrow> path_heap \<times> peer \<times> effect list \<times> exn option" where
  "received E h pe r nhops pid v trust now =
     (case received_note h pe r pid v trust now of (h, pe) \<Rightarrow>
      if nhops = 0 then
        (case confirm_loop h r now (pe_paths pe) of
           Some ps \<Rightarrow> (h, pe\<lparr>pe_paths := ps\<rparr>, [], None)
         | None \<Rightarrow>
             if ne_usable E (id_address (pe_id pe)) (p_localAddress (h r)) (p_addr (h r)) then
               if v = VERB_OK then (h, pe\<lparr>pe_paths := learn_path h pe r now\<rparr>, [], None)
               else (case contact_path E 0 pe h r now True of (h, out, e) \<Rightarrow> (h, pe, out, e))
             else (h, pe, [], None))
      else if Peer_trustEstablished pe now \<and> now - pe_lastDirectPathPushSent pe \<ge> ZT_DIRECT_PATH_PUSH_INTERVAL then
        (case push_loop E (pe\<lparr>pe_lastDirectPathPushSent := now\<rparr>) r now 0 (pathsToPush E) h of
           (h, out, e) \<Rightarrow> (h, pe\<lparr>pe_lastDirectPathPushSent := now\<rparr>, out, e))
      else (h, pe, [], None))"

section \<open>Small operations\<close>

fun setClusterOptimal :: "inet \<Rightarrow> peer \<Rightarrow> peer" where
  "setClusterOptimal (Inet4 ip _) pe = pe\<lparr>pe_remoteClusterOptimal4 := ip\<rparr>"
| "setClusterOptimal (Inet6 ip _ _ _) pe = pe\<lparr>pe_remoteClusterOptimal6 := s6_addr ip\<rparr>"
| "setClusterOptimal Inet_null pe = pe"

definition Peer_isAlive :: "peer \<Rightarrow> u64 \<Rightarrow> bool" where
  "Peer_isAlive pe now \<longleftrightarrow> now - pe_lastReceive pe < ZT_PEER_ACTIVITY_TIMEOUT"

definition Peer_isActive :: "peer \<Rightarrow> u64 \<Rightarrow> bool" where
  "Peer_isActive pe now \<longleftrightarrow> now - pe_lastNontrivialReceive pe < ZT_PEER_ACTIVITY_TIMEOUT"

text \<open>\<^verbatim>\<open>relayQuality\<close> is computed in 32 bits; \<^verbatim>\<open>(unsigned int)tsr\<close> cannot truncate after the test.\<close>

definition relayQuality :: "peer \<Rightarrow> u64 \<Rightarrow> nat" where
  "relayQuality pe now =
     (let tsr = now - pe_lastReceive pe in
      if tsr \<ge> ZT_PEER_ACTIVITY_TIMEOUT then 2 ^ 32 - 1
      else let l = (if pe_latency pe = 0 then 0xffff else pe_latency pe)
           in l * (unat tsr div (60000 + 1000) + 1) mod 2 ^ 32)"

definition addDirectLatencyMeasurment :: "nat \<Rightarrow> peer \<Rightarrow> peer" where
  "addDirectLatencyMeasurment l pe =
     (let ol = pe_latency pe in
      if ol > 0 \<and> ol < 10000 then pe\<lparr>pe_latency := (ol + min l 65535) div 2\<rparr>
      else pe\<lparr>pe_latency := min l 65535\<rparr>)"

definition setRemoteVersion :: "nat \<Rightarrow> nat \<Rightarrow> nat \<Rightarrow> nat \<Rightarrow> peer \<Rightarrow> peer" where
  "setRemoteVersion vproto vmaj vmin vrev pe =
     pe\<lparr>pe_vProto := of_nat vproto, pe_vMajor := of_nat vmaj, pe_vMinor := of_nat vmin, pe_vRevision := of_nat vrev\<rparr>"

definition remoteVersionKnown :: "peer \<Rightarrow> bool" where
  "remoteVersionKnown pe \<longleftrightarrow> pe_vMajor pe > 0 \<or> pe_vMinor pe > 0 \<or> pe_vRevision pe > 0"

section \<open>Rate gates\<close>

text \<open>The counters of the gates are 32-bit: \<open>u32_add\<close>.\<close>

definition rateGatePushDirectPaths :: "u64 \<Rightarrow> peer \<Rightarrow> bool \<times> peer" where
  "rateGatePushDirectPaths now pe =
     (let pe = (if now - pe_lastDirectPathPushReceive pe \<le> ZT_PUSH_DIRECT_PATHS_CUTOFF_TIME
                then pe\<lparr>pe_directPathPushCutoffCount := u32_add (pe_directPathPushCutoffCount pe) 1\<rparr>
                else pe\<lparr>pe_directPathPushCutoffCount := 0\<rparr>);
          pe = pe\<lparr>pe_lastDirectPathPushReceive := now\<rparr>
      in (pe_directPathPushCutoffCount pe < ZT_PUSH_DIRECT_PATHS_CUTOFF_LIMIT, pe))"

definition rateGateCredentialsReceived :: "u64 \<Rightarrow> peer \<Rightarrow> bool \<times> peer" where
  "rateGateCredentialsReceived now pe =
     (let pe = (if now - pe_lastCredentialsReceived pe \<le> ZT_PEER_CREDENTIALS_CUTOFF_TIME
                then pe\<lparr>pe_credentialsCutoffCount := u32_add (pe_credentialsCutoffCount pe) 1\<rparr>
                else pe\<lparr>pe_credentialsCutoffCount := 0\<rparr>);
          pe = pe\<lparr>pe_lastCredentialsReceived := now\<rparr>
      in (pe_directPathPushCutoffCount pe < ZT_PEER_CREDEITIALS_CUTOFF_LIMIT, pe))"

definition rateGateRequestCredentials :: "u64 \<Rightarrow> peer \<Rightarrow> bool \<times> peer" where
  "rateGateRequestCredentials now pe =
     (if now - pe_lastCredentialRequestSent pe \<ge> ZT_PEER_GENERAL_RATE_LIMIT
      then (True, pe\<lparr>pe_lastCredentialRequestSent := now\<rparr>) else (False, pe))"

definition rateGateInboundWhoisRequest :: "u64 \<Rightarrow> peer \<Rightarrow> bool \<times> peer" where
  "rateGateInboundWhoisRequest now pe =
     (if now - pe_lastWhoisRequestReceived pe \<ge> ZT_PEER_WHOIS_RATE_LIMIT
      then (True, pe\<lparr>pe_lastWhoisRequestReceived := now\<rparr>) else (False, pe))"

definition rateGateEchoRequest :: "u64 \<Rightarrow> peer \<Rightarrow> bool \<times> peer" where
  "rateGateEchoRequest now pe =
     (if now - pe_lastEchoRequestReceived pe \<ge> ZT_PEER_GENERAL_RATE_LIMIT
      then (True, pe\<lparr>pe_lastEchoRequestReceived := now\<rparr>) else (False, pe))"

definition rateGateIncomingComRequest :: "u64 \<Rightarrow> peer \<Rightarrow> bool \<times> peer" where
  "rateGateIncomingComRequest now pe =
     (if now - pe_lastComRequestReceived pe \<ge> ZT_PEER_GENERAL_RATE_LIMIT
      then (True, pe\<lparr>pe_lastComRequestReceived := now\<rparr>) else (False, pe))"

definition rateGateOutgoingComRequest :: "u64 \<Rightarrow> peer \<Rightarrow> bool \<times> peer" where
  "rateGateOutgoingComRequest now pe =
     (if now - pe_lastComRequestSent pe \<ge> ZT_PEER_GENERAL_RATE_LIMIT
      then (True, pe\<lparr>pe_lastComRequestSent := now\<rparr>) else (False, pe))"

text \<open>Peers and environments for the witnesses.\<close>

definition sample_identity :: "byte \<Rightarrow> identity" where
  "sample_identity b = \<lparr>id_address = ucast b, id_publicKey = replicate 64 b, id_privateKey = Some (replicate 64 b)\<rparr>"

definition sample_peer :: "peer_path list \<Rightarrow> peer" where
  "sample_peer ps = (projr (Peer_make (\<lambda>_ _ n. replicate n 7) (sample_identity 1) (sample_identity 2)))\<lparr>pe_paths := ps\<rparr>"

definition sample_heap :: path_heap where
  "sample_heap r = (Path_make Inet_null (Inet4 (0x0a000001 + of_nat r) 9993))\<lparr>p_lastIn := 1000000\<rparr>"

definition sample_env :: node_env where
  "sample_env = \<lparr>ne_self = sample_identity 1, ne_raw = \<lambda>_. replicate 6000 0, ne_iv = \<lambda>n. replicate 8 (of_nat n), ne_prng = of_nat,
     ne_put = \<lambda>_ _ _. True, ne_usable = \<lambda>_ _ _. True, ne_pathLookup = \<lambda>_. None, ne_directPaths = [Inet4 0x0a000001 9993],
     ne_symPredictions = [], ne_planetWorldId = 1, ne_planetWorldTimestamp = 2, ne_moons = [], ne_moonsWanted = [], ne_cor = []\<rparr>"

lemmas sample_defs = sample_identity_def sample_peer_def sample_heap_def sample_env_def Peer_make_def agree_def Path_make_def

section \<open>The path chosen\<close>

lemma best_loop_cases:
  "(best_loop ok score xs p b best = b \<and> (\<forall>x \<in> set xs. ok x \<longrightarrow> score x < best))
   \<or> (\<exists>k < length xs. best_loop ok score xs p b best = Some (p + k) \<and> ok (xs ! k) \<and> best \<le> score (xs ! k)
        \<and> (\<forall>x \<in> set xs. ok x \<longrightarrow> score x \<le> score (xs ! k)))"
proof (induction xs arbitrary: p b best)
  case (Cons x xs)
  show ?case
  proof (cases "ok x \<and> score x \<ge> best")
    case True
    consider "best_loop ok score xs (p + 1) (Some p) (score x) = Some p" "\<forall>y \<in> set xs. ok y \<longrightarrow> score y < score x"
      | k where "k < length xs" "best_loop ok score xs (p + 1) (Some p) (score x) = Some (p + 1 + k)" "ok (xs ! k)"
        "score x \<le> score (xs ! k)" "\<forall>y \<in> set xs. ok y \<longrightarrow> score y \<le> score (xs ! k)"
      using Cons.IH [of "p + 1" "Some p" "score x"] by blast
    then show ?thesis
    proof cases
      case 1
      with True show ?thesis by (intro disjI2 exI [of _ 0]) (auto intro: less_imp_le)
    next
      case (2 k)
      with True show ?thesis by (intro disjI2 exI [of _ "Suc k"]) auto
    qed
  next
    case False
    consider "best_loop ok score xs (p + 1) b best = b" "\<forall>y \<in> set xs. ok y \<longrightarrow> score y < best"
      | k where "k < length xs" "best_loop ok score xs (p + 1) b best = Some (p + 1 + k)" "ok (xs ! k)"
        "best \<le> score (xs ! k)" "\<forall>y \<in> set xs. ok y \<longrightarrow> score y \<le> score (xs ! k)"
      using Cons.IH [of "p + 1" b best] by blast
    then show ?thesis
    proof cases
      case 1
      with False show ?thesis by (intro disjI1) auto
    next
      case (2 k)
      with False show ?thesis by (intro disjI2 exI [of _ "Suc k"]) auto
    qed
  qed
qed simp

lemma best_path_cases:
  obtains (none) "best_path h pe now ok = None" "\<forall>pp \<in> set (pe_paths pe). \<not> ok pp"
  | (some) i where "best_path h pe now ok = Some i" "i < length (pe_paths pe)" "ok (pe_paths pe ! i)"
      "\<forall>pp \<in> set (pe_paths pe). ok pp \<longrightarrow> pathScore h pe pp now \<le> pathScore h pe (pe_paths pe ! i) now"
  using best_loop_cases [of ok "\<lambda>pp. pathScore h pe pp now" "pe_paths pe" 0 None 0]
  by (auto simp: best_path_def)

text \<open>The paths that a choice may take, and those among them with the highest score.\<close>

definition best_of :: "path_heap \<Rightarrow> peer \<Rightarrow> u64 \<Rightarrow> (peer_path \<Rightarrow> bool) \<Rightarrow> peer_path \<Rightarrow> bool" where
  "best_of h pe now ok pp \<longleftrightarrow> pp \<in> set (pe_paths pe) \<and> ok pp
     \<and> (\<forall>q \<in> set (pe_paths pe). ok q \<longrightarrow> pathScore h pe q now \<le> pathScore h pe pp now)"

definition usable :: "path_heap \<Rightarrow> u64 \<Rightarrow> bool \<Rightarrow> peer_path \<Rightarrow> bool" where
  "usable h now force pp \<longleftrightarrow> unexpired now pp \<and> (Path_alive (h (pp_path pp)) now \<or> force)"

definition in_family :: "path_heap \<Rightarrow> nat \<Rightarrow> peer_path \<Rightarrow> bool" where
  "in_family h f pp \<longleftrightarrow> ss_family (p_addr (h (pp_path pp))) = f"

text \<open>The address for a rendezvous in family \<open>f\<close>: of a best active path, or the one given if there is none.\<close>

definition rendezvous_ok :: "path_heap \<Rightarrow> peer \<Rightarrow> u64 \<Rightarrow> nat \<Rightarrow> inet \<Rightarrow> inet \<Rightarrow> bool" where
  "rendezvous_ok h pe now f given a \<longleftrightarrow>
     (let ok = (\<lambda>pp. usable h now False pp \<and> in_family h f pp) in
      if \<exists>pp \<in> set (pe_paths pe). ok pp
      then \<exists>pp. best_of h pe now ok pp \<and> a = p_addr (h (pp_path pp))
      else a = given)"

lemma best_path_best_of:
  "case best_path h pe now ok of
     None \<Rightarrow> \<not> (\<exists>pp \<in> set (pe_paths pe). ok pp)
   | Some i \<Rightarrow> (\<exists>pp \<in> set (pe_paths pe). ok pp) \<and> best_of h pe now ok (pe_paths pe ! i)"
  by (cases rule: best_path_cases [of h pe now ok]) (auto simp: best_of_def)

lemma getBestPath_cases:
  "case getBestPath h pe now inc of
     None \<Rightarrow> \<forall>pp \<in> set (pe_paths pe). \<not> unexpired now pp \<and> \<not> inc
   | Some r \<Rightarrow> \<exists>pp. best_of h pe now (\<lambda>pp. unexpired now pp \<or> inc) pp \<and> pp_path pp = r"
proof (cases rule: best_path_cases [of h pe now "\<lambda>pp. unexpired now pp \<or> inc"])
  case none
  then show ?thesis by (simp add: getBestPath_def)
next
  case (some i)
  then have "best_of h pe now (\<lambda>pp. unexpired now pp \<or> inc) (pe_paths pe ! i)" by (simp add: best_of_def)
  with some(1) show ?thesis by (auto simp: getBestPath_def)
qed

lemma hasActiveDirectPath_usable:
  "hasActiveDirectPath h pe now \<longleftrightarrow> (\<exists>pp \<in> set (pe_paths pe). usable h now False pp)"
  by (simp add: hasActiveDirectPath_def list_ex_iff usable_def)

lemma sendDirect_cases:
  "case sendDirect E h pe d now force of (ok, h', out) \<Rightarrow>
     if \<exists>pp \<in> set (pe_paths pe). usable h now force pp then
       (\<exists>pp. best_of h pe now (usable h now force) pp
         \<and> (let p = h (pp_path pp) in out = [PutPacket (p_localAddress p) (p_addr p) d]
              \<and> ok = ne_put E (p_localAddress p) (p_addr p) d
              \<and> h' = (if ok then h(pp_path pp := p\<lparr>p_lastOut := now\<rparr>) else h)))
     else \<not> ok \<and> h' = h \<and> out = []"
proof (cases "best_path h pe now (usable h now force)")
  case None
  then show ?thesis
    using best_path_best_of [where h = h and pe = pe and now = now and ok = "usable h now force"]
    by (simp add: sendDirect_def usable_def [abs_def])
next
  case (Some i)
  let ?pp = "pe_paths pe ! i" let ?p = "h (pp_path ?pp)"
  have "\<exists>pp \<in> set (pe_paths pe). usable h now force pp" "best_of h pe now (usable h now force) ?pp"
    using best_path_best_of [where h = h and pe = pe and now = now and ok = "usable h now force"] Some by simp_all
  moreover have "sendDirect E h pe d now force = (ne_put E (p_localAddress ?p) (p_addr ?p) d,
      (if ne_put E (p_localAddress ?p) (p_addr ?p) d then h(pp_path ?pp := ?p\<lparr>p_lastOut := now\<rparr>) else h),
      [PutPacket (p_localAddress ?p) (p_addr ?p) d])"
    using Some by (auto simp: sendDirect_def usable_def [abs_def] Path_send_def Let_def)
  ultimately show ?thesis by (auto simp: Let_def intro!: exI [of _ ?pp])
qed

lemma rendezvous_best:
  "rendezvous_ok h pe now f given
     (case best_path h pe now (\<lambda>pp. usable h now False pp \<and> in_family h f pp) of
        Some i \<Rightarrow> p_addr (h (pp_path (pe_paths pe ! i))) | None \<Rightarrow> given)"
  using best_path_best_of [where h = h and pe = pe and now = now and ok = "\<lambda>pp. usable h now False pp \<and> in_family h f pp"]
  by (auto simp: rendezvous_ok_def Let_def split: option.splits)

lemma getRendezvousAddresses_cases:
  "case getRendezvousAddresses h pe now v4 v6 of (a4, a6) \<Rightarrow>
     rendezvous_ok h pe now 2 v4 a4 \<and> rendezvous_ok h pe now 10 v6 a6"
  using rendezvous_best [of h pe now 2 v4] rendezvous_best [of h pe now 10 v6]
  by (simp add: getRendezvousAddresses_def usable_def in_family_def Let_def)



section \<open>The table of paths\<close>

text \<open>At most four paths, with different addresses, and a latency of 16 bits.\<close>

definition peer_ok :: "path_heap \<Rightarrow> peer \<Rightarrow> bool" where
  "peer_ok h pe \<longleftrightarrow> length (pe_paths pe) \<le> ZT_MAX_PEER_NETWORK_PATHS
     \<and> distinct (map (\<lambda>pp. p_addr (h (pp_path pp))) (pe_paths pe)) \<and> pe_latency pe \<le> 65535"

text \<open>No operation on a path changes its address.\<close>

lemma path_addr_kept [simp]:
  "p_addr (Path_received p t) = p_addr p" "p_addr (trustedPacketReceived p t) = p_addr p" "p_addr (Path_sent p t) = p_addr p"
  "p_addr (updateLinkQuality p c) = p_addr p" "p_addr (snd (nextOutgoingCounter p)) = p_addr p"
  "p_addr (snd (Path_send put p t)) = p_addr p" "p_addr (path_step e p) = p_addr p"
proof -
  show u: "p_addr (updateLinkQuality p c) = p_addr p" for p c by (simp add: updateLinkQuality_def Let_def)
  show "p_addr (path_step e p) = p_addr p"
    by (cases e) (simp_all add: u Path_received_def trustedPacketReceived_def Path_sent_def nextOutgoingCounter_def Path_send_def)
qed (simp_all add: Path_received_def trustedPacketReceived_def Path_sent_def nextOutgoingCounter_def Path_send_def)

text \<open>Heaps that agree on the addresses.\<close>

definition same_addrs :: "path_heap \<Rightarrow> path_heap \<Rightarrow> bool" where
  "same_addrs h h' \<longleftrightarrow> (\<forall>r. p_addr (h' r) = p_addr (h r))"

lemma same_addrs_refl [simp]: "same_addrs h h"
  by (simp add: same_addrs_def)

lemma same_addrs_upd: "same_addrs h h' \<Longrightarrow> p_addr p = p_addr (h r) \<Longrightarrow> same_addrs h (h'(r := p))"
  by (simp add: same_addrs_def)

lemma same_addrs_trans: "same_addrs h h' \<Longrightarrow> same_addrs h' h'' \<Longrightarrow> same_addrs h h''"
  by (simp add: same_addrs_def)

lemma peer_ok_same: "same_addrs h h' \<Longrightarrow> peer_ok h' pe \<longleftrightarrow> peer_ok h pe"
  by (simp add: peer_ok_def same_addrs_def)

lemma contact_path_addrs: "contact_path E n pe h r now full = (h', out, e) \<Longrightarrow> same_addrs h h'"
  by (cases "nextOutgoingCounter (h r)")
    (auto simp: contact_path_def nextOutgoingCounter_def intro!: same_addrs_upd split: sum.splits)

lemma push_send_addrs: "push_send E pe r now count p h = (h', out, e) \<Longrightarrow> same_addrs h h'"
  by (cases "nextOutgoingCounter (h r)")
    (auto simp: push_send_def nextOutgoingCounter_def intro!: same_addrs_upd split: sum.splits)

lemma push_loop_addrs: "push_loop E pe r now n as h = (h', out, e) \<Longrightarrow> same_addrs h h'"
proof (induction E pe r now n as h arbitrary: h' out e rule: push_loop.induct)
  case (1 E pe r now n as h)
  show ?case
  proof (cases "as = [] \<or> (\<exists>e. push_packet E pe n as = Inl e)")
    case True
    with "1.prems" show ?thesis by (subst (asm) push_loop.simps) (auto split: if_splits)
  next
    case False
    then obtain p count as' where p: "as \<noteq> []" "push_packet E pe n as = Inr (p, count, as')"
      by (cases "push_packet E pe n as") auto
    obtain h1 out1 e1 where s: "push_send E pe r now count p h = (h1, out1, e1)" by (metis prod_cases3)
    obtain h2 out2 e2 where l: "push_loop E pe r now (n + 1) as' h1 = (h2, out2, e2)" by (metis prod_cases3)
    show ?thesis
    proof (cases "count = 0")
      case True
      with "1.prems" p have "push_loop E pe r now (n + 1) as' h = (h', out, e)" by (subst (asm) push_loop.simps) simp
      with "1.IH"(1) [OF p refl refl True] show ?thesis .
    next
      case c: False
      show ?thesis
      proof (cases e1)
        case None
        with "1.prems" p c s l have "h' = h2" by (subst (asm) push_loop.simps) simp
        moreover have "same_addrs h1 h2" using "1.IH"(2) [OF p refl refl c s [symmetric] refl] None l by simp
        ultimately show ?thesis using push_send_addrs [OF s] by (simp add: same_addrs_trans)
      next
        case (Some x)
        with "1.prems" p c s have "h' = h1" by (subst (asm) push_loop.simps) simp
        then show ?thesis using push_send_addrs [OF s] by simp
      qed
    qed
  qed
qed

lemma confirm_loop_cases:
  "case confirm_loop h r now ps of
     None \<Rightarrow> p_addr (h r) \<notin> set (map (\<lambda>pp. p_addr (h (pp_path pp))) ps)
   | Some ps' \<Rightarrow> map (\<lambda>pp. p_addr (h (pp_path pp))) ps' = map (\<lambda>pp. p_addr (h (pp_path pp))) ps
       \<and> set ps' \<subseteq> insert \<lparr>pp_lastReceive = now, pp_path = r\<rparr> (set ps)"
  by (induction h r now ps rule: confirm_loop.induct) (auto simp: InetAddress_eq_iff split: option.splits)

lemma confirm_loop_Some:
  "confirm_loop h r now ps = Some ps' \<Longrightarrow> p_addr (h r) \<in> set (map (\<lambda>pp. p_addr (h (pp_path pp))) ps)"
  by (induction h r now ps arbitrary: ps' rule: confirm_loop.induct) (auto simp: InetAddress_eq_iff split: if_splits)

lemma distinct_update: "distinct xs \<Longrightarrow> x \<notin> set xs \<Longrightarrow> distinct (xs[i := x])"
  by (cases "i < length xs") (auto simp: distinct_list_update)

lemma learn_path_ok:
  assumes "peer_ok h pe" and "p_addr (h r) \<notin> set (map (\<lambda>pp. p_addr (h (pp_path pp))) (pe_paths pe))"
  shows "peer_ok h (pe\<lparr>pe_paths := learn_path h pe r now\<rparr>)"
  using assms distinct_update [of "map (\<lambda>pp. p_addr (h (pp_path pp))) (pe_paths pe)" "p_addr (h r)"]
  by (auto simp: peer_ok_def learn_path_def Let_def map_update)

lemma received_note_keeps:
  assumes "received_note h pe r pid v trust now = (h1, pe1)"
  shows "same_addrs h h1 \<and> pe_paths pe1 = pe_paths pe \<and> pe_latency pe1 = pe_latency pe \<and> pe_id pe1 = pe_id pe"
  using assms by (auto simp: received_note_def Let_def same_addrs_def split: if_splits prod.splits)

lemma received_ok:
  assumes "peer_ok h pe" and "received E h pe r nhops pid v trust now = (h', pe', out, e)"
  shows "same_addrs h h' \<and> peer_ok h' pe'"
proof -
  obtain h1 pe1 where n: "received_note h pe r pid v trust now = (h1, pe1)" by fastforce
  note k = received_note_keeps [OF n]
  have ok: "peer_ok h1 pe1" using assms(1) k by (simp add: peer_ok_def same_addrs_def)
  show ?thesis
  proof (cases "nhops = 0")
    case True
    show ?thesis
    proof (cases "confirm_loop h1 r now (pe_paths pe1)")
      case (Some ps)
      then have "map (\<lambda>pp. p_addr (h1 (pp_path pp))) ps = map (\<lambda>pp. p_addr (h1 (pp_path pp))) (pe_paths pe1)"
        using confirm_loop_cases [where h = h1 and r = r and now = now and ps = "pe_paths pe1"] by simp
      from this map_eq_imp_length_eq [OF this] have "peer_ok h1 (pe1\<lparr>pe_paths := ps\<rparr>)"
        using ok by (simp add: peer_ok_def)
      then show ?thesis using assms(2) n k True Some by (simp add: received_def)
    next
      case None
      then have new: "p_addr (h1 r) \<notin> set (map (\<lambda>pp. p_addr (h1 (pp_path pp))) (pe_paths pe1))"
        using confirm_loop_cases [where h = h1 and r = r and now = now and ps = "pe_paths pe1"] by simp
      obtain h2 out2 e2 where c: "contact_path E 0 pe1 h1 r now True = (h2, out2, e2)" by (metis prod_cases3)
      show ?thesis
        using assms(2) n k ok True None learn_path_ok [OF ok new, of now] contact_path_addrs [OF c] peer_ok_same
        by (auto simp: received_def c intro: same_addrs_trans split: if_splits)
    qed
  next
    case False
    obtain h2 out2 e2 where p: "push_loop E (pe1\<lparr>pe_lastDirectPathPushSent := now\<rparr>) r now 0 (pathsToPush E) h1 = (h2, out2, e2)"
      by (metis prod_cases3)
    have "peer_ok h2 (pe1\<lparr>pe_lastDirectPathPushSent := now\<rparr>)"
      using ok push_loop_addrs [OF p] by (simp add: peer_ok_def same_addrs_def)
    then show ?thesis
      using assms(2) n k ok False push_loop_addrs [OF p] by (auto simp: received_def p intro: same_addrs_trans split: if_splits)
  qed
qed

lemma peer_ok_fields:
  "peer_ok h pe \<Longrightarrow> map (\<lambda>pp. p_addr (h (pp_path pp))) (pe_paths pe') = map (\<lambda>pp. p_addr (h (pp_path pp))) (pe_paths pe)
    \<Longrightarrow> pe_latency pe' \<le> 65535 \<Longrightarrow> peer_ok h pe'"
  using map_eq_imp_length_eq [of "\<lambda>pp. p_addr (h (pp_path pp))" "pe_paths pe'" "\<lambda>pp. p_addr (h (pp_path pp))" "pe_paths pe"]
  by (simp add: peer_ok_def)

lemma reset_loop_ok:
  "peer_ok h pe \<Longrightarrow> reset_loop E scope fam now is h pe = (h', pe', out, e) \<Longrightarrow> same_addrs h h' \<and> peer_ok h' pe'"
proof (induction "is" arbitrary: h pe h' pe' out e)
  case (Cons i "is")
  let ?pp = "pe_paths pe ! i"
  show ?case
  proof (cases "ss_family (p_addr (h (pp_path ?pp))) = fam \<and> ipScope (p_addr (h (pp_path ?pp))) = scope")
    case True
    obtain h1 out1 e1 where c: "contact_path E i pe h (pp_path ?pp) now False = (h1, out1, e1)" by (metis prod_cases3)
    let ?pe = "pe\<lparr>pe_paths := (pe_paths pe)[i := ?pp\<lparr>pp_lastReceive := 0\<rparr>]\<rparr>"
    have h1: "same_addrs h h1" by (rule contact_path_addrs [OF c])
    then have ok1: "peer_ok h1 pe" using Cons.prems(1) by (simp add: peer_ok_same)
    have "map (\<lambda>pp. p_addr (h1 (pp_path pp))) (pe_paths ?pe) = map (\<lambda>pp. p_addr (h1 (pp_path pp))) (pe_paths pe)"
      by (simp add: map_update) (metis list_update_id map_update)
    then have ok2: "peer_ok h1 ?pe" using ok1 by (auto intro!: peer_ok_fields [OF ok1] simp: peer_ok_def)
    obtain h2 pe2 out2 e2 where l: "reset_loop E scope fam now is h1 ?pe = (h2, pe2, out2, e2)" by (metis prod_cases4)
    show ?thesis
      using Cons.prems(2) True c l h1 ok1 Cons.IH [OF ok2 l] by (cases e1) (auto simp: Let_def intro: same_addrs_trans)
  next
    case False
    then have "reset_loop E scope fam now is h pe = (h', pe', out, e)"
      using Cons.prems(2) by (simp only: reset_loop.simps Let_def if_False)
    with Cons.IH [OF Cons.prems(1)] show ?thesis by blast
  qed
qed simp

text \<open>
  Everything that happens to a peer and the heap of paths: its own operations, and events on paths
  from elsewhere.
\<close>

inductive peer_step :: "path_heap \<times> peer \<Rightarrow> path_heap \<times> peer \<Rightarrow> bool" where
  step_path: "peer_step (h, pe) (h(r := path_step ev (h r)), pe)"
| step_received: "received E h pe r nhops pid v trust now = (h', pe', out, e) \<Longrightarrow> peer_step (h, pe) (h', pe')"
| step_send: "sendDirect E h pe d now force = (ok, h', out) \<Longrightarrow> peer_step (h, pe) (h', pe)"
| step_ping: "doPingAndKeepalive E h pe now fam = (ok, h', out, e) \<Longrightarrow> peer_step (h, pe) (h', pe)"
| step_memorized: "tryMemorizedPath E pe now = (pe', out, e) \<Longrightarrow> peer_step (h, pe) (h, pe')"
| step_reset: "resetWithinScope E scope fam now h pe = (h', pe', out, e) \<Longrightarrow> peer_step (h, pe) (h', pe')"
| step_latency: "peer_step (h, pe) (h, addDirectLatencyMeasurment l pe)"
| step_version: "peer_step (h, pe) (h, setRemoteVersion vp vm vn vr pe)"
| step_cluster: "peer_step (h, pe) (h, setClusterOptimal a pe)"
| step_gate: "gate \<in> {rateGatePushDirectPaths, rateGateCredentialsReceived, rateGateRequestCredentials,
    rateGateInboundWhoisRequest, rateGateEchoRequest, rateGateIncomingComRequest, rateGateOutgoingComRequest} \<Longrightarrow>
    peer_step (h, pe) (h, snd (gate now pe))"

lemmas rate_gate_defs = rateGatePushDirectPaths_def rateGateCredentialsReceived_def rateGateRequestCredentials_def
  rateGateInboundWhoisRequest_def rateGateEchoRequest_def rateGateIncomingComRequest_def rateGateOutgoingComRequest_def

lemma peer_step_ok: "peer_step s s' \<Longrightarrow> peer_ok (fst s) (snd s) \<Longrightarrow> peer_ok (fst s') (snd s')"
proof (induction rule: peer_step.induct)
  case (step_path h pe r ev)
  have "same_addrs h (h(r := path_step ev (h r)))" by (rule same_addrs_upd) simp_all
  with step_path show ?case by (simp only: fst_conv snd_conv peer_ok_same)
next
  case (step_received E h pe r nhops pid v trust now h' pe' out e)
  then show ?case using received_ok by auto
next
  case (step_send E h pe d now force ok h' out)
  then have "same_addrs h h'"
    by (auto simp: sendDirect_def Let_def Path_send_def same_addrs_def split: option.splits if_splits)
  with step_send show ?case by (simp add: peer_ok_same)
next
  case (step_ping E h pe now fam ok h' out e)
  then have "same_addrs h h'"
    by (auto simp: doPingAndKeepalive_def Let_def split: option.splits if_splits prod.splits dest: contact_path_addrs)
  with step_ping show ?case by (simp add: peer_ok_same)
next
  case (step_memorized E pe now pe' out e h)
  then show ?case by (auto simp: tryMemorizedPath_def Let_def peer_ok_def split: option.splits if_splits sum.splits)
next
  case (step_reset E scope fam now h pe h' pe' out e)
  then show ?case using reset_loop_ok by (auto simp: resetWithinScope_def)
next
  case (step_latency h pe l)
  then show ?case by (auto simp: addDirectLatencyMeasurment_def Let_def peer_ok_def)
next
  case (step_version h pe vp vm vn vr)
  then show ?case by (simp add: setRemoteVersion_def peer_ok_def)
next
  case (step_cluster h pe a)
  then show ?case by (cases a) (simp_all add: peer_ok_def)
next
  case (step_gate gate h pe now)
  then show ?case by (auto simp: rate_gate_defs Let_def peer_ok_def)
qed

lemma peer_reach_ok: "peer_step\<^sup>*\<^sup>* s s' \<Longrightarrow> peer_ok (fst s) (snd s) \<Longrightarrow> peer_ok (fst s') (snd s')"
  by (induction rule: rtranclp_induct) (auto intro: peer_step_ok)

lemma relayQuality_exact:
  assumes "pe_latency pe \<le> 65535" and "now - pe_lastReceive pe < ZT_PEER_ACTIVITY_TIMEOUT"
  shows "relayQuality pe now = (if pe_latency pe = 0 then 0xffff else pe_latency pe) * (unat (now - pe_lastReceive pe) div 61000 + 1)"
    "relayQuality pe now \<le> 65535 * 9"
proof -
  let ?l = "if pe_latency pe = 0 then 0xffff else pe_latency pe" let ?n = "unat (now - pe_lastReceive pe) div 61000 + 1"
  have "unat (now - pe_lastReceive pe) < 500000" using assms(2) by (simp add: word_less_nat_alt)
  then have "?n \<le> 9" by linarith
  moreover have "?l \<le> 65535" using assms(1) by simp
  ultimately have le: "?l * ?n \<le> 65535 * 9" by (rule mult_le_mono [rotated])
  then show e: "relayQuality pe now = ?l * ?n"
    using assms(2) by (simp add: relayQuality_def Let_def not_le)
  show "relayQuality pe now \<le> 65535 * 9" unfolding e by (rule le)
qed

text \<open>
  C6. Invariant of a peer: however its operations and the events on its paths interleave after
  construction, it has at most four paths, no two of them to the same address, a latency of 16 bits,
  and the quality as a relay is computed without overflow, so that a peer heard from within the
  activity timeout always ranks before a silent one.
\<close>

theorem peer_invariant:
  assumes "Peer_make dh myIdentity peerIdentity = Inr pe" and "peer_step\<^sup>*\<^sup>* (h, pe) (h', pe')"
  shows "length (pe_paths pe') \<le> 4 \<and> distinct (map (\<lambda>pp. p_addr (h' (pp_path pp))) (pe_paths pe'))
    \<and> pe_latency pe' \<le> 65535
    \<and> (if Peer_isAlive pe' now
       then relayQuality pe' now = (if pe_latency pe' = 0 then 0xffff else pe_latency pe') * (unat (now - pe_lastReceive pe') div 61000 + 1)
         \<and> relayQuality pe' now < 2 ^ 32 - 1
       else relayQuality pe' now = 2 ^ 32 - 1)"
proof -
  have "pe_paths pe = []" "pe_latency pe = 0" using assms(1) by (auto simp: Peer_make_def split: option.splits)
  then have "peer_ok h pe" by (simp add: peer_ok_def)
  then have ok: "peer_ok h' pe'" using peer_reach_ok [OF assms(2)] by simp
  then have l: "pe_latency pe' \<le> 65535" by (simp add: peer_ok_def)
  have "if Peer_isAlive pe' now
       then relayQuality pe' now = (if pe_latency pe' = 0 then 0xffff else pe_latency pe') * (unat (now - pe_lastReceive pe') div 61000 + 1)
         \<and> relayQuality pe' now < 2 ^ 32 - 1
       else relayQuality pe' now = 2 ^ 32 - 1"
  proof (cases "now - pe_lastReceive pe' < ZT_PEER_ACTIVITY_TIMEOUT")
    case True
    show ?thesis
      using relayQuality_exact(2) [OF l True] unfolding Peer_isAlive_def if_P [OF True] relayQuality_exact(1) [OF l True]
      by (intro conjI refl) (erule le_less_trans, simp)
  next
    case False
    then show ?thesis by (simp add: Peer_isAlive_def relayQuality_def Let_def not_less)
  qed
  with ok show ?thesis by (simp add: peer_ok_def)
qed

theorem peer_invariant_witness:
  "\<exists>pe. Peer_make (\<lambda>_ _ n. replicate n 7) (sample_identity 1) (sample_identity 2) = Inr pe
    \<and> length (pe_paths (addDirectLatencyMeasurment 90000 pe)) \<le> 4 \<and> pe_latency (addDirectLatencyMeasurment 90000 pe) \<le> 65535"
proof -
  obtain pe where pe: "Peer_make (\<lambda>_ _ n. replicate n 7) (sample_identity 1) (sample_identity 2) = Inr pe"
    by (simp add: Peer_make_def agree_def sample_identity_def)
  have "peer_step\<^sup>*\<^sup>* (h, pe) (h, addDirectLatencyMeasurment 90000 pe)" for h
    by (rule r_into_rtranclp) (rule step_latency)
  from peer_invariant [OF pe this] pe show ?thesis by blast
qed

text \<open>
  C11. How a peer learns paths: after \<^verbatim>\<open>received\<close>, every path of the table was there before, or it is the
  path of this packet with the current time, the packet came directly, and either that address was
  known already or the packet is an OK and the node accepts the path.
\<close>

theorem received_learns:
  assumes "received E h pe r nhops pid v trust now = (h', pe', out, e)" and "pp \<in> set (pe_paths pe')"
  shows "pp \<in> set (pe_paths pe) \<or>
    (pp = \<lparr>pp_lastReceive = now, pp_path = r\<rparr> \<and> nhops = 0 \<and>
      (p_addr (h r) \<in> (\<lambda>q. p_addr (h (pp_path q))) ` set (pe_paths pe) \<or>
       v = VERB_OK \<and> ne_usable E (id_address (pe_id pe)) (p_localAddress (h r)) (p_addr (h r))))"
proof -
  obtain h1 pe1 where n: "received_note h pe r pid v trust now = (h1, pe1)" by fastforce
  have k: "pe_paths pe1 = pe_paths pe" "pe_id pe1 = pe_id pe" "p_addr (h1 q) = p_addr (h q)" for q
    using received_note_keeps [OF n] by (simp_all add: same_addrs_def)
  have l: "p_localAddress (h1 r) = p_localAddress (h r)"
    using n by (auto simp: received_note_def trustedPacketReceived_def updateLinkQuality_def Let_def split: if_splits)
  show ?thesis
  proof (cases "nhops = 0")
    case False
    then show ?thesis using assms n k by (auto simp: received_def split: if_splits prod.splits)
  next
    case True
    show ?thesis
    proof (cases "confirm_loop h1 r now (pe_paths pe)")
      case (Some ps)
      then have "pe_paths pe' = ps" using assms(1) n k True by (auto simp: received_def)
      moreover have "set ps \<subseteq> insert \<lparr>pp_lastReceive = now, pp_path = r\<rparr> (set (pe_paths pe))"
        "p_addr (h1 r) \<in> set (map (\<lambda>pp. p_addr (h1 (pp_path pp))) (pe_paths pe))"
        using Some confirm_loop_cases [where h = h1 and r = r and now = now and ps = "pe_paths pe"] confirm_loop_Some by auto
      ultimately show ?thesis using assms(2) k True by auto
    next
      case None
      have "pe_paths pe' = pe_paths pe \<or>
          pe_paths pe' = learn_path h1 pe1 r now \<and> v = VERB_OK \<and> ne_usable E (id_address (pe_id pe)) (p_localAddress (h r)) (p_addr (h r))"
        using assms(1) n k l True None by (auto simp: received_def split: if_splits prod.splits)
      moreover have "set (learn_path h1 pe1 r now) \<subseteq> insert \<lparr>pp_lastReceive = now, pp_path = r\<rparr> (set (pe_paths pe))"
        using set_update_subset_insert [of "pe_paths pe1" "replace_slot h1 pe1 r now"] k(1)
        by (simp add: learn_path_def Let_def subset_insertI)
      ultimately show ?thesis using assms(2) True by auto
    qed
  qed
qed

theorem received_learns_witness:
  "\<lparr>pp_lastReceive = 1000000, pp_path = 3\<rparr> \<notin> set (pe_paths (sample_peer []))
    \<and> (case received sample_env sample_heap (sample_peer []) 3 0 5 VERB_OK False 1000000 of
        (_, pe', _) \<Rightarrow> pe_paths pe' = [\<lparr>pp_lastReceive = 1000000, pp_path = 3\<rparr>])
    \<and> ne_usable sample_env 2 Inet_null (Inet4 0x0a000004 9993)"
proof -
  obtain h' pe' out e where r: "received sample_env sample_heap (sample_peer []) 3 0 5 VERB_OK False 1000000 = (h', pe', out, e)"
    by (metis prod_cases4)
  have p: "pe_paths (sample_peer []) = []" "id_address (pe_id (sample_peer [])) = 2" "\<not> pe_vProto (sample_peer []) \<ge> 9"
    by (simp_all add: sample_defs)
  then have pe': "pe_paths pe' = [\<lparr>pp_lastReceive = 1000000, pp_path = 3\<rparr>]"
    using r by (auto simp: received_def received_note_def learn_path_def Let_def sample_env_def split: if_splits)
  then have "ne_usable sample_env 2 Inet_null (Inet4 0x0a000004 9993)"
    using received_learns [OF r, of "\<lparr>pp_lastReceive = 1000000, pp_path = 3\<rparr>"] p
    by (simp add: sample_heap_def Path_make_def)
  with r p(1) pe' show ?thesis by simp
qed

end
