(* ===== verification/RateGates.thy ===== *)
theory RateGates
  imports Peer
begin

text \<open>
  The rate limits of \<^verbatim>\<open>zto/node/Peer.hpp\<close> over sequences of calls. Five of the gates share a contract,
  the locale \<open>rate_gate\<close>; the two that count calls are treated after it.
\<close>

section \<open>Sequences of calls\<close>

text \<open>The times at which a gate opens, for calls at the given times.\<close>

fun admitted :: "(u64 \<Rightarrow> 's \<Rightarrow> bool \<times> 's) \<Rightarrow> 's \<Rightarrow> u64 list \<Rightarrow> u64 list" where
  "admitted gate s [] = []"
| "admitted gate s (t # ts) =
     (case gate t s of (ok, s') \<Rightarrow> if ok then t # admitted gate s' ts else admitted gate s' ts)"

text \<open>The state after the calls.\<close>

fun gate_run :: "(u64 \<Rightarrow> 's \<Rightarrow> bool \<times> 's) \<Rightarrow> 's \<Rightarrow> u64 list \<Rightarrow> 's" where
  "gate_run gate s [] = s"
| "gate_run gate s (t # ts) = gate_run gate (snd (gate t s)) ts"

lemma unat_diff_le: "a \<le> b \<Longrightarrow> unat (b - a) = unat b - unat a" for a b :: u64
  by (rule unat_sub)

section \<open>The contract\<close>

locale rate_gate =
  fixes gate :: "u64 \<Rightarrow> 's \<Rightarrow> bool \<times> 's" and last_open :: "'s \<Rightarrow> u64" and limit :: u64
  assumes gate_open: "limit \<le> now - last_open s \<Longrightarrow> fst (gate now s) \<and> last_open (snd (gate now s)) = now"
    and gate_closed: "\<not> limit \<le> now - last_open s \<Longrightarrow> gate now s = (False, s)"
    and limit_pos: "0 < limit"
begin

lemma admitted_budget:
  assumes "sorted ts" and "\<forall>t \<in> set ts. last_open s \<le> t \<and> t \<le> b" and "last_open s \<le> b"
  shows "length (admitted gate s ts) * unat limit \<le> unat b - unat (last_open s)"
  using assms
proof (induction ts arbitrary: s)
  case (Cons t ts)
  show ?case
  proof (cases "limit \<le> t - last_open s")
    case True
    obtain s' where g: "gate t s = (True, s')" "last_open s' = t"
      using gate_open [OF True] by (cases "gate t s") auto
    have "length (admitted gate s' ts) * unat limit \<le> unat b - unat t"
      using Cons.IH [of s'] Cons.prems g(2) by simp
    moreover have "unat limit \<le> unat t - unat (last_open s)" "unat (last_open s) \<le> unat t" "unat t \<le> unat b"
      using True Cons.prems by (simp_all add: word_le_nat_alt unat_diff_le)
    ultimately show ?thesis using g(1) by simp
  qed (use Cons gate_closed in auto)
qed simp

lemma admitted_window:
  assumes "sorted ts" and "\<forall>t \<in> set ts. a \<le> t \<and> t \<le> b" and "last_open s \<le> a"
  shows "length (admitted gate s ts) \<le> unat (b - a) div unat limit + 1"
  using assms
proof (induction ts arbitrary: s)
  case (Cons t ts)
  show ?case
  proof (cases "limit \<le> t - last_open s")
    case True
    obtain s' where g: "gate t s = (True, s')" "last_open s' = t"
      using gate_open [OF True] by (cases "gate t s") auto
    have "length (admitted gate s' ts) * unat limit \<le> unat b - unat t"
      using admitted_budget [of ts s' b] Cons.prems g(2) by auto
    also have "\<dots> \<le> unat (b - a)"
    proof -
      have at: "a \<le> t" "t \<le> b" using Cons.prems by simp_all
      have "unat a \<le> unat t" using at(1) by (simp add: word_le_nat_alt)
      then show ?thesis using unat_diff_le [OF order_trans [OF at]] by simp
    qed
    finally have "length (admitted gate s' ts) \<le> unat (b - a) div unat limit"
      using limit_pos by (simp add: less_eq_div_iff_mult_less_eq unat_gt_0)
    then show ?thesis using g(1) by simp
  qed (use Cons gate_closed in auto)
qed simp

end

interpretation echo_gate: rate_gate rateGateEchoRequest pe_lastEchoRequestReceived ZT_PEER_GENERAL_RATE_LIMIT
  by unfold_locales (simp_all add: rateGateEchoRequest_def)

interpretation whois_gate: rate_gate rateGateInboundWhoisRequest pe_lastWhoisRequestReceived ZT_PEER_WHOIS_RATE_LIMIT
  by unfold_locales (simp_all add: rateGateInboundWhoisRequest_def)

interpretation credreq_gate: rate_gate rateGateRequestCredentials pe_lastCredentialRequestSent ZT_PEER_GENERAL_RATE_LIMIT
  by unfold_locales (simp_all add: rateGateRequestCredentials_def)

interpretation com_in_gate: rate_gate rateGateIncomingComRequest pe_lastComRequestReceived ZT_PEER_GENERAL_RATE_LIMIT
  by unfold_locales (simp_all add: rateGateIncomingComRequest_def)

interpretation com_out_gate: rate_gate rateGateOutgoingComRequest pe_lastComRequestSent ZT_PEER_GENERAL_RATE_LIMIT
  by unfold_locales (simp_all add: rateGateOutgoingComRequest_def)

text \<open>
  C16. Rate limits: for calls at non-decreasing times between \<open>a\<close> and \<open>b\<close>, the gates for ECHO, for
  credential requests and for certificate requests open at most once per second and the gate for
  WHOIS at most once per 100 ms, plus once, however often they are tried.
\<close>

theorem rate_gates_limit:
  assumes "sorted ts" and "\<forall>t \<in> set ts. a \<le> t \<and> t \<le> b"
    and "pe_lastEchoRequestReceived pe \<le> a" and "pe_lastWhoisRequestReceived pe \<le> a" and "pe_lastCredentialRequestSent pe \<le> a"
    and "pe_lastComRequestReceived pe \<le> a" and "pe_lastComRequestSent pe \<le> a"
  shows "length (admitted rateGateEchoRequest pe ts) \<le> unat (b - a) div 1000 + 1
    \<and> length (admitted rateGateInboundWhoisRequest pe ts) \<le> unat (b - a) div 100 + 1
    \<and> length (admitted rateGateRequestCredentials pe ts) \<le> unat (b - a) div 1000 + 1
    \<and> length (admitted rateGateIncomingComRequest pe ts) \<le> unat (b - a) div 1000 + 1
    \<and> length (admitted rateGateOutgoingComRequest pe ts) \<le> unat (b - a) div 1000 + 1"
  using echo_gate.admitted_window [OF assms(1,2,3)] whois_gate.admitted_window [OF assms(1,2,4)]
    credreq_gate.admitted_window [OF assms(1,2,5)] com_in_gate.admitted_window [OF assms(1,2,6)]
    com_out_gate.admitted_window [OF assms(1,2,7)] by simp

theorem rate_gates_limit_witness:
  "length (admitted rateGateEchoRequest (sample_peer []) [5000, 5001, 5002, 5999]) \<le> 1"
  using rate_gates_limit [of "[5000, 5001, 5002, 5999]" 5000 5999 "sample_peer []"] by (simp add: sample_defs)

section \<open>The counting gates\<close>

lemma push_gate_burst:
  assumes "successively (\<lambda>x y. y - x \<le> ZT_PUSH_DIRECT_PATHS_CUTOFF_TIME) (pe_lastDirectPathPushReceive pe # ts)"
    and "pe_directPathPushCutoffCount pe + length ts < 2 ^ 32"
  shows "admitted rateGatePushDirectPaths pe ts = take (4 - pe_directPathPushCutoffCount pe) ts"
  using assms
proof (induction ts arbitrary: pe)
  case (Cons t ts)
  define pe' where "pe' = snd (rateGatePushDirectPaths t pe)"
  have f: "pe_lastDirectPathPushReceive pe' = t" "pe_directPathPushCutoffCount pe' = pe_directPathPushCutoffCount pe + 1"
    "fst (rateGatePushDirectPaths t pe) = (pe_directPathPushCutoffCount pe + 1 < 5)"
    using Cons.prems by (simp_all add: pe'_def rateGatePushDirectPaths_def Let_def u32_add_def)
  have "admitted rateGatePushDirectPaths pe' ts = take (4 - pe_directPathPushCutoffCount pe') ts"
    using Cons.prems f by (intro Cons.IH) (auto simp: successively_Cons)
  moreover have "take (4 - c) (t # ts) = (if c + 1 < 5 then t # take (4 - (c + 1)) ts else take (4 - (c + 1)) ts)" for c
    by (cases "4 - c") (auto simp: take_Cons' intro: arg_cong [where f = "\<lambda>n. take n ts"])
  ultimately show ?case using f by (simp add: pe'_def split_beta)
qed simp

lemma push_gate_reopens:
  "ZT_PUSH_DIRECT_PATHS_CUTOFF_TIME < t - pe_lastDirectPathPushReceive pe \<Longrightarrow>
    fst (rateGatePushDirectPaths t pe) \<and> pe_directPathPushCutoffCount (snd (rateGatePushDirectPaths t pe)) = 0"
  by (auto simp: rateGatePushDirectPaths_def Let_def)

text \<open>The gate for credentials neither reads its own counter nor changes the one that it tests.\<close>

lemma credentials_gate_all_or_none:
  "admitted rateGateCredentialsReceived pe ts = (if pe_directPathPushCutoffCount pe < 15 then ts else [])"
proof (induction ts arbitrary: pe)
  case (Cons t ts)
  have "fst (rateGateCredentialsReceived t pe) \<longleftrightarrow> pe_directPathPushCutoffCount pe < 15"
    "pe_directPathPushCutoffCount (snd (rateGateCredentialsReceived t pe)) = pe_directPathPushCutoffCount pe"
    by (simp_all add: rateGateCredentialsReceived_def Let_def)
  with Cons.IH show ?case by (simp add: split_beta)
qed simp

lemma credentials_gate_counts:
  assumes "successively (\<lambda>x y. y - x \<le> ZT_PEER_CREDENTIALS_CUTOFF_TIME) (pe_lastCredentialsReceived pe # ts)"
    and "pe_credentialsCutoffCount pe + length ts < 2 ^ 32"
  shows "pe_credentialsCutoffCount (gate_run rateGateCredentialsReceived pe ts) = pe_credentialsCutoffCount pe + length ts"
  using assms
proof (induction ts arbitrary: pe)
  case (Cons t ts)
  define pe' where "pe' = snd (rateGateCredentialsReceived t pe)"
  have f: "pe_lastCredentialsReceived pe' = t" "pe_credentialsCutoffCount pe' = pe_credentialsCutoffCount pe + 1"
    using Cons.prems by (simp_all add: pe'_def rateGateCredentialsReceived_def Let_def u32_add_def)
  have "pe_credentialsCutoffCount (gate_run rateGateCredentialsReceived pe' ts) = pe_credentialsCutoffCount pe' + length ts"
    using Cons.prems f by (intro Cons.IH) (auto simp: successively_Cons)
  then show ?case using f by (simp add: pe'_def)
qed simp

text \<open>
  C25. The gate for pushed paths is a circuit breaker: of calls that follow each other within the
  cutoff time it admits the first ones, until its counter has reached five, and none of those after
  them; a call after a longer pause is admitted and resets the counter. The gate for credentials has
  the same form and its counter counts the same way, but it tests the counter of the other gate:
  while that one is below 15 it admits every call, and otherwise none, however many credentials came.
\<close>

theorem counting_gates:
  assumes "successively (\<lambda>x y. y - x \<le> 60000) (pe_lastDirectPathPushReceive pe # ts)"
    and "successively (\<lambda>x y. y - x \<le> 60000) (pe_lastCredentialsReceived pe # ts)"
    and "pe_directPathPushCutoffCount pe + length ts < 2 ^ 32" and "pe_credentialsCutoffCount pe + length ts < 2 ^ 32"
  shows "admitted rateGatePushDirectPaths pe ts = take (4 - pe_directPathPushCutoffCount pe) ts
    \<and> (60000 < t - pe_lastDirectPathPushReceive pe \<longrightarrow>
        fst (rateGatePushDirectPaths t pe) \<and> pe_directPathPushCutoffCount (snd (rateGatePushDirectPaths t pe)) = 0)
    \<and> admitted rateGateCredentialsReceived pe us = (if pe_directPathPushCutoffCount pe < 15 then us else [])
    \<and> pe_credentialsCutoffCount (gate_run rateGateCredentialsReceived pe ts) = pe_credentialsCutoffCount pe + length ts"
  using push_gate_burst [OF assms(1,3)] push_gate_reopens credentials_gate_all_or_none
    credentials_gate_counts [OF assms(2,4)] by blast

theorem counting_gates_witness:
  "let pe = sample_peer []; ts = map of_nat [1..<101] in
     length (admitted rateGatePushDirectPaths pe ts) = 4 \<and> length (admitted rateGateCredentialsReceived pe ts) = 100
     \<and> pe_credentialsCutoffCount (gate_run rateGateCredentialsReceived pe ts) = 100"
proof -
  let ?ts = "map of_nat [1..<101] :: u64 list"
  have f: "pe_lastDirectPathPushReceive (sample_peer []) = 0" "pe_lastCredentialsReceived (sample_peer []) = 0"
    "pe_directPathPushCutoffCount (sample_peer []) = 0" "pe_credentialsCutoffCount (sample_peer []) = 0"
    by (simp_all add: sample_defs)
  have "successively (\<lambda>x y. y - x \<le> 60000) (0 # ?ts)" by code_simp
  then show ?thesis
    using counting_gates [of "sample_peer []" ?ts _ ?ts] unfolding f Let_def by (simp del: upt_rec_numeral)
qed

end
