(* ===== verification/World.thy ===== *)
theory World
  imports Identity InetAddress
begin

text \<open>
  World definitions, the signed lists of root servers of \<^verbatim>\<open>zto/node/World.hpp\<close>, and the certificates of
  representation of \<^verbatim>\<open>zto/node/CertificateOfRepresentation.hpp\<close>, with their wire formats. The locale
  \<open>wire_format\<close> is the contract of a value that is written into a buffer and read back; lists of such
  values get their round trip from it. Signature checks are a parameter \<open>verify key message signature\<close>.
\<close>

section \<open>Values on the wire\<close>

text \<open>A loop that reads \<open>k\<close> values one after the other from position \<open>p\<close>: the values and the position after them.\<close>

fun de_list :: "(bytes \<Rightarrow> nat \<Rightarrow> ('a \<times> nat) res) \<Rightarrow> nat \<Rightarrow> bytes \<Rightarrow> nat \<Rightarrow> ('a list \<times> nat) res" where
  "de_list de 0 b p = Inr ([], p)"
| "de_list de (Suc k) b p =
     ebind (de b p) (\<lambda>(x, n). ebind (de_list de k b (p + n)) (\<lambda>(xs, p). Inr (x # xs, p)))"

locale wire_format =
  fixes ser :: "nat \<Rightarrow> bytes \<Rightarrow> 'a \<Rightarrow> bytes res"
    and de :: "bytes \<Rightarrow> nat \<Rightarrow> ('a \<times> nat) res"
    and ok :: "'a \<Rightarrow> bool"
    and sent :: "'a \<Rightarrow> 'a"
    and width :: nat
  assumes wire: "ok x \<Longrightarrow> length b + width \<le> C \<Longrightarrow>
    \<exists>w. ser C b x = Inr (b @ w) \<and> length w \<le> width \<and> (\<forall>rest. de (b @ w @ rest) (length b) = Inr (sent x, length w))"
begin

lemma wire_list:
  assumes "list_all ok xs" and "length b + width * length xs \<le> C"
  shows "\<exists>w. efold (\<lambda>x b. ser C b x) xs b = Inr (b @ w) \<and> length w \<le> width * length xs
    \<and> (\<forall>rest. de_list de (length xs) (b @ w @ rest) (length b) = Inr (map sent xs, length b + length w))"
  using assms
proof (induction xs arbitrary: b)
  case (Cons x xs)
  have x: "ok x" "length b + width \<le> C" using Cons.prems by auto
  obtain w where w: "ser C b x = Inr (b @ w)" "length w \<le> width"
    "\<And>rest. de (b @ w @ rest) (length b) = Inr (sent x, length w)"
    using wire [OF x] by blast
  have "list_all ok xs" "length (b @ w) + width * length xs \<le> C" using Cons.prems w(2) by auto
  from Cons.IH [OF this] obtain v where v: "efold (\<lambda>x b. ser C b x) xs (b @ w) = Inr ((b @ w) @ v)" "length v \<le> width * length xs"
    "\<And>rest. de_list de (length xs) ((b @ w) @ v @ rest) (length (b @ w)) = Inr (map sent xs, length (b @ w) + length v)"
    by blast
  have "efold (\<lambda>x b. ser C b x) (x # xs) b = Inr (b @ w @ v)" using w(1) v(1) by simp
  moreover have "length (w @ v) \<le> width * length (x # xs)" using w(2) v(2) by simp
  moreover have "de_list de (length (x # xs)) (b @ (w @ v) @ rest) (length b) = Inr (map sent (x # xs), length b + length (w @ v))" for rest
    using w(3) [of "v @ rest"] v(3) [of rest] by simp
  ultimately show ?case by blast
qed simp

end

interpretation inet_format: wire_format InetAddress_serialize InetAddress_deserialize "\<lambda>_. True" inet_wire 19
proof
  fix b :: bytes and C and a :: inet
  assume c: "length b + 19 \<le> C"
  have l: "inet_wire_length a \<le> 19" by (cases a) simp_all
  obtain w where "InetAddress_serialize C b a = Inr (b @ w)" "length w = inet_wire_length a"
    "\<forall>rest. InetAddress_deserialize (b @ w @ rest) (length b) = Inr (inet_wire a, inet_wire_length a)"
    using InetAddress_roundtrip [of b a C] c l by auto
  then show "\<exists>w. InetAddress_serialize C b a = Inr (b @ w) \<and> length w \<le> 19
      \<and> (\<forall>rest. InetAddress_deserialize (b @ w @ rest) (length b) = Inr (inet_wire a, length w))"
    using l by (intro exI [of _ w]) auto
qed

text \<open>The private key of an identity is not sent.\<close>

interpretation identity_format: wire_format "\<lambda>C b. Identity_serialize C b False" Identity_deserialize identity_ok "written False" 135
proof
  fix b :: bytes and C and i :: identity
  assume "identity_ok i" and "length b + 135 \<le> C"
  then show "\<exists>w. Identity_serialize C b False i = Inr (b @ w) \<and> length w \<le> 135
      \<and> (\<forall>rest. Identity_deserialize (b @ w @ rest) (length b) = Inr (written False i, length w))"
    by (rule Identity_binary) blast
qed

section \<open>Worlds\<close>

abbreviation (input) ZT_WORLD_MAX_ROOTS :: nat where "ZT_WORLD_MAX_ROOTS \<equiv> 4"
abbreviation (input) ZT_WORLD_MAX_STABLE_ENDPOINTS_PER_ROOT :: nat where "ZT_WORLD_MAX_STABLE_ENDPOINTS_PER_ROOT \<equiv> 32"
abbreviation (input) ZT_WORLD_MAX_SERIALIZED_LENGTH :: nat where "ZT_WORLD_MAX_SERIALIZED_LENGTH \<equiv> 8480"

datatype world_type = TYPE_NULL | TYPE_PLANET | TYPE_MOON

fun world_type_byte :: "world_type \<Rightarrow> byte" where
  "world_type_byte TYPE_NULL = 0"
| "world_type_byte TYPE_PLANET = 1"
| "world_type_byte TYPE_MOON = 127"

record root =
  root_identity :: identity
  root_stableEndpoints :: "inet list"

record world =
  w_id :: u64
  w_ts :: u64
  w_type :: world_type
  w_updatesMustBeSignedBy :: bytes
  w_signature :: bytes
  w_roots :: "root list"

text \<open>The constructor leaves the key and the signature uninitialised.\<close>

definition World_null :: "bytes \<Rightarrow> bytes \<Rightarrow> world" where
  "World_null key sig =
     \<lparr>w_id = 0, w_ts = 0, w_type = TYPE_NULL, w_updatesMustBeSignedBy = key, w_signature = sig, w_roots = []\<rparr>"

definition Root_eq :: "root \<Rightarrow> root \<Rightarrow> bool" where
  "Root_eq r s \<longleftrightarrow> Identity_eq (root_identity r) (root_identity s)
     \<and> list_all2 InetAddress_eq (root_stableEndpoints r) (root_stableEndpoints s)"

definition World_eq :: "world \<Rightarrow> world \<Rightarrow> bool" where
  "World_eq w v \<longleftrightarrow> w_id w = w_id v \<and> w_ts w = w_ts v \<and> w_updatesMustBeSignedBy w = w_updatesMustBeSignedBy v
     \<and> w_signature w = w_signature v \<and> list_all2 Root_eq (w_roots w) (w_roots v) \<and> w_type w = w_type v"

definition World_less :: "world \<Rightarrow> world \<Rightarrow> bool" where
  "World_less w v =
     (if world_type_byte (w_type w) < world_type_byte (w_type v) then True
      else if w_type w = w_type v then w_id w < w_id v else False)"

definition root_serialize :: "nat \<Rightarrow> bytes \<Rightarrow> root \<Rightarrow> bytes res" where
  "root_serialize C b r =
     ebind (Identity_serialize C b False (root_identity r)) (\<lambda>b.
     ebind (bs_append C b [of_nat (length (root_stableEndpoints r))]) (\<lambda>b.
     efold (\<lambda>ep b. InetAddress_serialize C b ep) (root_stableEndpoints r) b))"

definition World_serialize :: "nat \<Rightarrow> bytes \<Rightarrow> bool \<Rightarrow> world \<Rightarrow> bytes res" where
  "World_serialize C b forSign w =
     ebind (if forSign then bs_append C b (be_enc 8 (0x7f7f7f7f7f7f7f7f :: u64)) else Inr b) (\<lambda>b.
     ebind (bs_append C b [world_type_byte (w_type w)]) (\<lambda>b.
     ebind (bs_append C b (be_enc 8 (w_id w))) (\<lambda>b.
     ebind (bs_append C b (be_enc 8 (w_ts w))) (\<lambda>b.
     ebind (bs_append C b (w_updatesMustBeSignedBy w)) (\<lambda>b.
     ebind (if forSign then Inr b else bs_append C b (w_signature w)) (\<lambda>b.
     ebind (bs_append C b [of_nat (length (w_roots w))]) (\<lambda>b.
     ebind (efold (\<lambda>r b. root_serialize C b r) (w_roots w) b) (\<lambda>b.
     ebind (if w_type w = TYPE_MOON then bs_append C b (be_enc 2 (0 :: u16)) else Inr b) (\<lambda>b.
     if forSign then bs_append C b (be_enc 8 (0xf7f7f7f7f7f7f7f7 :: u64)) else Inr b)))))))))"

text \<open>A root and the number of bytes it takes.\<close>

definition root_deserialize :: "bytes \<Rightarrow> nat \<Rightarrow> (root \<times> nat) res" where
  "root_deserialize b p =
     ebind (Identity_deserialize b p) (\<lambda>(i, n).
     ebind (bs_get b (p + n)) (\<lambda>c.
     if unat c > ZT_WORLD_MAX_STABLE_ENDPOINTS_PER_ROOT then Inl InvalidArg
     else ebind (de_list InetAddress_deserialize (unat c) b (p + n + 1)) (\<lambda>(eps, q).
            Inr (\<lparr>root_identity = i, root_stableEndpoints = eps\<rparr>, q - p))))"

definition World_deserialize :: "bytes \<Rightarrow> nat \<Rightarrow> (world \<times> nat) res" where
  "World_deserialize b startAt =
     ebind (bs_get b startAt) (\<lambda>t.
     ebind (if t = 0 then Inr TYPE_NULL else if t = 1 then Inr TYPE_PLANET else if t = 127 then Inr TYPE_MOON
            else Inl InvalidArg) (\<lambda>ty.
     let p = startAt + 1 in
     ebind (bs_at b p) (\<lambda>wid.
     ebind (bs_at b (p + 8)) (\<lambda>ts.
     ebind (bs_field b (p + 16) 64) (\<lambda>key.
     ebind (bs_field b (p + 80) 96) (\<lambda>sig.
     ebind (bs_get b (p + 176)) (\<lambda>numRoots.
     if unat numRoots > ZT_WORLD_MAX_ROOTS then Inl InvalidArg
     else
       ebind (de_list root_deserialize (unat numRoots) b (p + 177)) (\<lambda>(rs, p).
       ebind (if ty = TYPE_MOON then ebind (bs_at b p) (\<lambda>n :: u16. Inr (p + (unat n + 2))) else Inr p) (\<lambda>p.
       Inr (\<lparr>w_id = wid, w_ts = ts, w_type = ty, w_updatesMustBeSignedBy = key, w_signature = sig, w_roots = rs\<rparr>,
            p - startAt))))))))))"

definition World_shouldBeReplacedBy :: "(bytes \<Rightarrow> bytes \<Rightarrow> bytes \<Rightarrow> bool) \<Rightarrow> world \<Rightarrow> world \<Rightarrow> bool res" where
  "World_shouldBeReplacedBy verify w update =
     (if w_id w = 0 \<or> w_type w = TYPE_NULL then Inr True
      else if w_id w = w_id update \<and> w_ts w < w_ts update \<and> w_type w = w_type update then
        ebind (World_serialize ZT_WORLD_MAX_SERIALIZED_LENGTH [] True update) (\<lambda>tmp.
        Inr (verify (w_updatesMustBeSignedBy w) tmp (w_signature update)))
      else Inr False)"

text \<open>\<open>sign\<close> signs with the private key of the pair.\<close>

definition World_make ::
  "(key_pair \<Rightarrow> bytes \<Rightarrow> bytes) \<Rightarrow> world_type \<Rightarrow> u64 \<Rightarrow> u64 \<Rightarrow> bytes \<Rightarrow> root list \<Rightarrow> key_pair \<Rightarrow> world res" where
  "World_make sign t wid ts sk roots signWith =
     (let w = \<lparr>w_id = wid, w_ts = ts, w_type = t, w_updatesMustBeSignedBy = sk, w_signature = [], w_roots = roots\<rparr> in
      ebind (World_serialize ZT_WORLD_MAX_SERIALIZED_LENGTH [] True w) (\<lambda>tmp.
      Inr (w\<lparr>w_signature := sign signWith tmp\<rparr>)))"

section \<open>Certificates of representation\<close>

abbreviation (input) ZT_CERTIFICATEOFREPRESENTATION_MAX_ADDRESSES :: nat where "ZT_CERTIFICATEOFREPRESENTATION_MAX_ADDRESSES \<equiv> 64"

record cor =
  cor_timestamp :: u64
  cor_reps :: "address list"
  cor_signature :: bytes

definition cor_clear :: cor where
  "cor_clear = \<lparr>cor_timestamp = 0, cor_reps = [], cor_signature = replicate 96 0\<rparr>"

definition addRepresentative :: "address \<Rightarrow> cor \<Rightarrow> bool \<times> cor" where
  "addRepresentative r c =
     (if length (cor_reps c) < ZT_CERTIFICATEOFREPRESENTATION_MAX_ADDRESSES
      then (True, c\<lparr>cor_reps := cor_reps c @ [r]\<rparr>) else (False, c))"

definition cor_serialize :: "nat \<Rightarrow> bytes \<Rightarrow> bool \<Rightarrow> cor \<Rightarrow> bytes res" where
  "cor_serialize C b forSign c =
     ebind (if forSign then bs_append C b (be_enc 8 (0x7f7f7f7f7f7f7f7f :: u64)) else Inr b) (\<lambda>b.
     ebind (bs_append C b (be_enc 8 (cor_timestamp c))) (\<lambda>b.
     ebind (bs_append C b (be_enc 2 (of_nat (length (cor_reps c)) :: u16))) (\<lambda>b.
     ebind (efold (\<lambda>a b. Address_appendTo a C b) (cor_reps c) b) (\<lambda>b.
     ebind (if forSign then Inr b
            else ebind (bs_append C b [1]) (\<lambda>b. ebind (bs_append C b (be_enc 2 (96 :: u16))) (\<lambda>b. bs_append C b (cor_signature c)))) (\<lambda>b.
     ebind (bs_append C b (be_enc 2 (0 :: u16))) (\<lambda>b.
     if forSign then bs_append C b (be_enc 8 (0x7f7f7f7f7f7f7f7f :: u64)) else Inr b))))))"

text \<open>The buffer for the signed bytes has the size of the C++ object, 624 bytes, and 32 more.\<close>

definition cor_sign :: "(identity \<Rightarrow> bytes \<Rightarrow> bytes) \<Rightarrow> identity \<Rightarrow> u64 \<Rightarrow> cor \<Rightarrow> cor res" where
  "cor_sign sign myIdentity ts c =
     (let c = c\<lparr>cor_timestamp := ts\<rparr> in
      ebind (cor_serialize 656 [] True c) (\<lambda>tmp. Inr (c\<lparr>cor_signature := sign myIdentity tmp\<rparr>)))"

definition cor_verify :: "(bytes \<Rightarrow> bytes \<Rightarrow> bytes \<Rightarrow> bool) \<Rightarrow> identity \<Rightarrow> cor \<Rightarrow> bool" where
  "cor_verify verify senderIdentity c =
     (case cor_serialize 656 [] True c of
        Inl _ \<Rightarrow> False
      | Inr tmp \<Rightarrow> verify (id_publicKey senderIdentity) tmp (cor_signature c))"

text \<open>The addresses from index \<open>i\<close> on, of which \<open>k\<close> follow; those beyond the 64th are skipped.\<close>

fun cor_reps_loop :: "bytes \<Rightarrow> nat \<Rightarrow> nat \<Rightarrow> nat \<Rightarrow> (address list \<times> nat) res" where
  "cor_reps_loop b i 0 p = Inr ([], p)"
| "cor_reps_loop b i (Suc k) p =
     (if i < ZT_CERTIFICATEOFREPRESENTATION_MAX_ADDRESSES then
        ebind (bs_field b p 5) (\<lambda>a.
        ebind (cor_reps_loop b (i + 1) k (p + 5)) (\<lambda>(as, p). Inr (Address_setTo a # as, p)))
      else cor_reps_loop b (i + 1) k (p + 5))"

definition cor_deserialize :: "bytes \<Rightarrow> nat \<Rightarrow> (cor \<times> nat) res" where
  "cor_deserialize b startAt =
     ebind (bs_at b startAt) (\<lambda>ts.
     ebind (bs_at b (startAt + 8)) (\<lambda>rc :: u16.
     ebind (cor_reps_loop b 0 (unat rc) (startAt + 10)) (\<lambda>(reps, p).
     ebind (bs_get b p) (\<lambda>t.
     ebind (if t = 1 then
              ebind (bs_at b (p + 1)) (\<lambda>n :: u16.
              if n = 96 then ebind (bs_field b (p + 3) 96) (\<lambda>sig. Inr (sig, p + 99)) else Inl RuntimeError)
            else ebind (bs_at b (p + 1)) (\<lambda>n :: u16. Inr (replicate 96 0, p + 1 + (2 + unat n)))) (\<lambda>(sig, p).
     ebind (bs_at b p) (\<lambda>n :: u16.
     let p = p + (2 + unat n) in
     if p > length b then Inl RuntimeError
     else Inr (\<lparr>cor_timestamp = ts, cor_reps = reps, cor_signature = sig\<rparr>, p - startAt)))))))"

section \<open>Round trips\<close>

definition root_ok :: "root \<Rightarrow> bool" where
  "root_ok r \<longleftrightarrow> identity_ok (root_identity r) \<and> length (root_stableEndpoints r) \<le> ZT_WORLD_MAX_STABLE_ENDPOINTS_PER_ROOT"

definition root_sent :: "root \<Rightarrow> root" where
  "root_sent r = \<lparr>root_identity = written False (root_identity r), root_stableEndpoints = map inet_wire (root_stableEndpoints r)\<rparr>"

interpretation root_format: wire_format root_serialize root_deserialize root_ok root_sent 744
proof
  fix b :: bytes and C and r :: root
  assume r: "root_ok r" and c: "length b + 744 \<le> C"
  let ?n = "length (root_stableEndpoints r)"
  have "identity_ok (root_identity r)" "length b + 135 \<le> C" and n: "?n \<le> 32" using r c by (auto simp: root_ok_def)
  from identity_format.wire [OF this(1,2)] obtain w where w: "Identity_serialize C b False (root_identity r) = Inr (b @ w)" "length w \<le> 135"
    "\<And>rest. Identity_deserialize (b @ w @ rest) (length b) = Inr (written False (root_identity r), length w)" by blast
  let ?b = "b @ w @ [of_nat ?n]"
  have "list_all (\<lambda>_. True) (root_stableEndpoints r)" "length ?b + 19 * ?n \<le> C" using w(2) c n by (auto simp: list_all_iff)
  from inet_format.wire_list [OF this] obtain v where v: "efold (\<lambda>ep b. InetAddress_serialize C b ep) (root_stableEndpoints r) ?b = Inr (?b @ v)"
    "length v \<le> 19 * ?n"
    "\<And>rest. de_list InetAddress_deserialize ?n (?b @ v @ rest) (length ?b) = Inr (map inet_wire (root_stableEndpoints r), length ?b + length v)"
    by blast
  have u: "unat (of_nat ?n :: byte) = ?n" using n by (simp add: unat_of_nat)
  have "root_serialize C b r = Inr (b @ w @ of_nat ?n # v)"
    using w c n v(1) by (simp add: root_serialize_def bs_append_def)
  moreover have "length (w @ of_nat ?n # v) \<le> 744" using w(2) v(2) n by simp
  moreover have "root_deserialize (b @ (w @ of_nat ?n # v) @ rest) (length b) = Inr (root_sent r, length (w @ of_nat ?n # v))" for rest
    using w(3) [of "of_nat ?n # v @ rest"] v(3) [of rest] u n
    by (simp add: root_deserialize_def root_sent_def bs_get_def nth_append)
  ultimately show "\<exists>w. root_serialize C b r = Inr (b @ w) \<and> length w \<le> 744
      \<and> (\<forall>rest. root_deserialize (b @ w @ rest) (length b) = Inr (root_sent r, length w))" by blast
qed

definition world_ok :: "world \<Rightarrow> bool" where
  "world_ok w \<longleftrightarrow> length (w_updatesMustBeSignedBy w) = 64 \<and> length (w_signature w) = 96
     \<and> length (w_roots w) \<le> ZT_WORLD_MAX_ROOTS \<and> list_all root_ok (w_roots w)"

definition world_sent :: "world \<Rightarrow> world" where
  "world_sent w = w\<lparr>w_roots := map root_sent (w_roots w)\<rparr>"

text \<open>The bytes of a world up to its roots.\<close>

definition world_head :: "bool \<Rightarrow> world \<Rightarrow> bytes" where
  "world_head forSign w =
     (if forSign then be_enc 8 (0x7f7f7f7f7f7f7f7f :: u64) else []) @ [world_type_byte (w_type w)] @ be_enc 8 (w_id w) @ be_enc 8 (w_ts w)
     @ w_updatesMustBeSignedBy w @ (if forSign then [] else w_signature w) @ [of_nat (length (w_roots w))]"

definition world_tail :: "bool \<Rightarrow> world \<Rightarrow> bytes" where
  "world_tail forSign w =
     (if w_type w = TYPE_MOON then be_enc 2 (0 :: u16) else []) @ (if forSign then be_enc 8 (0xf7f7f7f7f7f7f7f7 :: u64) else [])"

lemma world_wire:
  assumes "world_ok w" and "length b + 4000 \<le> C"
  obtains v where "World_serialize C b forSign w = Inr (b @ world_head forSign w @ v @ world_tail forSign w)"
    and "length v \<le> 2976"
    and "\<And>rest. de_list root_deserialize (length (w_roots w)) (b @ world_head forSign w @ v @ rest) (length (b @ world_head forSign w))
           = Inr (map root_sent (w_roots w), length (b @ world_head forSign w) + length v)"
proof -
  let ?b = "b @ world_head forSign w"
  have h: "length (world_head forSign w) \<le> 200" using assms(1) by (simp add: world_head_def world_ok_def del: be_enc_numeral)
  have "list_all root_ok (w_roots w)" "length ?b + 744 * length (w_roots w) \<le> C" and n: "length (w_roots w) \<le> 4"
    using assms h by (auto simp: world_ok_def)
  from root_format.wire_list [OF this(1,2)] obtain v where v: "efold (\<lambda>r b. root_serialize C b r) (w_roots w) ?b = Inr (?b @ v)"
    "length v \<le> 744 * length (w_roots w)"
    "\<And>rest. de_list root_deserialize (length (w_roots w)) (?b @ v @ rest) (length ?b) = Inr (map root_sent (w_roots w), length ?b + length v)"
    by blast
  have "length v \<le> 2976" using v(2) n by simp
  moreover from this have "World_serialize C b forSign w = Inr (?b @ v @ world_tail forSign w)"
    using assms v(1)
    by (cases forSign; cases "w_type w")
      (simp_all add: World_serialize_def world_head_def world_tail_def world_ok_def bs_append_def del: be_enc_numeral)
  ultimately show thesis using that [of v] v(3) by simp
qed

lemma World_deserialize_wire:
  assumes "world_ok w"
    and "\<And>rest. de_list root_deserialize (length (w_roots w)) (b @ world_head False w @ v @ rest) (length (b @ world_head False w))
           = Inr (map root_sent (w_roots w), length (b @ world_head False w) + length v)"
  shows "World_deserialize (b @ (world_head False w @ v @ world_tail False w) @ rest) (length b)
    = Inr (world_sent w, length (world_head False w @ v @ world_tail False w))"
proof -
  let ?B = "b @ (world_head False w @ v @ world_tail False w) @ rest"
  have n: "unat (of_nat (length (w_roots w)) :: byte) = length (w_roots w)" "\<not> length (w_roots w) > 4"
    using assms(1) by (auto simp: world_ok_def unat_of_nat)
  have hl: "length (world_head False w) = 178" using assms(1) by (simp add: world_head_def world_ok_def del: be_enc_numeral)
  have "bs_get ?B (length b) = Inr (world_type_byte (w_type w))"
    by (simp add: bs_get_def world_head_def nth_append del: be_enc_numeral)
  moreover have "bs_at ?B (length b + 1) = Inr (w_id w)" "bs_at ?B (length b + 1 + 8) = Inr (w_ts w)"
    "bs_field ?B (length b + 1 + 16) 64 = Inr (w_updatesMustBeSignedBy w)" "bs_field ?B (length b + 1 + 80) 96 = Inr (w_signature w)"
    "bs_get ?B (length b + 1 + 176) = Inr (of_nat (length (w_roots w)))"
    using assms(1) by (simp_all add: bs_get_def bs_at_def bs_field_def sub_def world_head_def world_ok_def nth_append be_dec_enc_id del: be_enc_numeral)
  moreover have "de_list root_deserialize (length (w_roots w)) ?B (length b + 1 + 177) = Inr (map root_sent (w_roots w), length b + 178 + length v)"
    using assms(2) [of "world_tail False w @ rest"] hl by (simp add: add.commute [of 178])
  moreover have "bs_at ?B (length b + 178 + length v) = Inr (0 :: u16)" if "w_type w = TYPE_MOON"
    using that hl by (simp add: bs_at_def sub_def world_tail_def be_dec_enc_id del: be_enc_numeral)
  moreover have "length (world_tail False w) = (if w_type w = TYPE_MOON then 2 else 0)" by (simp add: world_tail_def)
  ultimately show ?thesis
    unfolding World_deserialize_def Let_def
    by (cases "w_type w") (simp_all only: ebind.simps prod.case n if_False, simp_all add: world_sent_def hl)
qed

text \<open>The bytes that are signed determine all of a world but the signature itself.\<close>

lemma signed_bytes_determine:
  assumes ok: "world_ok w" "world_ok v"
    and eq: "World_serialize 8480 [] True w = World_serialize 8480 [] True v"
  shows "world_sent w = (world_sent v)\<lparr>w_signature := w_signature w\<rparr>"
proof -
  let ?h = "world_head True"
  obtain x where x: "World_serialize 8480 [] True w = Inr ([] @ ?h w @ x @ world_tail True w)"
    "\<And>rest. de_list root_deserialize (length (w_roots w)) ([] @ ?h w @ x @ rest) (length ([] @ ?h w))
       = Inr (map root_sent (w_roots w), length ([] @ ?h w) + length x)"
    using world_wire [OF ok(1), of "[]" 8480 True] by auto
  obtain y where y: "World_serialize 8480 [] True v = Inr ([] @ ?h v @ y @ world_tail True v)"
    "\<And>rest. de_list root_deserialize (length (w_roots v)) ([] @ ?h v @ y @ rest) (length ([] @ ?h v))
       = Inr (map root_sent (w_roots v), length ([] @ ?h v) + length y)"
    using world_wire [OF ok(2), of "[]" 8480 True] by auto
  have len: "length (?h w) = length (?h v)" using ok by (simp add: world_head_def world_ok_def del: be_enc_numeral)
  have b: "?h w @ x @ world_tail True w = ?h v @ y @ world_tail True v" using eq x(1) y(1) by simp
  then have h: "?h w = ?h v" using len by simp
  then have f: "world_type_byte (w_type w) = world_type_byte (w_type v)" "be_enc 8 (w_id w) = be_enc 8 (w_id v)"
    "be_enc 8 (w_ts w) = be_enc 8 (w_ts v)" "w_updatesMustBeSignedBy w = w_updatesMustBeSignedBy v"
    "(of_nat (length (w_roots w)) :: byte) = of_nat (length (w_roots v))"
    using ok by (simp_all add: world_head_def world_ok_def del: be_enc_numeral)
  have "unat (of_nat (length (w_roots w)) :: byte) = length (w_roots w)" "unat (of_nat (length (w_roots v)) :: byte) = length (w_roots v)"
    using ok by (simp_all add: world_ok_def unat_of_nat)
  then have n: "length (w_roots w) = length (w_roots v)" using f(5) by metis
  have "map root_sent (w_roots w) = map root_sent (w_roots v)"
    using x(2) [of "world_tail True w"] y(2) [of "world_tail True v"] b h n by simp
  moreover have "w_type w = w_type v" using f(1) by (cases "w_type w"; cases "w_type v") simp_all
  moreover have "w_id w = w_id v" "w_ts w = w_ts v"
    using f(2,3) be_enc_inject [where n = 8 and v = "w_id w" and w = "w_id v"]
      be_enc_inject [where n = 8 and v = "w_ts w" and w = "w_ts v"] by simp_all
  ultimately show ?thesis using f(4) by (simp add: world_sent_def)
qed

text \<open>Certificates of representation: what is signed always fits, and what is sent is read back.\<close>

lemma cor_reps_loop_wire:
  assumes "i + length as \<le> 64" and "\<forall>a \<in> set as. a < 2 ^ 40"
  shows "cor_reps_loop (b @ concat (map Address_bytes as) @ rest) i (length as) (length b) = Inr (as, length b + 5 * length as)"
  using assms
proof (induction as arbitrary: b i)
  case (Cons a as)
  from Cons.IH [of "i + 1" "b @ Address_bytes a"] Cons.prems show ?case
    by (auto simp: bs_field_def sub_def Address_setTo_roundtrip)
qed simp

lemma cor_append_reps:
  "length b + 5 * length as \<le> C \<Longrightarrow> efold (\<lambda>a b. Address_appendTo a C b) as b = Inr (b @ concat (map Address_bytes as))"
  by (induction as arbitrary: b) (auto simp: Address_appendTo_def bs_append_def)

lemma cor_roundtrip:
  assumes "length (cor_reps c) \<le> 64" and "\<forall>a \<in> set (cor_reps c). a < 2 ^ 40" and "length (cor_signature c) = 96"
  shows "\<exists>m. cor_serialize 656 [] True c = Inr m"
    and "\<exists>d. cor_serialize 5776 [] False c = Inr d \<and> (\<forall>rest. cor_deserialize (d @ rest) 0 = Inr (c, length d))"
proof -
  let ?n = "length (cor_reps c)"
  let ?as = "concat (map Address_bytes (cor_reps c))"
  have n: "unat (of_nat ?n :: u16) = ?n" using assms(1) by (simp add: unat_of_nat)
  have la: "length ?as = 5 * ?n" by (induction "cor_reps c") (simp_all add: length_concat comp_def sum_list_triv)
  show "\<exists>m. cor_serialize 656 [] True c = Inr m"
    using assms(1) la by (simp add: cor_serialize_def bs_append_def cor_append_reps del: be_enc_numeral)
  let ?h = "be_enc 8 (cor_timestamp c) @ be_enc 2 (of_nat ?n :: u16)"
  let ?t = "1 # be_enc 2 (96 :: u16) @ cor_signature c @ be_enc 2 (0 :: u16)"
  have ser: "cor_serialize 5776 [] False c = Inr (?h @ ?as @ ?t)"
    using assms la by (simp add: cor_serialize_def bs_append_def cor_append_reps del: be_enc_numeral)
  have "cor_deserialize ((?h @ ?as @ ?t) @ rest) 0 = Inr (c, length (?h @ ?as @ ?t))" for rest
  proof -
    let ?B = "?h @ ?as @ ?t @ rest"
    have "bs_at ?B 0 = Inr (cor_timestamp c)" "bs_at ?B (0 + 8) = Inr (of_nat ?n :: u16)"
      by (simp_all add: bs_at_def sub_def be_dec_enc_id del: be_enc_numeral)
    moreover have "cor_reps_loop ?B 0 ?n (0 + 10) = Inr (cor_reps c, 10 + 5 * ?n)"
      using cor_reps_loop_wire [of 0 "cor_reps c" ?h "?t @ rest"] assms(1,2) by (simp del: be_enc_numeral)
    moreover have "bs_get ?B (10 + 5 * ?n) = Inr 1" "bs_at ?B (10 + 5 * ?n + 1) = Inr (96 :: u16)"
      "bs_field ?B (10 + 5 * ?n + 3) 96 = Inr (cor_signature c)" "bs_at ?B (10 + 5 * ?n + 99) = Inr (0 :: u16)"
      using la assms(3) by (simp_all add: bs_get_def bs_at_def bs_field_def sub_def nth_append be_dec_enc_id del: be_enc_numeral)
    ultimately show ?thesis
      using la assms(3) unfolding cor_deserialize_def by (simp add: n del: be_enc_numeral)
  qed
  with ser show "\<exists>d. cor_serialize 5776 [] False c = Inr d \<and> (\<forall>rest. cor_deserialize (d @ rest) 0 = Inr (c, length d))"
    by blast
qed

text \<open>
  C22. World definitions on the wire: a world with at most 4 roots of at most 32 endpoints each is
  serialized within the buffer of \<^verbatim>\<open>ZT_WORLD_MAX_SERIALIZED_LENGTH\<close> bytes, and deserializing it,
  whatever follows, gives it back (without private keys and IPv6 flow labels) and consumes exactly its
  bytes. The bytes that are signed determine the world: two worlds that a signature could be taken for
  agree in everything but the signature.
\<close>

theorem World_roundtrip:
  assumes "world_ok w"
  shows "(\<exists>d. World_serialize 8480 [] False w = Inr d
      \<and> (\<forall>rest. World_deserialize (d @ rest) 0 = Inr (world_sent w, length d)))
    \<and> (\<exists>m. World_serialize 8480 [] True w = Inr m)
    \<and> (\<forall>v. world_ok v \<and> World_serialize 8480 [] True v = World_serialize 8480 [] True w \<longrightarrow>
        world_sent v = (world_sent w)\<lparr>w_signature := w_signature v\<rparr>)"
proof (intro conjI allI impI)
  obtain x where "World_serialize 8480 [] False w = Inr ([] @ world_head False w @ x @ world_tail False w)"
    "\<And>rest. de_list root_deserialize (length (w_roots w)) ([] @ world_head False w @ x @ rest) (length ([] @ world_head False w))
       = Inr (map root_sent (w_roots w), length ([] @ world_head False w) + length x)"
    using world_wire [OF assms, of "[]" 8480 False] by auto
  with World_deserialize_wire [OF assms this(2)]
  show "\<exists>d. World_serialize 8480 [] False w = Inr d \<and> (\<forall>rest. World_deserialize (d @ rest) 0 = Inr (world_sent w, length d))"
    by fastforce
  show "\<exists>m. World_serialize 8480 [] True w = Inr m"
    using world_wire [OF assms, of "[]" 8480 True] by auto
next
  fix v assume "world_ok v \<and> World_serialize 8480 [] True v = World_serialize 8480 [] True w"
  then show "world_sent v = (world_sent w)\<lparr>w_signature := w_signature v\<rparr>"
    using signed_bytes_determine assms by blast
qed

definition sample_world :: world where
  "sample_world = \<lparr>w_id = 7, w_ts = 9, w_type = TYPE_MOON, w_updatesMustBeSignedBy = replicate 64 3, w_signature = replicate 96 4,
     w_roots = [\<lparr>root_identity = \<lparr>id_address = 5, id_publicKey = replicate 64 6, id_privateKey = None\<rparr>,
                 root_stableEndpoints = [Inet4 0x0a000001 9993]\<rparr>]\<rparr>"

theorem World_roundtrip_witness:
  "\<exists>d. World_serialize 8480 [] False sample_world = Inr d \<and> World_deserialize (d @ [1, 2]) 0 = Inr (world_sent sample_world, length d)"
proof -
  have "world_ok sample_world" by (simp add: sample_world_def world_ok_def root_ok_def identity_ok_def)
  from World_roundtrip [OF this] show ?thesis by blast
qed

end
