(* ===== verification/Topology.thy ===== *)
theory Topology
  imports Peer World "HOL-Library.AList"
begin

text \<open>
  The table of known nodes: \<^verbatim>\<open>zto/node/Topology.hpp\<close> and \<^verbatim>\<open>Topology.cpp\<close>. It owns the peers, the paths (the
  heap of theory \<open>Peer\<close>), the planet and the moons, and the list of upstream nodes computed from
  them. The hash tables are association lists here, in the order in which their iterators visit them;
  theory \<open>Hashtable\<close> shows that the code's tables behave as maps.
\<close>

section \<open>State\<close>

text \<open>The names of objects in the data store of the host program: \<^verbatim>\<open>iddb.d/%.10llx\<close>, \<^verbatim>\<open>moons.d/%.16llx.moon\<close>, \<^verbatim>\<open>planet\<close>.\<close>

datatype object_name = Iddb address | MoonsD u64 | PlanetObj

text \<open>
  The environment: the node's identity, key agreement, signatures, uninitialised memory, and the
  objects that the host's data store keeps when they are written or deleted.
\<close>

record topo_env =
  te_self :: identity
  te_dh :: "bytes \<Rightarrow> bytes \<Rightarrow> nat \<Rightarrow> bytes"
  te_sign :: "identity \<Rightarrow> bytes \<Rightarrow> bytes"
  te_verify :: "bytes \<Rightarrow> bytes \<Rightarrow> bytes \<Rightarrow> bool"
  te_junk :: bytes
  te_keeps :: "object_name \<Rightarrow> bool"

record topology =
  tp_trustedPaths :: "(u64 \<times> inet) list"
  tp_peers :: "(address \<times> peer) list"
  tp_paths :: "(hash_key \<times> pathref) list"
  tp_heap :: path_heap
  tp_nextPath :: pathref
  tp_planet :: world
  tp_moons :: "world list"
  tp_moonSeeds :: "(u64 \<times> address) list"
  tp_upstreamAddresses :: "address list"
  tp_cor :: cor
  tp_amRoot :: bool
  tp_store :: "object_name \<Rightarrow> bytes"

datatype peer_role = ROLE_LEAF | ROLE_MOON | ROLE_PLANET

definition dataStorePut :: "topo_env \<Rightarrow> object_name \<Rightarrow> bytes \<Rightarrow> topology \<Rightarrow> topology" where
  "dataStorePut E n v T = (if te_keeps E n then T\<lparr>tp_store := (tp_store T)(n := v)\<rparr> else T)"

abbreviation dataStoreDelete :: "topo_env \<Rightarrow> object_name \<Rightarrow> topology \<Rightarrow> topology" where
  "dataStoreDelete E n \<equiv> dataStorePut E n []"

section \<open>Identities and peers\<close>

definition Identity_null :: "bytes \<Rightarrow> identity" where
  "Identity_null junk = \<lparr>id_address = 0, id_publicKey = junk, id_privateKey = None\<rparr>"

definition stored_identity :: "topo_env \<Rightarrow> address \<Rightarrow> topology \<Rightarrow> identity" where
  "stored_identity E zta T =
     (let ids = tp_store T (Iddb zta) in
      if length ids > 0 then
        (case Identity_fromString (te_junk E) (Identity_null (te_junk E)) (Some (takeWhile (\<lambda>c. c \<noteq> 0) ids)) of
           Inr (True, i) \<Rightarrow> i
         | _ \<Rightarrow> Identity_null (te_junk E))
      else Identity_null (te_junk E))"

definition saveIdentity :: "topo_env \<Rightarrow> identity \<Rightarrow> topology \<Rightarrow> topology" where
  "saveIdentity E i T =
     (if id_address i \<noteq> 0 then dataStorePut E (Iddb (id_address i)) (Identity_toString False i) T else T)"

definition addPeer :: "topo_env \<Rightarrow> peer \<Rightarrow> topology \<Rightarrow> peer \<times> topology" where
  "addPeer E pe T =
     (let a = id_address (pe_id pe);
          (np, T) = (case map_of (tp_peers T) a of
                       Some hp \<Rightarrow> (hp, T)
                     | None \<Rightarrow> (pe, T\<lparr>tp_peers := AList.update a pe (tp_peers T)\<rparr>))
      in (np, saveIdentity E (pe_id np) T))"

definition getPeer :: "topo_env \<Rightarrow> address \<Rightarrow> topology \<Rightarrow> peer option \<times> topology" where
  "getPeer E zta T =
     (if zta = id_address (te_self E) then (None, T)
      else case map_of (tp_peers T) zta of
        Some pe \<Rightarrow> (Some pe, T)
      | None \<Rightarrow>
          (let i = stored_identity E zta T in
           if id_address i \<noteq> 0 then
             (case Peer_make (te_dh E) (te_self E) i of
                Inl _ \<Rightarrow> (None, T)
              | Inr np \<Rightarrow> (Some np, T\<lparr>tp_peers := AList.update zta np (tp_peers T)\<rparr>))
           else (None, T)))"

definition getPeerNoCache :: "address \<Rightarrow> topology \<Rightarrow> peer option" where
  "getPeerNoCache zta T = map_of (tp_peers T) zta"

definition getIdentity :: "topo_env \<Rightarrow> address \<Rightarrow> topology \<Rightarrow> identity" where
  "getIdentity E zta T =
     (if zta = id_address (te_self E) then te_self E
      else case map_of (tp_peers T) zta of
        Some pe \<Rightarrow> pe_id pe
      | None \<Rightarrow> stored_identity E zta T)"

text \<open>A path that is not in the table is allocated at the next free place of the heap.\<close>

definition getPath :: "u64 \<Rightarrow> inet \<Rightarrow> inet \<Rightarrow> topology \<Rightarrow> pathref \<times> topology" where
  "getPath junk l r T =
     (let k = HashKey junk l r in
      case map_of (tp_paths T) k of
        Some p \<Rightarrow> (p, T)
      | None \<Rightarrow>
          (let p = tp_nextPath T in
           (p, T\<lparr>tp_paths := AList.update k p (tp_paths T), tp_heap := (tp_heap T)(p := Path_make l r), tp_nextPath := p + 1\<rparr>)))"

section \<open>Upstream nodes\<close>

text \<open>
  The loop over the upstream addresses, with the best quality and peer so far, overall and among
  those not to be avoided.
\<close>

fun upstream_loop ::
  "topology \<Rightarrow> address list \<Rightarrow> u64 \<Rightarrow> address list \<Rightarrow> nat \<times> peer option \<Rightarrow> nat \<times> peer option \<Rightarrow> peer option \<times> peer option" where
  "upstream_loop T avoid now [] (qa, bestOverall) (qn, bestNotAvoid) = (bestOverall, bestNotAvoid)"
| "upstream_loop T avoid now (a # as) (qa, bestOverall) (qn, bestNotAvoid) =
     (case map_of (tp_peers T) a of
        None \<Rightarrow> upstream_loop T avoid now as (qa, bestOverall) (qn, bestNotAvoid)
      | Some p \<Rightarrow>
          (let avoiding = (id_address (pe_id p) \<in> set avoid); q = relayQuality p now
           in upstream_loop T avoid now as
                (if q \<le> qa then (q, Some p) else (qa, bestOverall))
                (if \<not> avoiding \<and> q \<le> qn then (q, Some p) else (qn, bestNotAvoid))))"

definition getUpstreamPeer :: "address list \<Rightarrow> bool \<Rightarrow> u64 \<Rightarrow> topology \<Rightarrow> peer option" where
  "getUpstreamPeer avoid strictAvoid now T =
     (case upstream_loop T avoid now (tp_upstreamAddresses T) (2 ^ 32 - 1, None) (2 ^ 32 - 1, None) of
        (bestOverall, bestNotAvoid) \<Rightarrow>
          (case bestNotAvoid of
             Some p \<Rightarrow> Some p
           | None \<Rightarrow> if \<not> strictAvoid then bestOverall else None))"

definition isUpstream :: "identity \<Rightarrow> topology \<Rightarrow> bool" where
  "isUpstream i T \<longleftrightarrow> id_address i \<in> set (tp_upstreamAddresses T)"

definition shouldAcceptWorldUpdateFrom :: "address \<Rightarrow> topology \<Rightarrow> bool" where
  "shouldAcceptWorldUpdateFrom a T \<longleftrightarrow> a \<in> set (tp_upstreamAddresses T) \<or> list_ex (\<lambda>s. snd s = a) (tp_moonSeeds T)"

definition role :: "address \<Rightarrow> topology \<Rightarrow> peer_role" where
  "role a T =
     (if a \<in> set (tp_upstreamAddresses T) then
        if list_ex (\<lambda>r. id_address (root_identity r) = a) (w_roots (tp_planet T)) then ROLE_PLANET else ROLE_MOON
      else ROLE_LEAF)"

text \<open>The loops over the roots of a world: whether one of them returns false, so that the endpoint is allowed.\<close>

definition endpoint_allowed :: "address \<Rightarrow> inet \<Rightarrow> root list \<Rightarrow> bool" where
  "endpoint_allowed a ip rs =
     list_ex (\<lambda>r. id_address (root_identity r) = a \<and>
       (root_stableEndpoints r = [] \<or> list_ex (ipsEqual ip) (root_stableEndpoints r))) rs"

definition isProhibitedEndpoint :: "address \<Rightarrow> inet \<Rightarrow> topology \<Rightarrow> bool" where
  "isProhibitedEndpoint a ip T =
     (if a \<in> set (tp_upstreamAddresses T) then
        \<not> endpoint_allowed a ip (w_roots (tp_planet T)) \<and> \<not> list_ex (\<lambda>m. endpoint_allowed a ip (w_roots m)) (tp_moons T)
      else False)"

text \<open>The endpoints of all upstream nodes, and an entry without endpoints for each moon seed.\<close>

fun add_endpoints :: "inet list \<Rightarrow> inet list \<Rightarrow> inet list" where
  "add_endpoints ips [] = ips"
| "add_endpoints ips (j # js) = add_endpoints (if list_ex (\<lambda>i. InetAddress_eq i j) ips then ips else ips @ [j]) js"

definition eps_get :: "(address \<times> inet list) list \<Rightarrow> address \<Rightarrow> inet list" where
  "eps_get eps a = (case map_of eps a of Some ips \<Rightarrow> ips | None \<Rightarrow> [])"

definition eps_root :: "root \<Rightarrow> (address \<times> inet list) list \<Rightarrow> (address \<times> inet list) list" where
  "eps_root r eps =
     (let a = id_address (root_identity r) in AList.update a (add_endpoints (eps_get eps a) (root_stableEndpoints r)) eps)"

definition getUpstreamsToContact :: "topology \<Rightarrow> (address \<times> inet list) list \<Rightarrow> (address \<times> inet list) list" where
  "getUpstreamsToContact T eps =
     (let eps = fold eps_root (w_roots (tp_planet T)) eps;
          eps = fold (\<lambda>m. fold eps_root (w_roots m)) (tp_moons T) eps
      in fold (\<lambda>m eps. AList.update (snd m) (eps_get eps (snd m)) eps) (tp_moonSeeds T) eps)"

fun moonsWanted_loop :: "u64 list \<Rightarrow> (u64 \<times> address) list \<Rightarrow> u64 list" where
  "moonsWanted_loop mw [] = mw"
| "moonsWanted_loop mw (s # ss) = moonsWanted_loop (if fst s \<in> set mw then mw else mw @ [fst s]) ss"

definition moonsWanted :: "topology \<Rightarrow> u64 list" where
  "moonsWanted T = moonsWanted_loop [] (tp_moonSeeds T)"

section \<open>Worlds\<close>

text \<open>One root of the loops of \<^verbatim>\<open>_memoizeUpstreams\<close>.\<close>

definition memoize_root :: "topo_env \<Rightarrow> root \<Rightarrow> topology \<Rightarrow> topology res" where
  "memoize_root E r T =
     (let i = root_identity r; a = id_address i in
      if Identity_eq i (te_self E) then Inr (T\<lparr>tp_amRoot := True\<rparr>)
      else if a \<in> set (tp_upstreamAddresses T) then Inr T
      else
        (let T = T\<lparr>tp_upstreamAddresses := tp_upstreamAddresses T @ [a]\<rparr> in
         case map_of (tp_peers T) a of
           Some _ \<Rightarrow> Inr T
         | None \<Rightarrow>
             ebind (Peer_make (te_dh E) (te_self E) i) (\<lambda>hp.
             Inr (saveIdentity E i (T\<lparr>tp_peers := AList.update a hp (tp_peers T)\<rparr>)))))"

fun cor_fill :: "address list \<Rightarrow> cor \<Rightarrow> cor" where
  "cor_fill [] c = c"
| "cor_fill (a # as) c = (case addRepresentative a c of (True, c) \<Rightarrow> cor_fill as c | (False, c) \<Rightarrow> c)"

definition memoizeUpstreams :: "topo_env \<Rightarrow> u64 \<Rightarrow> topology \<Rightarrow> topology res" where
  "memoizeUpstreams E now T =
     ebind (efold (memoize_root E) (w_roots (tp_planet T)) (T\<lparr>tp_upstreamAddresses := [], tp_amRoot := False\<rparr>)) (\<lambda>T.
     ebind (efold (\<lambda>m. efold (memoize_root E) (w_roots m)) (tp_moons T) T) (\<lambda>T.
     let ups = sort (tp_upstreamAddresses T) in
     ebind (cor_sign (te_sign E) (te_self E) now (cor_fill ups cor_clear)) (\<lambda>c.
     Inr (T\<lparr>tp_upstreamAddresses := ups, tp_cor := c\<rparr>))))"

fun replace_moon :: "world \<Rightarrow> world list \<Rightarrow> world list" where
  "replace_moon w [] = []"
| "replace_moon w (m # ms) = (if w_id m = w_id w then w # ms else m # replace_moon w ms)"

text \<open>The seeds without the first one that names this moon and one of its roots.\<close>

fun take_seed :: "world \<Rightarrow> (u64 \<times> address) list \<Rightarrow> (u64 \<times> address) list option" where
  "take_seed w [] = None"
| "take_seed w (s # ss) =
     (if fst s = w_id w \<and> list_ex (\<lambda>r. id_address (root_identity r) = snd s) (w_roots w) then Some ss
      else map_option ((#) s) (take_seed w ss))"

text \<open>The decision of \<^verbatim>\<open>addWorld\<close>: \<open>None\<close> if the world is refused, else the topology with it in place.\<close>

definition accept_world :: "topo_env \<Rightarrow> world \<Rightarrow> bool \<Rightarrow> topology \<Rightarrow> topology option res" where
  "accept_world E w alwaysAcceptNew T =
     (case w_type w of
        TYPE_NULL \<Rightarrow> Inr None
      | TYPE_PLANET \<Rightarrow>
          ebind (World_shouldBeReplacedBy (te_verify E) (tp_planet T) w) (\<lambda>ok.
          Inr (if ok then Some (T\<lparr>tp_planet := w\<rparr>) else None))
      | TYPE_MOON \<Rightarrow>
          (case find (\<lambda>m. w_id m = w_id w) (tp_moons T) of
             Some existing \<Rightarrow>
               ebind (World_shouldBeReplacedBy (te_verify E) existing w) (\<lambda>ok.
               Inr (if ok then Some (T\<lparr>tp_moons := replace_moon w (tp_moons T)\<rparr>) else None))
           | None \<Rightarrow>
               if alwaysAcceptNew then Inr (Some (T\<lparr>tp_moons := tp_moons T @ [w]\<rparr>))
               else (case take_seed w (tp_moonSeeds T) of
                       Some seeds \<Rightarrow> Inr (Some (T\<lparr>tp_moonSeeds := seeds, tp_moons := tp_moons T @ [w]\<rparr>))
                     | None \<Rightarrow> Inr None)))"

definition save_world :: "topo_env \<Rightarrow> world \<Rightarrow> topology \<Rightarrow> topology" where
  "save_world E w T =
     (let savePath = (if w_type w = TYPE_MOON then MoonsD (w_id w) else PlanetObj) in
      case World_serialize ZT_WORLD_MAX_SERIALIZED_LENGTH [] False w of
        Inr d \<Rightarrow> dataStorePut E savePath d T
      | Inl _ \<Rightarrow> dataStoreDelete E savePath T)"

text \<open>
  An exception of \<open>Peer_make\<close> would leave the tables half updated; it is only thrown when the node's
  own identity has no private key, which \<^verbatim>\<open>Node::Node\<close> excludes.
\<close>

definition addWorld :: "topo_env \<Rightarrow> u64 \<Rightarrow> world \<Rightarrow> bool \<Rightarrow> topology \<Rightarrow> (bool \<times> topology) res" where
  "addWorld E now w alwaysAcceptNew T =
     ebind (accept_world E w alwaysAcceptNew T) (\<lambda>r.
     case r of
       None \<Rightarrow> Inr (False, T)
     | Some T \<Rightarrow> ebind (memoizeUpstreams E now (save_world E w T)) (\<lambda>T. Inr (True, T)))"

text \<open>A moon from the data store, if there is a valid one of this id.\<close>

definition stored_moon :: "u64 \<Rightarrow> topology \<Rightarrow> world option" where
  "stored_moon i T =
     (let moonBin = tp_store T (MoonsD i) in
      if length moonBin > 1 then
        (case ebind (bs_copy ZT_WORLD_MAX_SERIALIZED_LENGTH moonBin) (\<lambda>wtmp. World_deserialize wtmp 0) of
           Inr (w, _) \<Rightarrow> if w_type w = TYPE_MOON \<and> w_id w = i then Some w else None
         | Inl _ \<Rightarrow> None)
      else None)"

definition add_seed :: "u64 \<Rightarrow> address \<Rightarrow> topology \<Rightarrow> topology" where
  "add_seed i seed T =
     (if seed \<noteq> 0 \<and> (i, seed) \<notin> set (tp_moonSeeds T) then T\<lparr>tp_moonSeeds := tp_moonSeeds T @ [(i, seed)]\<rparr> else T)"

definition addMoon :: "topo_env \<Rightarrow> u64 \<Rightarrow> u64 \<Rightarrow> address \<Rightarrow> topology \<Rightarrow> topology" where
  "addMoon E now i seed T =
     (case stored_moon i T of
        Some w \<Rightarrow> (case addWorld E now w True T of Inr (_, T) \<Rightarrow> T | Inl _ \<Rightarrow> add_seed i seed T)
      | None \<Rightarrow> add_seed i seed T)"

definition removeMoon :: "topo_env \<Rightarrow> u64 \<Rightarrow> u64 \<Rightarrow> topology \<Rightarrow> topology res" where
  "removeMoon E now i T =
     (let T = (if list_ex (\<lambda>m. w_id m = i) (tp_moons T) then dataStoreDelete E (MoonsD i) T else T) in
      memoizeUpstreams E now
        (T\<lparr>tp_moons := filter (\<lambda>m. w_id m \<noteq> i) (tp_moons T), tp_moonSeeds := filter (\<lambda>m. fst m \<noteq> i) (tp_moonSeeds T)\<rparr>))"

section \<open>Housekeeping\<close>

text \<open>A path is weak, and reclaimed, when no peer refers to it.\<close>

definition clean :: "u64 \<Rightarrow> topology \<Rightarrow> topology" where
  "clean now T =
     (let ps = filter (\<lambda>(a, p). Peer_isAlive p now \<or> a \<in> set (tp_upstreamAddresses T)) (tp_peers T);
          used = (\<lambda>r. list_ex (\<lambda>(a, p). list_ex (\<lambda>pp. pp_path pp = r) (pe_paths p)) ps)
      in T\<lparr>tp_peers := ps, tp_paths := filter (\<lambda>(k, r). used r) (tp_paths T)\<rparr>)"

definition countActive :: "u64 \<Rightarrow> topology \<Rightarrow> nat" where
  "countActive now T = length (filter (\<lambda>(a, p). hasActiveDirectPath (tp_heap T) p now) (tp_peers T))"

section \<open>Trusted paths\<close>

abbreviation (input) ZT_MAX_TRUSTED_PATHS :: nat where "ZT_MAX_TRUSTED_PATHS \<equiv> 16"

fun outbound_loop :: "inet \<Rightarrow> (u64 \<times> inet) list \<Rightarrow> u64 res" where
  "outbound_loop a [] = Inr 0"
| "outbound_loop a ((i, net) # ts) = ebind (containsAddress net a) (\<lambda>c. if c then Inr i else outbound_loop a ts)"

definition getOutboundPathTrust :: "inet \<Rightarrow> topology \<Rightarrow> u64 res" where
  "getOutboundPathTrust a T = outbound_loop a (tp_trustedPaths T)"

fun inbound_loop :: "inet \<Rightarrow> u64 \<Rightarrow> (u64 \<times> inet) list \<Rightarrow> bool res" where
  "inbound_loop a pid [] = Inr False"
| "inbound_loop a pid ((i, net) # ts) =
     (if i = pid then ebind (containsAddress net a) (\<lambda>c. if c then Inr True else inbound_loop a pid ts)
      else inbound_loop a pid ts)"

definition shouldInboundPathBeTrusted :: "inet \<Rightarrow> u64 \<Rightarrow> topology \<Rightarrow> bool res" where
  "shouldInboundPathBeTrusted a pid T = inbound_loop a pid (tp_trustedPaths T)"

definition setTrustedPaths :: "(u64 \<times> inet) list \<Rightarrow> topology \<Rightarrow> topology" where
  "setTrustedPaths ts T = T\<lparr>tp_trustedPaths := take ZT_MAX_TRUSTED_PATHS ts\<rparr>"

section \<open>Start\<close>

text \<open>The built-in planet.\<close>

definition ZT_DEFAULT_WORLD :: bytes where
  "ZT_DEFAULT_WORLD =
    [0x01, 0x00, 0x00, 0x00, 0x00, 0x08, 0xea, 0xc9, 0x0a, 0x00, 0x00, 0x01, 0x52, 0x3c, 0x32, 0x50, 0x1a, 0xb8, 0xb3, 0x88, 0xa4, 0x69, 0x22, 0x14,
     0x91, 0xaa, 0x9a, 0xcd, 0x66, 0xcc, 0x76, 0x4c, 0xde, 0xfd, 0x56, 0x03, 0x9f, 0x10, 0x67, 0xae, 0x15, 0xe6, 0x9c, 0x6f, 0xb4, 0x2d, 0x7b, 0x55,
     0x33, 0x0e, 0x3f, 0xda, 0xac, 0x52, 0x9c, 0x07, 0x92, 0xfd, 0x73, 0x40, 0xa6, 0xaa, 0x21, 0xab, 0xa8, 0xa4, 0x89, 0xfd, 0xae, 0xa4, 0x4a, 0x39,
     0xbf, 0x2d, 0x00, 0x65, 0x9a, 0xc9, 0xc8, 0x18, 0xeb, 0x4a, 0xf7, 0x86, 0xa8, 0x40, 0xd6, 0x52, 0xea, 0xae, 0x9e, 0x7a, 0xbf, 0x4c, 0x97, 0x66,
     0xab, 0x2d, 0x6f, 0xaf, 0xc9, 0x2b, 0x3a, 0xff, 0xed, 0xd6, 0x30, 0x3e, 0xc4, 0x6a, 0x65, 0xf2, 0xbd, 0x83, 0x52, 0xf5, 0x40, 0xe9, 0xcc, 0x0d,
     0x6e, 0x89, 0x3f, 0x9a, 0xa0, 0xb8, 0xdf, 0x42, 0xd2, 0x2f, 0x84, 0xe6, 0x03, 0x26, 0x0f, 0xa8, 0xe3, 0xcc, 0x05, 0x05, 0x03, 0xef, 0x12, 0x80,
     0x0d, 0xce, 0x3e, 0xb6, 0x58, 0x3b, 0x1f, 0xa8, 0xad, 0xc7, 0x25, 0xf9, 0x43, 0x71, 0xa7, 0x5c, 0x9a, 0xc7, 0xe1, 0xa3, 0xb8, 0x88, 0xd0, 0x71,
     0x6c, 0x94, 0x99, 0x73, 0x41, 0x0b, 0x1b, 0x48, 0x84, 0x02, 0x9d, 0x21, 0x90, 0x39, 0xf3, 0x00, 0x01, 0xf0, 0x92, 0x2a, 0x98, 0xe3, 0xb3, 0x4e,
     0xbc, 0xbf, 0xf3, 0x33, 0x26, 0x9d, 0xc2, 0x65, 0xd7, 0xa0, 0x20, 0xaa, 0xb6, 0x9d, 0x72, 0xbe, 0x4d, 0x4a, 0xcc, 0x9c, 0x8c, 0x92, 0x94, 0x78,
     0x57, 0x71, 0x25, 0x6c, 0xd1, 0xd9, 0x42, 0xa9, 0x0d, 0x1b, 0xd1, 0xd2, 0xdc, 0xa3, 0xea, 0x84, 0xef, 0x7d, 0x85, 0xaf, 0xe6, 0x61, 0x1f, 0xb4,
     0x3f, 0xf0, 0xb7, 0x41, 0x26, 0xd9, 0x0a, 0x6e, 0x00, 0x0c, 0x04, 0xbc, 0xa6, 0x5e, 0xb1, 0x27, 0x09, 0x06, 0x2a, 0x03, 0xb0, 0xc0, 0x00, 0x02,
     0x00, 0xd0, 0x00, 0x00, 0x00, 0x00, 0x00, 0x7d, 0x00, 0x01, 0x27, 0x09, 0x04, 0x9a, 0x42, 0xc5, 0x21, 0x27, 0x09, 0x06, 0x2c, 0x0f, 0xf8, 0x50,
     0x01, 0x54, 0x01, 0x97, 0x00, 0x00, 0x00, 0x00, 0x00, 0x00, 0x00, 0x33, 0x27, 0x09, 0x04, 0x9f, 0xcb, 0x61, 0xab, 0x27, 0x09, 0x06, 0x26, 0x04,
     0xa8, 0x80, 0x08, 0x00, 0x00, 0xa1, 0x00, 0x00, 0x00, 0x00, 0x00, 0x54, 0x60, 0x01, 0x27, 0x09, 0x04, 0xa9, 0x39, 0x8f, 0x68, 0x27, 0x09, 0x06,
     0x26, 0x07, 0xf0, 0xd0, 0x1d, 0x01, 0x00, 0x57, 0x00, 0x00, 0x00, 0x00, 0x00, 0x00, 0x00, 0x02, 0x27, 0x09, 0x04, 0x6b, 0xaa, 0xc5, 0x0e, 0x27,
     0x09, 0x06, 0x26, 0x04, 0xa8, 0x80, 0x00, 0x01, 0x00, 0x20, 0x00, 0x00, 0x00, 0x00, 0x02, 0x00, 0xe0, 0x01, 0x27, 0x09, 0x04, 0x80, 0xc7, 0xc5,
     0xd9, 0x27, 0x09, 0x06, 0x24, 0x00, 0x61, 0x80, 0x00, 0x00, 0x00, 0xd0, 0x00, 0x00, 0x00, 0x00, 0x00, 0xb7, 0x40, 0x01, 0x27, 0x09, 0x88, 0x41,
     0x40, 0x8a, 0x2e, 0x00, 0xbb, 0x1d, 0x31, 0xf2, 0xc3, 0x23, 0xe2, 0x64, 0xe9, 0xe6, 0x41, 0x72, 0xc1, 0xa7, 0x4f, 0x77, 0x89, 0x95, 0x55, 0xed,
     0x10, 0x75, 0x1c, 0xd5, 0x6e, 0x86, 0x40, 0x5c, 0xde, 0x11, 0x8d, 0x02, 0xdf, 0xfe, 0x55, 0x5d, 0x46, 0x2c, 0xcf, 0x6a, 0x85, 0xb5, 0x63, 0x1c,
     0x12, 0x35, 0x0c, 0x8d, 0x5d, 0xc4, 0x09, 0xba, 0x10, 0xb9, 0x02, 0x5d, 0x0f, 0x44, 0x5c, 0xf4, 0x49, 0xd9, 0x2b, 0x1c, 0x00, 0x0c, 0x04, 0x2d,
     0x20, 0xc6, 0x82, 0x27, 0x09, 0x06, 0x20, 0x01, 0x19, 0xf0, 0x64, 0x00, 0x81, 0xc3, 0x54, 0x00, 0x00, 0xff, 0xfe, 0x18, 0x1d, 0x61, 0x27, 0x09,
     0x04, 0x2e, 0x65, 0xa0, 0xf9, 0x27, 0x09, 0x06, 0x2a, 0x03, 0xb0, 0xc0, 0x00, 0x03, 0x00, 0xd0, 0x00, 0x00, 0x00, 0x00, 0x00, 0x6a, 0x30, 0x01,
     0x27, 0x09, 0x04, 0x6b, 0xbf, 0x2e, 0xd2, 0x27, 0x09, 0x06, 0x20, 0x01, 0x19, 0xf0, 0x68, 0x00, 0x83, 0xa4, 0x00, 0x00, 0x00, 0x00, 0x00, 0x00,
     0x00, 0x64, 0x27, 0x09, 0x04, 0x2d, 0x20, 0xf6, 0xb3, 0x27, 0x09, 0x06, 0x20, 0x01, 0x19, 0xf0, 0x58, 0x00, 0x8b, 0xf8, 0x54, 0x00, 0x00, 0xff,
     0xfe, 0x15, 0xb3, 0x9a, 0x27, 0x09, 0x04, 0x2d, 0x20, 0xf8, 0x57, 0x27, 0x09, 0x06, 0x20, 0x01, 0x19, 0xf0, 0x70, 0x00, 0x9b, 0xc9, 0x54, 0x00,
     0x00, 0xff, 0xfe, 0x15, 0xc4, 0xf5, 0x27, 0x09, 0x04, 0x9f, 0xcb, 0x02, 0x9a, 0x27, 0x09, 0x06, 0x26, 0x04, 0xa8, 0x80, 0x0c, 0xad, 0x00, 0xd0,
     0x00, 0x00, 0x00, 0x00, 0x00, 0x26, 0x70, 0x01, 0x27, 0x09]"

definition topology_empty :: "topo_env \<Rightarrow> (object_name \<Rightarrow> bytes) \<Rightarrow> path_heap \<Rightarrow> topology" where
  "topology_empty E store h =
     \<lparr>tp_trustedPaths = [], tp_peers = [], tp_paths = [], tp_heap = h, tp_nextPath = 0,
      tp_planet = World_null (te_junk E) (te_junk E), tp_moons = [], tp_moonSeeds = [], tp_upstreamAddresses = [],
      tp_cor = cor_clear, tp_amRoot = False, tp_store = store\<rparr>"

text \<open>The planet that the data store holds; a null world if there is none.\<close>

definition cached_planet :: "topo_env \<Rightarrow> topology \<Rightarrow> world res" where
  "cached_planet E T =
     (let buf = tp_store T PlanetObj in
      if length buf > 0 then
        ebind (bs_copy ZT_WORLD_MAX_SERIALIZED_LENGTH buf) (\<lambda>dswtmp.
        ebind (World_deserialize dswtmp 0) (\<lambda>(w, _). Inr w))
      else Inr (World_null (te_junk E) (te_junk E)))"

definition Topology_make :: "topo_env \<Rightarrow> u64 \<Rightarrow> (object_name \<Rightarrow> bytes) \<Rightarrow> path_heap \<Rightarrow> topology res" where
  "Topology_make E now store h =
     (let T = topology_empty E store h;
          T = (case ebind (cached_planet E T) (\<lambda>w. addWorld E now w False T) of Inr (_, T) \<Rightarrow> T | Inl _ \<Rightarrow> T)
      in ebind (World_deserialize ZT_DEFAULT_WORLD 0) (\<lambda>(w, _).
         ebind (addWorld E now w False T) (\<lambda>(_, T). Inr T)))"

section \<open>The best upstream node\<close>

fun min_loop :: "('a \<Rightarrow> nat) \<Rightarrow> 'a list \<Rightarrow> nat \<times> 'a option \<Rightarrow> 'a option" where
  "min_loop q [] (best, b) = b"
| "min_loop q (x # xs) (best, b) = min_loop q xs (if q x \<le> best then (q x, Some x) else (best, b))"

lemma min_loop_cases:
  "(min_loop q xs (best, b) = b \<and> (\<forall>x \<in> set xs. best < q x))
   \<or> (\<exists>x \<in> set xs. min_loop q xs (best, b) = Some x \<and> q x \<le> best \<and> (\<forall>y \<in> set xs. q x \<le> q y))"
proof (induction xs arbitrary: best b)
  case (Cons x xs)
  show ?case
  proof (cases "q x \<le> best")
    case True
    then show ?thesis using Cons.IH [of "q x" "Some x"] by fastforce
  next
    case False
    then show ?thesis using Cons.IH [of best b] by fastforce
  qed
qed simp

definition known_upstreams :: "topology \<Rightarrow> peer list" where
  "known_upstreams T = List.map_filter (map_of (tp_peers T)) (tp_upstreamAddresses T)"

lemma upstream_loop_min:
  "upstream_loop T avoid now as (qa, bo) (qn, bn) =
    (min_loop (\<lambda>p. relayQuality p now) (List.map_filter (map_of (tp_peers T)) as) (qa, bo),
     min_loop (\<lambda>p. relayQuality p now)
       (filter (\<lambda>p. id_address (pe_id p) \<notin> set avoid) (List.map_filter (map_of (tp_peers T)) as)) (qn, bn))"
  by (induction as arbitrary: qa bo qn bn) (auto simp: List.map_filter_simps Let_def split: option.split)

lemma relayQuality_max: "relayQuality p now \<le> 2 ^ 32 - 1"
proof -
  have m: "x mod 2 ^ 32 \<le> 2 ^ 32 - 1" for x :: nat using mod_less_divisor [of "2 ^ 32" x] by simp
  show ?thesis
    unfolding relayQuality_def Let_def by (cases "now - pe_lastReceive p \<ge> ZT_PEER_ACTIVITY_TIMEOUT") (simp_all only: if_True if_False order_refl m)
qed

lemma min_loop_start:
  "case min_loop (\<lambda>p. relayQuality p now) xs (2 ^ 32 - 1, None) of
     None \<Rightarrow> xs = []
   | Some p \<Rightarrow> p \<in> set xs \<and> (\<forall>p' \<in> set xs. relayQuality p now \<le> relayQuality p' now)"
proof -
  have "\<not> 2 ^ 32 - 1 < relayQuality p now" for p using relayQuality_max [of p now] by simp
  then have n: "(\<forall>x \<in> set xs. 2 ^ 32 - 1 < relayQuality x now) \<longleftrightarrow> xs = []" by (cases xs) auto
  show ?thesis using min_loop_cases [of "\<lambda>p. relayQuality p now" xs "2 ^ 32 - 1" None] unfolding n by auto
qed

lemma getUpstreamPeer_cases:
  "case getUpstreamPeer avoid strict now T of
     Some p \<Rightarrow>
       p \<in> set (known_upstreams T)
       \<and> (if id_address (pe_id p) \<in> set avoid
          then \<not> strict \<and> (\<forall>p' \<in> set (known_upstreams T). id_address (pe_id p') \<in> set avoid \<and> relayQuality p now \<le> relayQuality p' now)
          else \<forall>p' \<in> set (known_upstreams T). id_address (pe_id p') \<notin> set avoid \<longrightarrow> relayQuality p now \<le> relayQuality p' now)
   | None \<Rightarrow> \<forall>p' \<in> set (known_upstreams T). strict \<and> id_address (pe_id p') \<in> set avoid"
  using min_loop_start [of "known_upstreams T" now]
    min_loop_start [of "filter (\<lambda>p. id_address (pe_id p) \<notin> set avoid) (known_upstreams T)" now]
  by (auto simp: getUpstreamPeer_def upstream_loop_min known_upstreams_def [symmetric] filter_empty_conv split: option.splits)


section \<open>Memoized upstream nodes\<close>

definition all_roots :: "topology \<Rightarrow> identity list" where
  "all_roots T = map root_identity (w_roots (tp_planet T) @ concat (map w_roots (tp_moons T)))"

definition other_roots :: "topo_env \<Rightarrow> identity list \<Rightarrow> address set" where
  "other_roots E is = id_address ` {i \<in> set is. \<not> Identity_eq i (te_self E)}"

text \<open>What the memoization leaves alone: everything but upstream list, certificate, own role, new peers and the data store.\<close>

definition extends :: "topology \<Rightarrow> topology \<Rightarrow> bool" where
  "extends T T' \<longleftrightarrow> tp_planet T' = tp_planet T \<and> tp_moons T' = tp_moons T \<and> tp_moonSeeds T' = tp_moonSeeds T
     \<and> tp_paths T' = tp_paths T \<and> tp_heap T' = tp_heap T \<and> tp_nextPath T' = tp_nextPath T
     \<and> map_of (tp_peers T) \<subseteq>\<^sub>m map_of (tp_peers T')"

lemma extends_refl [simp]: "extends T T"
  by (simp add: extends_def)

lemma extends_trans: "extends T T' \<Longrightarrow> extends T' T'' \<Longrightarrow> extends T T''"
  by (auto simp: extends_def intro: map_le_trans)

lemma dataStorePut_fields [simp]:
  "tp_planet (dataStorePut E n v T) = tp_planet T" "tp_moons (dataStorePut E n v T) = tp_moons T"
  "tp_moonSeeds (dataStorePut E n v T) = tp_moonSeeds T" "tp_paths (dataStorePut E n v T) = tp_paths T"
  "tp_heap (dataStorePut E n v T) = tp_heap T" "tp_nextPath (dataStorePut E n v T) = tp_nextPath T"
  "tp_peers (dataStorePut E n v T) = tp_peers T" "tp_upstreamAddresses (dataStorePut E n v T) = tp_upstreamAddresses T"
  "tp_amRoot (dataStorePut E n v T) = tp_amRoot T" "tp_cor (dataStorePut E n v T) = tp_cor T"
  by (simp_all add: dataStorePut_def)

lemma saveIdentity_fields [simp]:
  "tp_planet (saveIdentity E i T) = tp_planet T" "tp_moons (saveIdentity E i T) = tp_moons T"
  "tp_moonSeeds (saveIdentity E i T) = tp_moonSeeds T" "tp_paths (saveIdentity E i T) = tp_paths T"
  "tp_heap (saveIdentity E i T) = tp_heap T" "tp_nextPath (saveIdentity E i T) = tp_nextPath T"
  "tp_peers (saveIdentity E i T) = tp_peers T" "tp_upstreamAddresses (saveIdentity E i T) = tp_upstreamAddresses T"
  "tp_amRoot (saveIdentity E i T) = tp_amRoot T" "tp_cor (saveIdentity E i T) = tp_cor T"
  by (simp_all add: saveIdentity_def)

lemma map_of_update: "map_of (AList.update k v xs) = (map_of xs)(k \<mapsto> v)"
  by (simp add: update_conv')

definition memo_ok :: "topology \<Rightarrow> bool" where
  "memo_ok T \<longleftrightarrow> distinct (map fst (tp_peers T)) \<and> distinct (tp_upstreamAddresses T)
     \<and> set (tp_upstreamAddresses T) \<subseteq> fst ` set (tp_peers T)"

lemma other_roots_single: "other_roots E [i] = (if Identity_eq i (te_self E) then {} else {id_address i})"
  by (auto simp: other_roots_def)

lemma memoize_root_ok:
  assumes "memoize_root E r T = Inr T'" and "memo_ok T"
  shows "memo_ok T' \<and> extends T T'
    \<and> set (tp_upstreamAddresses T') = set (tp_upstreamAddresses T) \<union> other_roots E [root_identity r]
    \<and> (tp_amRoot T' \<longleftrightarrow> tp_amRoot T \<or> Identity_eq (root_identity r) (te_self E))"
proof -
  let ?a = "id_address (root_identity r)"
  consider "Identity_eq (root_identity r) (te_self E)" | "\<not> Identity_eq (root_identity r) (te_self E)" "?a \<in> set (tp_upstreamAddresses T)"
    | "\<not> Identity_eq (root_identity r) (te_self E)" "?a \<notin> set (tp_upstreamAddresses T)" "map_of (tp_peers T) ?a \<noteq> None"
    | "\<not> Identity_eq (root_identity r) (te_self E)" "?a \<notin> set (tp_upstreamAddresses T)" "map_of (tp_peers T) ?a = None" by blast
  then show ?thesis
  proof cases
    case 1 with assms show ?thesis by (auto simp: memoize_root_def memo_ok_def extends_def other_roots_single Let_def)
  next
    case 2 with assms show ?thesis by (auto simp: memoize_root_def memo_ok_def extends_def other_roots_single Let_def)
  next
    case 3
    then have "?a \<in> fst ` set (tp_peers T)" by (simp add: map_of_eq_None_iff)
    moreover have "T' = T\<lparr>tp_upstreamAddresses := tp_upstreamAddresses T @ [?a]\<rparr>"
      using 3 assms by (auto simp: memoize_root_def Let_def)
    ultimately show ?thesis using 3 assms(2) by (simp add: memo_ok_def extends_def other_roots_single)
  next
    case 4
    then obtain hp where "T' = saveIdentity E (root_identity r)
        (T\<lparr>tp_upstreamAddresses := tp_upstreamAddresses T @ [?a], tp_peers := AList.update ?a hp (tp_peers T)\<rparr>)"
      using assms by (auto simp: memoize_root_def Let_def ebind_Inr_iff)
    with 4 assms show ?thesis
      by (auto simp: memo_ok_def extends_def other_roots_single map_of_update AList.distinct_update dom_update map_le_def domIff)
  qed
qed

lemma memoize_roots_worlds:
  "efold (memoize_root E) rs T = Inr T' \<Longrightarrow> tp_planet T' = tp_planet T \<and> tp_moons T' = tp_moons T"
  by (induction rs arbitrary: T) (fastforce simp: ebind_Inr_iff memoize_root_def Let_def split: if_splits option.splits)+

lemma memoize_roots_ok:
  assumes "efold (memoize_root E) rs T = Inr T'" and "memo_ok T"
  shows "memo_ok T' \<and> extends T T'
    \<and> set (tp_upstreamAddresses T') = set (tp_upstreamAddresses T) \<union> other_roots E (map root_identity rs)
    \<and> (tp_amRoot T' \<longleftrightarrow> tp_amRoot T \<or> (\<exists>r \<in> set rs. Identity_eq (root_identity r) (te_self E)))"
  using assms
proof (induction rs arbitrary: T)
  case (Cons r rs)
  then obtain T1 where t: "memoize_root E r T = Inr T1" "efold (memoize_root E) rs T1 = Inr T'" by (auto simp: ebind_Inr_iff)
  note m = memoize_root_ok [OF t(1) Cons.prems(2)]
  have "memo_ok T1" using m by blast
  note n = Cons.IH [OF t(2) this]
  have "other_roots E (map root_identity (r # rs)) = other_roots E [root_identity r] \<union> other_roots E (map root_identity rs)"
    by (auto simp: other_roots_def)
  then show ?case using m n extends_trans by (auto 4 3)
qed (simp add: other_roots_def)

lemma efold_concat: "efold (\<lambda>x. efold f (g x)) xs s = efold f (concat (map g xs)) s"
proof (induction xs arbitrary: s)
  case (Cons x xs)
  then have "efold (\<lambda>x. efold f (g x)) xs = efold f (concat (map g xs))" by (simp add: fun_eq_iff)
  then show ?case by (simp add: efold_append)
qed simp

lemma cor_fill_reps: "cor_reps (cor_fill as c) = cor_reps c @ take (64 - length (cor_reps c)) as"
proof (induction as arbitrary: c)
  case (Cons a as)
  show ?case
  proof (cases "length (cor_reps c) < 64")
    case True
    then have "64 - length (cor_reps c) = Suc (63 - length (cor_reps c))" by simp
    with True show ?thesis using Cons.IH [of "c\<lparr>cor_reps := cor_reps c @ [a]\<rparr>"] by (simp add: addRepresentative_def)
  qed (simp add: addRepresentative_def)
qed simp

lemma memoizeUpstreams_ok:
  assumes "memoizeUpstreams E now T = Inr T'" and "distinct (map fst (tp_peers T))"
  shows "extends T T' \<and> distinct (map fst (tp_peers T')) \<and> sorted (tp_upstreamAddresses T') \<and> distinct (tp_upstreamAddresses T')
    \<and> set (tp_upstreamAddresses T') = other_roots E (all_roots T)
    \<and> set (tp_upstreamAddresses T') \<subseteq> fst ` set (tp_peers T')
    \<and> (tp_amRoot T' \<longleftrightarrow> (\<exists>i \<in> set (all_roots T). Identity_eq i (te_self E)))
    \<and> cor_reps (tp_cor T') = take 64 (tp_upstreamAddresses T')"
proof -
  define T0 where "T0 = T\<lparr>tp_upstreamAddresses := [], tp_amRoot := False\<rparr>"
  have t0: "memo_ok T0" "extends T T0" using assms(2) by (simp_all add: T0_def memo_ok_def extends_def)
  obtain T1 T2 c where t: "efold (memoize_root E) (w_roots (tp_planet T)) T0 = Inr T1"
    "efold (\<lambda>m. efold (memoize_root E) (w_roots m)) (tp_moons T1) T1 = Inr T2"
    "cor_sign (te_sign E) (te_self E) now (cor_fill (sort (tp_upstreamAddresses T2)) cor_clear) = Inr c"
    "T' = T2\<lparr>tp_upstreamAddresses := sort (tp_upstreamAddresses T2), tp_cor := c\<rparr>"
    using assms(1) by (auto simp: memoizeUpstreams_def Let_def ebind_Inr_iff T0_def)
  have "tp_moons T1 = tp_moons T" using memoize_roots_ok [OF t(1) t0(1)] by (simp add: extends_def T0_def)
  with t(1,2) have "efold (memoize_root E) (w_roots (tp_planet T) @ concat (map w_roots (tp_moons T))) T0 = Inr T2"
    by (simp add: efold_append efold_concat)
  note m = memoize_roots_ok [OF this t0(1)]
  have "cor_reps c = take 64 (sort (tp_upstreamAddresses T2))"
    using t(3) by (auto simp: cor_sign_def Let_def ebind_Inr_iff cor_fill_reps cor_clear_def)
  moreover have "extends T T2" using m t0(2) extends_trans by blast
  ultimately show ?thesis
    using m unfolding t(4) by (auto simp: memo_ok_def extends_def all_roots_def T0_def)
qed

lemma memoizeUpstreams_worlds:
  "memoizeUpstreams E now T = Inr T' \<Longrightarrow> tp_planet T' = tp_planet T \<and> tp_moons T' = tp_moons T"
  by (auto simp: memoizeUpstreams_def Let_def ebind_Inr_iff efold_concat dest!: memoize_roots_worlds)

text \<open>The world \<open>u\<close> is an update of \<open>w\<close>: same id and type, newer, and signed with the key that \<open>w\<close> names.\<close>

definition update_of :: "topo_env \<Rightarrow> world \<Rightarrow> world \<Rightarrow> bool" where
  "update_of E w u \<longleftrightarrow> w_id u = w_id w \<and> w_type u = w_type w \<and> w_ts w < w_ts u
     \<and> (\<exists>m. World_serialize 8480 [] True u = Inr m \<and> te_verify E (w_updatesMustBeSignedBy w) m (w_signature u))"

lemma shouldBeReplacedBy_update:
  "World_shouldBeReplacedBy (te_verify E) w u = Inr True \<Longrightarrow> w_id w \<noteq> 0 \<Longrightarrow> w_type w \<noteq> TYPE_NULL \<Longrightarrow> update_of E w u"
  by (auto simp: World_shouldBeReplacedBy_def update_of_def ebind_Inr_iff split: if_splits)

lemma take_seed_cases:
  "take_seed w ss = Some ss' \<Longrightarrow>
    \<exists>s \<in> set ss. fst s = w_id w \<and> (\<exists>r \<in> set (w_roots w). id_address (root_identity r) = snd s)"
  by (induction ss arbitrary: ss') (auto split: if_splits simp: list_ex_iff)

lemma replace_moon_fields:
  "map w_id (replace_moon w ms) = map w_id ms" "set (replace_moon w ms) \<subseteq> insert w (set ms)"
  by (induction ms) auto

lemma accept_world_cases:
  assumes "accept_world E w acc T = Inr (Some T1)"
  obtains
    (planet) "w_type w = TYPE_PLANET" "T1 = T\<lparr>tp_planet := w\<rparr>"
      "w_id (tp_planet T) = 0 \<or> w_type (tp_planet T) = TYPE_NULL \<or> update_of E (tp_planet T) w"
  | (update) m where "w_type w = TYPE_MOON" "m \<in> set (tp_moons T)" "w_id m = w_id w"
      "T1 = T\<lparr>tp_moons := replace_moon w (tp_moons T)\<rparr>" "w_id m = 0 \<or> w_type m = TYPE_NULL \<or> update_of E m w"
  | (new) ss where "w_type w = TYPE_MOON" "w_id w \<notin> w_id ` set (tp_moons T)"
      "T1 = T\<lparr>tp_moonSeeds := ss, tp_moons := tp_moons T @ [w]\<rparr>"
      "acc \<or> (\<exists>s \<in> set (tp_moonSeeds T). fst s = w_id w \<and> (\<exists>r \<in> set (w_roots w). id_address (root_identity r) = snd s))"
proof (cases "w_type w")
  case TYPE_NULL
  with assms show thesis by (simp add: accept_world_def)
next
  case TYPE_PLANET
  with assms show thesis
    by (intro planet) (auto simp: accept_world_def ebind_Inr_iff split: if_splits dest: shouldBeReplacedBy_update)
next
  case TYPE_MOON
  show thesis
  proof (cases "find (\<lambda>m. w_id m = w_id w) (tp_moons T)")
    case (Some m)
    then have "m \<in> set (tp_moons T)" "w_id m = w_id w" by (auto simp: find_Some_iff)
    with TYPE_MOON Some assms show thesis
      by (intro update [of m]) (auto simp: accept_world_def ebind_Inr_iff split: if_splits dest: shouldBeReplacedBy_update)
  next
    case None
    then have "w_id w \<notin> w_id ` set (tp_moons T)" by (auto simp: find_None_iff)
    with TYPE_MOON None assms show thesis
      by (auto simp: accept_world_def split: if_splits option.splits dest: take_seed_cases
          intro: new [of "tp_moonSeeds T"] new)
  qed
qed

section \<open>The topology as a state machine\<close>

definition topo_ok :: "topo_env \<Rightarrow> topology \<Rightarrow> bool" where
  "topo_ok E T \<longleftrightarrow> distinct (map fst (tp_peers T)) \<and> sorted (tp_upstreamAddresses T) \<and> distinct (tp_upstreamAddresses T)
     \<and> set (tp_upstreamAddresses T) = other_roots E (all_roots T)
     \<and> set (tp_upstreamAddresses T) \<subseteq> fst ` set (tp_peers T)
     \<and> (tp_amRoot T \<longleftrightarrow> (\<exists>i \<in> set (all_roots T). Identity_eq i (te_self E)))
     \<and> distinct (map w_id (tp_moons T)) \<and> (\<forall>m \<in> set (tp_moons T). w_type m = TYPE_MOON) \<and> w_type (tp_planet T) \<noteq> TYPE_MOON"

text \<open>\<open>use\<close> is what the operations of peers and paths do to the tables.\<close>

inductive topo_step :: "topo_env \<Rightarrow> topology \<Rightarrow> topology \<Rightarrow> bool" for E where
  world: "addWorld E now w acc T = Inr (b, T') \<Longrightarrow> topo_step E T T'"
| moon: "topo_step E T (addMoon E now i seed T)"
| no_moon: "removeMoon E now i T = Inr T' \<Longrightarrow> topo_step E T T'"
| add: "topo_step E T (snd (addPeer E pe T))"
| get: "topo_step E T (snd (getPeer E a T))"
| path: "topo_step E T (snd (getPath junk l r T))"
| use: "map_of (tp_peers T) a = Some pe \<Longrightarrow> topo_step E T (T\<lparr>tp_peers := AList.update a pe' (tp_peers T), tp_heap := h\<rparr>)"
| clean: "topo_step E T (clean now T)"
| trust: "topo_step E T (setTrustedPaths ts T)"

lemma save_world_fields [simp]:
  "tp_planet (save_world E w T) = tp_planet T" "tp_moons (save_world E w T) = tp_moons T" "tp_peers (save_world E w T) = tp_peers T"
  by (auto simp: save_world_def Let_def split: sum.split)

lemma addWorld_cases:
  assumes "addWorld E now w acc T = Inr (b, T')"
  obtains (refused) "\<not> b" "T' = T"
  | (accepted) T1 where "b" "accept_world E w acc T = Inr (Some T1)" "memoizeUpstreams E now (save_world E w T1) = Inr T'"
  using assms by (auto simp: addWorld_def ebind_Inr_iff split: option.splits)

lemma memoized_topo_ok:
  assumes "memoizeUpstreams E now T = Inr T'" and "distinct (map fst (tp_peers T))"
    and "distinct (map w_id (tp_moons T))" and "\<forall>m \<in> set (tp_moons T). w_type m = TYPE_MOON" and "w_type (tp_planet T) \<noteq> TYPE_MOON"
  shows "topo_ok E T'"
proof -
  note m = memoizeUpstreams_ok [OF assms(1,2)]
  then have "all_roots T' = all_roots T" by (simp add: extends_def all_roots_def)
  with m assms(3-5) show ?thesis unfolding topo_ok_def extends_def by auto
qed

lemma addWorld_ok:
  assumes "addWorld E now w acc T = Inr (b, T')" and "topo_ok E T"
  shows "topo_ok E T'"
  using assms(1)
proof (cases rule: addWorld_cases)
  case (accepted T1)
  have "distinct (map fst (tp_peers T1)) \<and> distinct (map w_id (tp_moons T1)) \<and> (\<forall>m \<in> set (tp_moons T1). w_type m = TYPE_MOON)
      \<and> w_type (tp_planet T1) \<noteq> TYPE_MOON"
    using accepted(2)
  proof (cases rule: accept_world_cases)
    case planet
    with assms(2) show ?thesis by (simp add: topo_ok_def)
  next
    case (update m)
    with assms(2) replace_moon_fields [of w "tp_moons T"] show ?thesis by (auto simp: topo_ok_def)
  next
    case (new ss)
    with assms(2) show ?thesis by (auto simp: topo_ok_def)
  qed
  with memoized_topo_ok [OF accepted(3)] show ?thesis by simp
qed (use assms(2) in simp)

lemma topo_okD:
  "topo_ok E T \<Longrightarrow> distinct (map fst (tp_peers T))" "topo_ok E T \<Longrightarrow> set (tp_upstreamAddresses T) \<subseteq> fst ` set (tp_peers T)"
  unfolding topo_ok_def by blast+

lemma topo_ok_peers:
  assumes "topo_ok E T" and "tp_planet T' = tp_planet T" and "tp_moons T' = tp_moons T"
    and "tp_upstreamAddresses T' = tp_upstreamAddresses T" and "tp_amRoot T' = tp_amRoot T"
    and "distinct (map fst (tp_peers T'))" and "set (tp_upstreamAddresses T) \<subseteq> fst ` set (tp_peers T')"
  shows "topo_ok E T'"
proof -
  have "all_roots T' = all_roots T" using assms(2,3) by (simp add: all_roots_def)
  with assms show ?thesis by (simp add: topo_ok_def)
qed

lemma removeMoon_ok:
  assumes "removeMoon E now i T = Inr T'" and "topo_ok E T"
  shows "topo_ok E T'"
proof -
  let ?T = "if list_ex (\<lambda>m. w_id m = i) (tp_moons T) then dataStoreDelete E (MoonsD i) T else T"
  have f: "tp_moons ?T = tp_moons T" "tp_peers ?T = tp_peers T" "tp_planet ?T = tp_planet T" by simp_all
  have r: "memoizeUpstreams E now (?T\<lparr>tp_moons := filter (\<lambda>m. w_id m \<noteq> i) (tp_moons ?T),
      tp_moonSeeds := filter (\<lambda>m. fst m \<noteq> i) (tp_moonSeeds ?T)\<rparr>) = Inr T'"
    using assms(1) by (simp add: removeMoon_def Let_def)
  show ?thesis
    by (rule memoized_topo_ok [OF r]) (use assms(2) in \<open>simp_all add: f topo_ok_def distinct_map_filter\<close>)
qed

lemma topo_step_ok: "topo_step E T T' \<Longrightarrow> topo_ok E T \<Longrightarrow> topo_ok E T'"
proof (induction rule: topo_step.induct)
  case (world now w acc T b T')
  then show ?case by (rule addWorld_ok)
next
  case (moon T now i seed)
  have s: "topo_ok E (add_seed i seed T)" using topo_okD [OF moon] by (intro topo_ok_peers [OF moon]) (simp_all add: add_seed_def)
  show ?case
  proof (cases "stored_moon i T")
    case (Some w)
    with s moon addWorld_ok [of E now w True T] show ?thesis by (auto simp: addMoon_def split: sum.split prod.split)
  qed (use s in \<open>simp add: addMoon_def\<close>)
next
  case (no_moon now i T T')
  then show ?case by (rule removeMoon_ok)
next
  case (add T pe)
  show ?case
    using topo_okD [OF add] by (intro topo_ok_peers [OF add])
       (auto simp: addPeer_def Let_def AList.distinct_update dom_update split: option.split)
next
  case (get T a)
  show ?case
    using topo_okD [OF get] by (intro topo_ok_peers [OF get])
       (auto simp: getPeer_def Let_def AList.distinct_update dom_update split: option.split sum.split)
next
  case (path T junk l r)
  show ?case
    using topo_okD [OF path] by (intro topo_ok_peers [OF path]) (auto simp: getPath_def Let_def split: option.split)
next
  case (use T a pe pe' h)
  show ?case
    using topo_okD [OF use(2)] by (intro topo_ok_peers [OF use(2)]) (auto simp: AList.distinct_update dom_update)
next
  case (clean T now)
  have "set (tp_upstreamAddresses T) \<subseteq> fst ` {x \<in> set (tp_peers T). Peer_isAlive (snd x) now \<or> fst x \<in> set (tp_upstreamAddresses T)}"
    using topo_okD(2) [OF clean] by auto
  then show ?case
    using topo_okD(1) [OF clean] by (intro topo_ok_peers [OF clean]) (auto simp: clean_def Let_def distinct_map_filter split_beta)
next
  case (trust T ts)
  show ?case using topo_okD [OF trust] by (intro topo_ok_peers [OF trust]) (simp_all add: setTrustedPaths_def)
qed

lemma topo_reach_ok: "(topo_step E)\<^sup>*\<^sup>* T T' \<Longrightarrow> topo_ok E T \<Longrightarrow> topo_ok E T'"
  by (induction rule: rtranclp_induct) (auto intro: topo_step_ok)

lemma topology_empty_ok: "topo_ok E (topology_empty E store h)"
  by (simp add: topology_empty_def topo_ok_def all_roots_def other_roots_def World_null_def)

text \<open>The constructor is a run from the empty topology.\<close>

lemma Topology_make_reach:
  assumes "Topology_make E now store h = Inr T"
  shows "(topo_step E)\<^sup>*\<^sup>* (topology_empty E store h) T"
proof -
  let ?T = "topology_empty E store h"
  define T1 where "T1 = (case ebind (cached_planet E ?T) (\<lambda>w. addWorld E now w False ?T) of Inr (_, T) \<Rightarrow> T | Inl _ \<Rightarrow> ?T)"
  have "(topo_step E)\<^sup>*\<^sup>* ?T T1"
    by (auto simp: T1_def ebind_Inr_iff split: sum.split intro: topo_step.world)
  moreover obtain w b where "addWorld E now w False T1 = Inr (b, T)"
    using assms by (auto simp: Topology_make_def Let_def ebind_Inr_iff T1_def [symmetric])
  then have "topo_step E T1 T" by (rule topo_step.world)
  ultimately show ?thesis by (rule rtranclp.rtrancl_into_rtrancl)
qed

lemma known_upstreams_Nil:
  assumes "topo_ok E T"
  shows "known_upstreams T = [] \<longleftrightarrow> tp_upstreamAddresses T = []"
proof (cases "tp_upstreamAddresses T")
  case (Cons a as)
  then have "a \<in> fst ` set (tp_peers T)" using topo_okD(2) [OF assms] by simp
  then obtain pe where "map_of (tp_peers T) a = Some pe" by (cases "map_of (tp_peers T) a") (auto simp: map_of_eq_None_iff)
  with Cons show ?thesis by (simp add: known_upstreams_def List.map_filter_simps)
qed (simp add: known_upstreams_def List.map_filter_simps)

section \<open>Updates of the planet\<close>

lemma addWorld_planet:
  assumes "addWorld E now w acc T = Inr (b, T')"
  shows "tp_planet T' = tp_planet T \<or> w_id (tp_planet T) = 0 \<or> w_type (tp_planet T) = TYPE_NULL \<or> update_of E (tp_planet T) (tp_planet T')"
  using assms
proof (cases rule: addWorld_cases)
  case (accepted T1)
  have "tp_planet T' = tp_planet T1"
    using memoizeUpstreams_worlds [OF accepted(3)] by simp
  with accepted(2) show ?thesis by (cases rule: accept_world_cases) auto
qed simp

lemma topo_step_planet:
  "topo_step E T T' \<Longrightarrow> tp_planet T' = tp_planet T \<or> w_id (tp_planet T) = 0 \<or> w_type (tp_planet T) = TYPE_NULL
     \<or> update_of E (tp_planet T) (tp_planet T')"
proof (induction rule: topo_step.induct)
  case (world now w acc T b T')
  then show ?case by (rule addWorld_planet)
next
  case (moon T now i seed)
  have s: "tp_planet (add_seed i seed T) = tp_planet T" by (simp add: add_seed_def)
  show ?case
  proof (cases "stored_moon i T")
    case (Some w)
    with s addWorld_planet [of E now w True T] show ?thesis by (auto simp: addMoon_def split: sum.split prod.split)
  qed (use s in \<open>simp add: addMoon_def\<close>)
next
  case (no_moon now i T T')
  then show ?case by (auto simp: removeMoon_def Let_def dest!: memoizeUpstreams_worlds split: if_splits)
qed (auto simp: addPeer_def getPeer_def getPath_def clean_def setTrustedPaths_def Let_def split: option.split sum.split)

lemma topo_reach_planet:
  assumes "(topo_step E)\<^sup>*\<^sup>* T T'" and "w_id (tp_planet T) \<noteq> 0" and "w_type (tp_planet T) \<noteq> TYPE_NULL"
  shows "(update_of E)\<^sup>*\<^sup>* (tp_planet T) (tp_planet T') \<and> w_id (tp_planet T') = w_id (tp_planet T) \<and> w_type (tp_planet T') = w_type (tp_planet T)
    \<and> (tp_planet T' = tp_planet T \<or> w_ts (tp_planet T) < w_ts (tp_planet T'))"
  using assms
proof (induction rule: rtranclp_induct)
  case (step T1 T2)
  then have u: "tp_planet T2 = tp_planet T1 \<or> update_of E (tp_planet T1) (tp_planet T2)" using topo_step_planet [OF step(2)] by auto
  show ?case
  proof (cases "tp_planet T2 = tp_planet T1")
    case False
    with u have v: "update_of E (tp_planet T1) (tp_planet T2)" by simp
    with step show ?thesis by (auto simp: update_of_def intro: rtranclp.rtrancl_into_rtrancl)
  qed (use step in simp)
qed simp

section \<open>No exceptions\<close>

lemma memoize_roots_total:
  assumes "id_privateKey (te_self E) \<noteq> None"
  shows "\<exists>T'. efold (memoize_root E) rs T = Inr T'"
proof (induction rs arbitrary: T)
  case (Cons r rs)
  have "\<exists>T1. memoize_root E r T = Inr T1"
    using assms by (auto simp: memoize_root_def Let_def Peer_make_def agree_def split: option.split)
  then show ?case using Cons.IH by auto
qed simp

lemma memoizeUpstreams_total:
  assumes "id_privateKey (te_self E) \<noteq> None"
  shows "\<exists>T'. memoizeUpstreams E now T = Inr T'"
proof -
  have "\<exists>c'. cor_sign (te_sign E) (te_self E) now (cor_fill as cor_clear) = Inr c'" for as
    by (simp add: cor_sign_def cor_serialize_def Let_def cor_fill_reps cor_clear_def bs_append_def cor_append_reps
        length_concat comp_def sum_list_triv min_def del: be_enc_numeral)
  then show ?thesis
    using memoize_roots_total [OF assms] unfolding memoizeUpstreams_def efold_concat Let_def
    by (metis (no_types, lifting) ebind.simps(2))
qed

lemma addWorld_total:
  assumes "id_privateKey (te_self E) \<noteq> None" and "world_ok w"
  shows "\<exists>b T'. addWorld E now w acc T = Inr (b, T')"
proof -
  obtain m where "World_serialize 8480 [] True w = Inr m" using world_wire [OF assms(2), of "[]" 8480 True] by auto
  then have "World_shouldBeReplacedBy (te_verify E) v w \<noteq> Inl e" for v e by (simp add: World_shouldBeReplacedBy_def)
  then have "accept_world E w acc T \<noteq> Inl e" for e
    by (auto simp: accept_world_def ebind_Inl_iff split: world_type.split option.split)
  moreover have "memoizeUpstreams E now T1 \<noteq> Inl e" for T1 e using memoizeUpstreams_total [OF assms(1), of now T1] by auto
  ultimately have "addWorld E now w acc T \<noteq> Inl e" for e by (auto simp: addWorld_def ebind_Inl_iff split: option.split)
  then show ?thesis by (cases "addWorld E now w acc T") auto
qed

section \<open>Properties\<close>

text \<open>
  C12. Upstream nodes: however worlds and moons come and go, peers are learned, used and forgotten,
  the upstream list is sorted and holds exactly the addresses of the roots of planet and moons other
  than this node itself; each of them has a peer, which \<^verbatim>\<open>clean\<close> does not remove; the node knows whether it
  is a root itself; and an upstream peer is found whenever there is one. The constructor reaches its
  state by such steps, and \<^verbatim>\<open>addWorld\<close> does not throw on a well-formed world.
\<close>

theorem topology_invariant:
  assumes "(topo_step E)\<^sup>*\<^sup>* (topology_empty E store h) T"
  shows "sorted (tp_upstreamAddresses T) \<and> distinct (tp_upstreamAddresses T)
    \<and> set (tp_upstreamAddresses T) = other_roots E (all_roots T)
    \<and> (\<forall>a \<in> set (tp_upstreamAddresses T). map_of (tp_peers (clean now T)) a \<noteq> None)
    \<and> (tp_amRoot T \<longleftrightarrow> (\<exists>i \<in> set (all_roots T). Identity_eq i (te_self E)))
    \<and> (getUpstreamPeer [] strict now T = None \<longleftrightarrow> tp_upstreamAddresses T = [])
    \<and> (Topology_make E now store h = Inr T0 \<longrightarrow> (topo_step E)\<^sup>*\<^sup>* (topology_empty E store h) T0)
    \<and> (id_privateKey (te_self E) \<noteq> None \<and> world_ok w \<longrightarrow> (\<exists>b T'. addWorld E now w acc T = Inr (b, T')))"
proof -
  have ok: "topo_ok E T" by (rule topo_reach_ok [OF assms topology_empty_ok])
  have "topo_ok E (clean now T)" by (rule topo_step_ok [OF topo_step.clean ok])
  from topo_okD(2) [OF this] have c: "\<forall>a \<in> set (tp_upstreamAddresses T). map_of (tp_peers (clean now T)) a \<noteq> None"
    by (auto simp: map_of_eq_None_iff clean_def Let_def)
  have "known_upstreams T = [] \<longleftrightarrow> tp_upstreamAddresses T = []" by (rule known_upstreams_Nil [OF ok])
  then have "getUpstreamPeer [] strict now T = None \<longleftrightarrow> tp_upstreamAddresses T = []"
    using getUpstreamPeer_cases [where avoid = "[]" and strict = strict and now = now and T = T] by (cases "getUpstreamPeer [] strict now T") auto
  with ok c show ?thesis
    using Topology_make_reach [of E now store h T0] addWorld_total [of E w now acc T] unfolding topo_ok_def by blast
qed

text \<open>A planet with one root, and the topology of a node that has accepted it.\<close>

definition sample_topo_env :: topo_env where
  "sample_topo_env = \<lparr>te_self = sample_identity 1, te_dh = \<lambda>_ _ n. replicate n 7, te_sign = \<lambda>_ _. replicate 96 0,
     te_verify = \<lambda>_ _ _. True, te_junk = replicate 64 0, te_keeps = \<lambda>_. True\<rparr>"

definition sample_planet :: world where
  "sample_planet = sample_world\<lparr>w_type := TYPE_PLANET\<rparr>"

definition sample_start :: topology where
  "sample_start = topology_empty sample_topo_env (\<lambda>_. []) sample_heap"

lemma sample_planet_ok: "world_ok (sample_planet\<lparr>w_ts := t\<rparr>)"
  by (simp add: sample_planet_def sample_world_def world_ok_def root_ok_def identity_ok_def)

lemma sample_private: "id_privateKey (te_self sample_topo_env) \<noteq> None"
  by (simp add: sample_topo_env_def sample_identity_def)

text \<open>Over an older planet or none the sample planet is accepted.\<close>

lemma sample_accepts:
  assumes "w_type (tp_planet T) = TYPE_NULL \<or> tp_planet T = sample_planet \<and> 9 < t"
  obtains T' where "addWorld sample_topo_env now (sample_planet\<lparr>w_ts := t\<rparr>) False T = Inr (True, T')"
    and "tp_planet T' = sample_planet\<lparr>w_ts := t\<rparr>" and "tp_moons T' = tp_moons T"
proof -
  let ?w = "sample_planet\<lparr>w_ts := t\<rparr>"
  obtain m where "World_serialize 8480 [] True ?w = Inr m" using world_wire [OF sample_planet_ok [of t], of "[]" 8480 True] by auto
  with assms have "accept_world sample_topo_env ?w False T = Inr (Some (T\<lparr>tp_planet := ?w\<rparr>))"
    by (auto simp: accept_world_def World_shouldBeReplacedBy_def sample_planet_def sample_world_def sample_topo_env_def)
  moreover obtain T' where "memoizeUpstreams sample_topo_env now (save_world sample_topo_env ?w (T\<lparr>tp_planet := ?w\<rparr>)) = Inr T'"
    using memoizeUpstreams_total [OF sample_private] by blast
  ultimately show thesis using that [of T'] memoizeUpstreams_worlds [of sample_topo_env now _ T'] by (fastforce simp: addWorld_def)
qed

lemma sample_reached:
  obtains T where "topo_ok sample_topo_env T" and "tp_upstreamAddresses T = [5]" and "(topo_step sample_topo_env)\<^sup>*\<^sup>* sample_start T"
proof -
  obtain T where T: "addWorld sample_topo_env 7 (sample_planet\<lparr>w_ts := 9\<rparr>) False sample_start = Inr (True, T)"
    "tp_planet T = sample_planet\<lparr>w_ts := 9\<rparr>" "tp_moons T = tp_moons sample_start"
    by (rule sample_accepts [of sample_start 9 7]) (auto simp: sample_start_def topology_empty_def World_null_def)
  have ok: "topo_ok sample_topo_env T" using addWorld_ok [OF T(1)] topology_empty_ok by (simp add: sample_start_def)
  have "other_roots sample_topo_env (all_roots T) = {5}"
    using T(2,3) by (auto simp: all_roots_def other_roots_def sample_planet_def sample_world_def sample_start_def topology_empty_def
        Identity_eq_def sample_topo_env_def sample_identity_def)
  then have "tp_upstreamAddresses T = [5]" using ok by (intro sorted_distinct_set_unique) (auto simp: topo_ok_def)
  with ok topo_step.world [OF T(1)] show thesis by (intro that [of T]) simp_all
qed

theorem topology_invariant_witness:
  "\<exists>T p. (topo_step sample_topo_env)\<^sup>*\<^sup>* sample_start T \<and> tp_upstreamAddresses T = [5] \<and> getUpstreamPeer [] False 1000 T = Some p"
proof -
  obtain T where T: "tp_upstreamAddresses T = [5]" "(topo_step sample_topo_env)\<^sup>*\<^sup>* sample_start T" by (rule sample_reached)
  then show ?thesis
    using topology_invariant [OF T(2) [unfolded sample_start_def], where now = 1000 and strict = False] by auto
qed

text \<open>
  C14. Choice of an upstream node: the peer returned is one of the upstream peers and has the lowest
  (that is, best) relay quality among those not to be avoided. A peer to be avoided is returned only
  if all upstream peers are to be avoided and the caller does not insist, and is then the best of all;
  without result there is no upstream node, or all are to be avoided and the caller insists.
\<close>

theorem upstream_choice:
  assumes "topo_ok E T"
  shows "case getUpstreamPeer avoid strict now T of
     Some p \<Rightarrow>
       p \<in> set (known_upstreams T)
       \<and> (if id_address (pe_id p) \<in> set avoid
          then \<not> strict \<and> (\<forall>p' \<in> set (known_upstreams T). id_address (pe_id p') \<in> set avoid \<and> relayQuality p now \<le> relayQuality p' now)
          else \<forall>p' \<in> set (known_upstreams T). id_address (pe_id p') \<notin> set avoid \<longrightarrow> relayQuality p now \<le> relayQuality p' now)
   | None \<Rightarrow> tp_upstreamAddresses T = [] \<or> strict \<and> (\<forall>p' \<in> set (known_upstreams T). id_address (pe_id p') \<in> set avoid)"
proof (cases "getUpstreamPeer avoid strict now T")
  case None
  with getUpstreamPeer_cases [where avoid = avoid and strict = strict and now = now and T = T] known_upstreams_Nil [OF assms]
  show ?thesis by (cases "known_upstreams T") auto
next
  case (Some p)
  with getUpstreamPeer_cases [where avoid = avoid and strict = strict and now = now and T = T] show ?thesis by simp
qed

theorem upstream_choice_witness:
  "\<exists>T p. tp_upstreamAddresses T = [5] \<and> getUpstreamPeer [77] False 1000 T = Some p \<and> p \<in> set (known_upstreams T)"
proof -
  obtain T where T: "topo_ok sample_topo_env T" "tp_upstreamAddresses T = [5]" by (rule sample_reached)
  have "known_upstreams T \<noteq> []" using known_upstreams_Nil [OF T(1)] T(2) by simp
  then show ?thesis
    using upstream_choice [OF T(1), where avoid = "[77]" and strict = False and now = 1000] T(2) by (cases "getUpstreamPeer [77] False 1000 T") auto
qed

text \<open>
  C7. Signed updates: once a node has a planet that is not null and has an id other than 0, whatever it
  is offered, the planet only changes along a chain of worlds of the same id, each newer than the one
  before it and signed with the key that the one before it names. A world that a peer sends
  (\<^verbatim>\<open>alwaysAcceptNew\<close> false) is accepted only as such an update of the planet or of a moon that the node
  has, as a moon for which it holds a seed that is one of the moon's roots, or, with neither
  signature nor newer time stamp, as a moon with id 0 in place of one with id 0.
\<close>

theorem world_updates_signed:
  assumes "topo_ok E T" and "w_id (tp_planet T) \<noteq> 0" and "w_type (tp_planet T) \<noteq> TYPE_NULL" and "(topo_step E)\<^sup>*\<^sup>* T T'"
  shows "(update_of E)\<^sup>*\<^sup>* (tp_planet T) (tp_planet T')
    \<and> (tp_planet T' = tp_planet T \<or> w_ts (tp_planet T) < w_ts (tp_planet T'))
    \<and> (addWorld E now w False T = Inr (True, T1) \<longrightarrow>
        w_type w = TYPE_PLANET \<and> tp_planet T1 = w \<and> tp_moons T1 = tp_moons T \<and> update_of E (tp_planet T) w
        \<or> w_type w = TYPE_MOON \<and> tp_planet T1 = tp_planet T \<and> set (tp_moons T1) \<subseteq> insert w (set (tp_moons T))
          \<and> ((\<exists>m \<in> set (tp_moons T). w_id m = w_id w \<and> (w_id w = 0 \<or> update_of E m w))
             \<or> (\<exists>s \<in> set (tp_moonSeeds T). fst s = w_id w \<and> (\<exists>r \<in> set (w_roots w). id_address (root_identity r) = snd s))))"
    (is "?chain \<and> ?newer \<and> (?added \<longrightarrow> ?legit)")
proof (intro conjI impI)
  show ?chain ?newer using topo_reach_planet [OF assms(4,2,3)] by blast+
  assume ?added
  then obtain T2 where a: "accept_world E w False T = Inr (Some T2)" and m: "memoizeUpstreams E now (save_world E w T2) = Inr T1"
    by (cases rule: addWorld_cases) auto
  have t: "tp_planet T1 = tp_planet T2" "tp_moons T1 = tp_moons T2" using memoizeUpstreams_worlds [OF m] by simp_all
  from a show ?legit
  proof (cases rule: accept_world_cases)
    case planet
    with t assms(2,3) show ?thesis by simp
  next
    case (update mo)
    then have "w_type mo = TYPE_MOON" using assms(1) by (simp add: topo_ok_def)
    with update t replace_moon_fields(2) [of w "tp_moons T"] show ?thesis by auto
  next
    case (new ss)
    with t show ?thesis by auto
  qed
qed

theorem world_updates_signed_witness:
  "\<exists>T T'. (topo_step sample_topo_env)\<^sup>*\<^sup>* T T' \<and> w_ts (tp_planet T) = 9 \<and> w_ts (tp_planet T') = 12
     \<and> (update_of sample_topo_env)\<^sup>*\<^sup>* (tp_planet T) (tp_planet T')"
proof -
  obtain T where T: "addWorld sample_topo_env 7 (sample_planet\<lparr>w_ts := 9\<rparr>) False sample_start = Inr (True, T)"
    "tp_planet T = sample_planet\<lparr>w_ts := 9\<rparr>"
    by (rule sample_accepts [of sample_start 9 7]) (auto simp: sample_start_def topology_empty_def World_null_def)
  have p: "tp_planet T = sample_planet" using T(2) by (simp add: sample_planet_def sample_world_def)
  obtain T' where T': "addWorld sample_topo_env 8 (sample_planet\<lparr>w_ts := 12\<rparr>) False T = Inr (True, T')"
    "tp_planet T' = sample_planet\<lparr>w_ts := 12\<rparr>"
    by (rule sample_accepts [of T 12 8]) (auto simp: p)
  have "topo_ok sample_topo_env T"
    using addWorld_ok [OF T(1)] topology_empty_ok by (simp add: sample_start_def)
  moreover have s: "(topo_step sample_topo_env)\<^sup>*\<^sup>* T T'" using topo_step.world [OF T'(1)] by simp
  moreover have "w_id (tp_planet T) \<noteq> 0" "w_type (tp_planet T) \<noteq> TYPE_NULL" "w_ts (tp_planet T) = 9"
    by (simp_all add: p sample_planet_def sample_world_def)
  moreover have "w_ts (tp_planet T') = 12" by (simp add: T'(2))
  ultimately show ?thesis using world_updates_signed [of sample_topo_env T T'] by blast
qed

end
